(* ===== verification/Prelude.thy ===== *)
theory Prelude
  imports Main "HOL-Library.Word"
begin

text \<open>
  The vocabulary shared by every component of the model.

  \<^item> \<open>'a res\<close> is the result of a piece of Rust code that may panic: \<open>Inl p\<close> is the panic
    \<open>p\<close>, \<open>Inr x\<close> a normal return of \<open>x\<close>. \<open>Option\<close> and \<open>Result\<close> values of the source stay
    ordinary values inside \<open>Inr\<close>.
  \<^item> \<open>usize\<close> values and addresses are \<open>nat\<close>; the places where the source subtracts or indexes
    are guarded by \<open>usub\<close> and \<open>index\<close>, which panic as Rust does, and pointer arithmetic that
    wraps (\<open>wrapping_byte_add\<close>) wraps at \<open>2 ^ 64\<close>. Bit-level code uses \<open>64 word\<close>.
\<close>

section \<open>Panics\<close>

datatype panic =
    Arith_Overflow      \<comment> \<open>overflow check of \<open>+\<close>, \<open>-\<close>, \<open>*\<close>\<close>
  | Out_Of_Bounds       \<comment> \<open>slice or vector index out of range\<close>
  | Unwrap_None         \<comment> \<open>\<open>unwrap\<close> or \<open>expect\<close> on \<open>None\<close> or \<open>Err\<close>\<close>
  | Assert_Failed       \<comment> \<open>\<open>assert!\<close>\<close>
  | Explicit_Panic      \<comment> \<open>\<open>panic!\<close>\<close>
  | Unimplemented       \<comment> \<open>\<open>unimplemented!\<close>\<close>
  | Blocked             \<comment> \<open>not a panic: the thread waits for something that never comes\<close>
  | Undefined_Behavior  \<comment> \<open>not a panic: the \<open>unsafe\<close> code's precondition is violated\<close>

type_synonym 'a res = "panic + 'a"

definition bind_res :: "'a res \<Rightarrow> ('a \<Rightarrow> 'b res) \<Rightarrow> 'b res" where
  "bind_res m f = (case m of Inl e \<Rightarrow> Inl e | Inr x \<Rightarrow> f x)"

lemma bind_res_simps [simp]:
  "bind_res (Inl e) f = Inl e"
  "bind_res (Inr x) f = f x"
  by (simp_all add: bind_res_def)

lemma bind_res_eq_Inr:
  "bind_res m f = Inr y \<longleftrightarrow> (\<exists>x. m = Inr x \<and> f x = Inr y)"
  by (cases m) auto

lemma bind_res_InrE:
  assumes "bind_res m f = Inr y"
  obtains x where "m = Inr x" and "f x = Inr y"
  using assms by (auto simp: bind_res_eq_Inr)

lemma bind_res_cong [fundef_cong]:
  assumes "m = m'" and "\<And>x. m' = Inr x \<Longrightarrow> f x = f' x"
  shows "bind_res m f = bind_res m' f'"
  using assms by (cases m') auto

definition ok :: "'a res \<Rightarrow> bool" where
  "ok r \<longleftrightarrow> (case r of Inl _ \<Rightarrow> False | Inr _ \<Rightarrow> True)"

lemma ok_simps [simp]: "ok (Inr x)" "\<not> ok (Inl e)"
  by (simp_all add: ok_def)

text \<open>\<open>assert!(b); k\<close>, \<open>o.unwrap()\<close> and \<open>xs[i]\<close>.\<close>

definition assert_then :: "bool \<Rightarrow> 'a res \<Rightarrow> 'a res" where
  "assert_then b k = (if b then k else Inl Assert_Failed)"

definition unwrap :: "'a option \<Rightarrow> 'a res" where
  "unwrap x = (case x of None \<Rightarrow> Inl Unwrap_None | Some y \<Rightarrow> Inr y)"

definition index :: "'a list \<Rightarrow> nat \<Rightarrow> 'a res" where
  "index xs i = (if i < length xs then Inr (xs ! i) else Inl Out_Of_Bounds)"

definition index_set :: "'a list \<Rightarrow> nat \<Rightarrow> 'a \<Rightarrow> 'a list res" where
  "index_set xs i x = (if i < length xs then Inr (xs[i := x]) else Inl Out_Of_Bounds)"

lemma assert_then_simps [simp]:
  "assert_then True k = k" "assert_then False k = Inl Assert_Failed"
  by (simp_all add: assert_then_def)

lemma assert_then_eq_Inr: "assert_then b k = Inr y \<longleftrightarrow> b \<and> k = Inr y"
  by (simp add: assert_then_def)

lemma unwrap_simps [simp]: "unwrap None = Inl Unwrap_None" "unwrap (Some x) = Inr x"
  by (simp_all add: unwrap_def)

lemma unwrap_eq_Inr: "unwrap x = Inr y \<longleftrightarrow> x = Some y"
  by (cases x) auto

lemma index_in [simp]: "i < length xs \<Longrightarrow> index xs i = Inr (xs ! i)"
  by (simp add: index_def)

lemma index_out [simp]: "length xs \<le> i \<Longrightarrow> index xs i = Inl Out_Of_Bounds"
  by (simp add: index_def)

lemma index_set_in [simp]: "i < length xs \<Longrightarrow> index_set xs i x = Inr (xs[i := x])"
  by (simp add: index_set_def)

lemmas res_eq_simps = bind_res_eq_Inr assert_then_eq_Inr unwrap_eq_Inr

section \<open>Machine-size arithmetic on \<open>usize\<close>\<close>

text \<open>
  With overflow checks (\<open>True\<close>, the development profile) \<open>+\<close> and \<open>*\<close> panic where the mathematical result
  \<open>n\<close> does not fit, and subtraction where it would underflow; without them (the release profile) they
  wrap. \<open>usub\<close> is the checked subtraction.
\<close>

definition usize_in :: "bool \<Rightarrow> nat \<Rightarrow> nat res" where
  "usize_in checks n = (if n < 2 ^ 64 then Inr n else if checks then Inl Arith_Overflow else Inr (n mod 2 ^ 64))"

definition u32_in :: "bool \<Rightarrow> nat \<Rightarrow> nat res" where
  "u32_in checks n = (if n < 2 ^ 32 then Inr n else if checks then Inl Arith_Overflow else Inr (n mod 2 ^ 32))"

lemma usize_in_small [simp]: "n < 2 ^ 64 \<Longrightarrow> usize_in checks n = Inr n"
  by (simp add: usize_in_def)

lemma usize_in_True: "usize_in True n = Inr k \<longleftrightarrow> n < 2 ^ 64 \<and> k = n"
  by (auto simp: usize_in_def)

lemma u32_in_small [simp]: "n < 2 ^ 32 \<Longrightarrow> u32_in checks n = Inr n"
  by (simp add: u32_in_def)

definition usub_in :: "bool \<Rightarrow> nat \<Rightarrow> nat \<Rightarrow> nat res" where
  "usub_in checks a b =
     (if b \<le> a then Inr (a - b)
      else if checks then Inl Arith_Overflow
      else Inr (2 ^ 64 - (b - a)))"

definition usub :: "nat \<Rightarrow> nat \<Rightarrow> nat res" where
  "usub a b = (if b \<le> a then Inr (a - b) else Inl Arith_Overflow)"

lemma usub_in_checked: "usub_in True a b = usub a b"
  by (simp add: usub_in_def usub_def)

lemma usub_le [simp]: "b \<le> a \<Longrightarrow> usub a b = Inr (a - b)"
  by (simp add: usub_def)

lemma usub_eq_Inr: "usub a b = Inr c \<longleftrightarrow> b \<le> a \<and> c = a - b"
  by (auto simp: usub_def)

definition wrapping_byte_add :: "nat \<Rightarrow> nat \<Rightarrow> nat" where
  "wrapping_byte_add p n = (p + n) mod 2 ^ 64"

lemma wrapping_byte_add_small [simp]: "p + n < 2 ^ 64 \<Longrightarrow> wrapping_byte_add p n = p + n"
  by (simp add: wrapping_byte_add_def)

definition div_ceil :: "nat \<Rightarrow> nat \<Rightarrow> nat" where
  "div_ceil a b = (if a mod b = 0 then a div b else a div b + 1)"

lemma div_ceil_mult_ge: "0 < b \<Longrightarrow> a \<le> div_ceil a b * b"
  by (auto simp: div_ceil_def)
    (metis add_le_mono1 less_imp_le_nat mod_less_divisor mod_mult_div_eq mult.commute)

lemma div_ceil_pos: "0 < a \<Longrightarrow> 0 < b \<Longrightarrow> 0 < div_ceil a b"
  by (auto simp: div_ceil_def)

lemma div_ceil_mult_less: "0 < b \<Longrightarrow> div_ceil a b * b < a + b"
  by (auto simp: div_ceil_def)
    (metis div_mult_mod_eq less_add_same_cancel1)

section \<open>Blocks of addresses\<close>

text \<open>\<open>block a n\<close> is the address range \<open>a .. a + n\<close> that an allocation of \<open>n\<close> bytes at \<open>a\<close> owns.\<close>

definition block :: "nat \<Rightarrow> nat \<Rightarrow> nat set" where
  "block a n = {a..<a + n}"

lemma in_block [simp]: "x \<in> block a n \<longleftrightarrow> a \<le> x \<and> x < a + n"
  by (simp add: block_def)

lemma block_0 [simp]: "block a 0 = {}"
  by (simp add: block_def)

lemma block_append: "block a (m + n) = block a m \<union> block (a + m) n"
  by (auto simp: block_def)

lemma block_disjoint: "a + m \<le> b \<Longrightarrow> block a m \<inter> block b n = {}"
  by (auto simp: block_def)

end
