(* ===== verification/Object_Metadata.thy ===== *)
theory Object_Metadata
  imports Prelude
begin

text \<open>
  \<open>uwugc/src/object/metadata.rs\<close> and \<open>uwugc/src/object/mod.rs\<close>: the two-word header of every
  object and the pointer to it. The first word packs the mark bit, the write-barrier bit, the kind
  and (for plain data) the length; the second word holds the full payload. The heap is a memory of
  64-bit words, addressed by the byte address of the word (all accesses of the source are to
  8-byte-aligned words; \<open>PageTable::alloc\<close> asserts the sizes).
\<close>

unbundle bit_operations_syntax

section \<open>Metadata\<close>

datatype bit2 = Bit0 | Bit1

fun bit_not :: "bit2 \<Rightarrow> bit2" where
  "bit_not Bit0 = Bit1"
| "bit_not Bit1 = Bit0"

datatype metadata_enum = PlainOldData "64 word" | NotPlainOldData "64 word"

record metadata =
  md_word :: "64 word"
  md_payload :: "64 word"

record metadata_expanded =
  is_marked :: bit2
  write_barrier_activated :: bool
  payload :: metadata_enum

definition MARK_BIT :: "64 word" where "MARK_BIT = 1"
definition WRITE_BARRIER_BIT :: "64 word" where "WRITE_BARRIER_BIT = 2"
definition OBJECT_TYPE_MASK :: "64 word" where "OBJECT_TYPE_MASK = 4"
definition OBJECT_TYPE_SHIFT :: nat where "OBJECT_TYPE_SHIFT = 2"
definition PAYLOAD_SHIFT :: nat where "PAYLOAD_SHIFT = 3"

lemmas bit_consts = MARK_BIT_def WRITE_BARRIER_BIT_def OBJECT_TYPE_MASK_def
  OBJECT_TYPE_SHIFT_def PAYLOAD_SHIFT_def

definition encode_word :: "metadata_expanded \<Rightarrow> 64 word" where
  "encode_word data =
     (let v = (case payload data of
                 PlainOldData len \<Rightarrow> push_bit PAYLOAD_SHIFT len OR 0
               | NotPlainOldData _ \<Rightarrow> 4);
          v = (if is_marked data = Bit1 then v OR MARK_BIT else v);
          v = (if write_barrier_activated data then v OR WRITE_BARRIER_BIT else v)
      in v)"

text \<open>\<open>decode\<close>: the kind is one bit, so the \<open>unimplemented!\<close> arm of its \<open>match\<close> cannot be reached.\<close>

definition decode :: "metadata \<Rightarrow> 64 word \<Rightarrow> metadata_expanded res" where
  "decode m v =
     (let kind = v AND OBJECT_TYPE_MASK; payload = md_payload m; k = drop_bit OBJECT_TYPE_SHIFT kind in
      bind_res
        (if k = 0 then Inr (PlainOldData payload)
         else if k = 1 then Inr (NotPlainOldData payload)
         else Inl Unimplemented)
        (\<lambda>payload.
          Inr \<lparr>is_marked = (if v AND MARK_BIT \<noteq> 0 then Bit1 else Bit0),
               write_barrier_activated = (v AND WRITE_BARRIER_BIT \<noteq> 0),
               payload = payload\<rparr>))"

definition metadata_new :: "metadata_expanded \<Rightarrow> metadata" where
  "metadata_new data =
     \<lparr>md_word = encode_word data,
      md_payload = (case payload data of NotPlainOldData x \<Rightarrow> x | PlainOldData x \<Rightarrow> x)\<rparr>"

definition metadata_get :: "metadata \<Rightarrow> metadata_expanded res" where
  "metadata_get m = decode m (md_word m)"

text \<open>
  \<open>Metadata::try_update\<close>: the new header and \<open>Ok\<close> of the old contents when the closure gives new
  ones, the same header and \<open>Err\<close> of the contents when it declines.
\<close>

definition metadata_try_update ::
    "metadata \<Rightarrow> (metadata_expanded \<Rightarrow> metadata_expanded option)
     \<Rightarrow> (metadata \<times> (metadata_expanded + metadata_expanded)) res" where
  "metadata_try_update m func =
     bind_res (decode m (md_word m)) (\<lambda>old.
       case func old of
         Some new \<Rightarrow> Inr (m\<lparr>md_word := encode_word new\<rparr>, Inr old)
       | None \<Rightarrow> Inr (m, Inl old))"

section \<open>Objects in memory\<close>

type_synonym memory = "nat \<Rightarrow> 64 word"
type_synonym object_ptr = nat

definition METADATA_SIZE :: nat where
  "METADATA_SIZE = 16"

text \<open>\<open>ObjectPtr::from_raw\<close> (with its \<open>NonNull\<close> check), \<open>data\<close>, \<open>metadata_ref\<close> and \<open>into_raw\<close>.\<close>

definition object_from_raw :: "nat \<Rightarrow> object_ptr option" where
  "object_from_raw p = (if p = 0 then None else Some p)"

definition object_data :: "object_ptr \<Rightarrow> nat" where
  "object_data obj = obj + METADATA_SIZE"

definition read_metadata :: "memory \<Rightarrow> object_ptr \<Rightarrow> metadata" where
  "read_metadata m obj = \<lparr>md_word = m obj, md_payload = m (obj + 8)\<rparr>"

definition write_metadata :: "memory \<Rightarrow> object_ptr \<Rightarrow> metadata \<Rightarrow> memory" where
  "write_metadata m obj md = m(obj := md_word md, obj + 8 := md_payload md)"

definition object_metadata :: "memory \<Rightarrow> object_ptr \<Rightarrow> metadata_expanded res" where
  "object_metadata m obj = metadata_get (read_metadata m obj)"

definition object_try_update ::
    "memory \<Rightarrow> object_ptr \<Rightarrow> (metadata_expanded \<Rightarrow> metadata_expanded option)
     \<Rightarrow> (memory \<times> (metadata_expanded + metadata_expanded)) res" where
  "object_try_update m obj func =
     bind_res (metadata_try_update (read_metadata m obj) func) (\<lambda>(md, r).
       Inr (m(obj := md_word md), r))"

section \<open>Encoding and decoding\<close>

text \<open>The three flag bits of a word and what each field reads.\<close>

lemma flag_bits:
  "v AND MARK_BIT \<noteq> 0 \<longleftrightarrow> bit v 0"
  "v AND WRITE_BARRIER_BIT \<noteq> 0 \<longleftrightarrow> bit v 1"
  "drop_bit OBJECT_TYPE_SHIFT (v AND OBJECT_TYPE_MASK) = (if bit v 2 then 1 else 0)"
proof -
  have and_exp: "v AND 2 ^ n = (if bit v n then 2 ^ n else 0)" for n
    by (rule bit_eqI) (auto simp: bit_simps)
  show "v AND MARK_BIT \<noteq> 0 \<longleftrightarrow> bit v 0"
    using and_exp[of 0] by (simp add: bit_consts)
  show "v AND WRITE_BARRIER_BIT \<noteq> 0 \<longleftrightarrow> bit v 1"
    using and_exp[of 1] by (simp add: bit_consts)
  have "drop_bit 2 (4 :: 64 word) = 1" by simp
  then show "drop_bit OBJECT_TYPE_SHIFT (v AND OBJECT_TYPE_MASK) = (if bit v 2 then 1 else 0)"
    using and_exp[of 2] by (simp add: bit_consts)
qed

lemma decode_eq:
  "decode m v =
     Inr \<lparr>is_marked = (if bit v 0 then Bit1 else Bit0), write_barrier_activated = bit v 1,
          payload = (if bit v 2 then NotPlainOldData (md_payload m) else PlainOldData (md_payload m))\<rparr>"
  by (simp only: decode_def flag_bits Let_def) simp

lemma bit_encode_word:
  "bit (encode_word d) 0 \<longleftrightarrow> is_marked d = Bit1"
  "bit (encode_word d) 1 \<longleftrightarrow> write_barrier_activated d"
  "bit (encode_word d) 2 \<longleftrightarrow> (case payload d of PlainOldData _ \<Rightarrow> False | NotPlainOldData _ \<Rightarrow> True)"
proof -
  have "bit (4 :: 64 word) 0 = False" "bit (4 :: 64 word) 1 = False" "bit (4 :: 64 word) 2"
    "bit (2 :: 64 word) 0 = False" "bit (2 :: 64 word) 1" "bit (2 :: 64 word) 2 = False"
    by simp_all
  then show "bit (encode_word d) 0 \<longleftrightarrow> is_marked d = Bit1"
    "bit (encode_word d) 1 \<longleftrightarrow> write_barrier_activated d"
    "bit (encode_word d) 2 \<longleftrightarrow> (case payload d of PlainOldData _ \<Rightarrow> False | NotPlainOldData _ \<Rightarrow> True)"
    by (auto simp: encode_word_def Let_def bit_consts bit_or_iff bit_push_bit_iff
        split: metadata_enum.splits)
qed

lemma metadata_roundtrip_bits: "(if is_marked d = Bit1 then Bit1 else Bit0) = is_marked d"
  by (cases "is_marked d") auto

section \<open>Properties\<close>

text \<open>
  C27: The header round-trips: whatever metadata is written with \<open>MetadataCompressed::new\<close>, reading
  it back with \<open>get\<close> gives the same mark, write-barrier flag, kind and full 64-bit payload (the
  length squeezed into the header word, which would lose its top bits, is not what is read).
\<close>

theorem metadata_roundtrip: "metadata_get (metadata_new d) = Inr d"
  using metadata_roundtrip_bits[of d]
  by (simp add: metadata_get_def decode_eq metadata_new_def bit_encode_word del: One_nat_def
      split: metadata_enum.splits)

text \<open>
  A successful header update changes what the closure changes and nothing else, provided the
  closure keeps the payload: the object then reads as the closure's result, no other word of the
  memory changes, and a closure that declines leaves the memory as it was and hands back the
  contents.
\<close>

theorem try_update_correct:
  assumes "object_metadata m obj = Inr old" "\<forall>new. func old = Some new \<longrightarrow> payload new = payload old"
  shows "(func old = None \<and> object_try_update m obj func = Inr (m, Inl old)) \<or>
    (\<exists>new m'. func old = Some new \<and> object_try_update m obj func = Inr (m', Inr old) \<and>
       object_metadata m' obj = Inr new \<and> (\<forall>a. a \<noteq> obj \<longrightarrow> m' a = m a))"
proof (cases "func old")
  case None
  then show ?thesis
    using assms(1) by (simp add: object_try_update_def metadata_try_update_def object_metadata_def
        metadata_get_def read_metadata_def)
next
  case (Some new)
  let ?m = "m(obj := encode_word new)"
  have "payload new = (if bit (m obj) 2 then NotPlainOldData (m (obj + 8)) else PlainOldData (m (obj + 8)))"
    using assms Some by (auto simp: object_metadata_def metadata_get_def decode_eq read_metadata_def)
  then have "object_metadata ?m obj = Inr new"
    using metadata_roundtrip_bits[of new]
    by (simp add: object_metadata_def metadata_get_def decode_eq read_metadata_def bit_encode_word
        del: One_nat_def)
  moreover have "object_try_update m obj func = Inr (?m, Inr old)"
    using assms(1) Some by (simp add: object_try_update_def metadata_try_update_def object_metadata_def
        metadata_get_def read_metadata_def)
  ultimately show ?thesis using Some by auto
qed

theorem try_update_correct_witness:
  "\<exists>m'. object_try_update (\<lambda>_. 0) 16 (\<lambda>x. Some (x\<lparr>is_marked := Bit1\<rparr>)) =
      Inr (m', Inr \<lparr>is_marked = Bit0, write_barrier_activated = False, payload = PlainOldData 0\<rparr>) \<and>
    object_metadata m' 16 =
      Inr \<lparr>is_marked = Bit1, write_barrier_activated = False, payload = PlainOldData 0\<rparr>"
proof -
  have "object_metadata (\<lambda>_. 0) 16 =
      Inr \<lparr>is_marked = Bit0, write_barrier_activated = False, payload = PlainOldData 0\<rparr>"
    by (simp add: object_metadata_def metadata_get_def decode_eq read_metadata_def)
  from try_update_correct[OF this, of "\<lambda>x. Some (x\<lparr>is_marked := Bit1\<rparr>)"] show ?thesis by auto
qed

end
