(* ===== verification/Type_Manager.thy ===== *)
theory Type_Manager
  imports Object_Metadata
begin

text \<open>
  \<open>uwugc/src/type_manager.rs\<close>: the trait through which the collector learns the layout of objects,
  and \<open>TypeManagerConcrete\<close>, which dispatches on the kind in the object header. The trait object is
  a record of its methods over a state \<open>'tm\<close>. A visitor that only collects the pointers it is
  shown is the list of them; an updater is a function on pointers that may panic. \<open>None\<close> is the
  answer \<open>false\<close> of the methods that say whether the type id exists.
\<close>

section \<open>The trait and its dispatcher\<close>

record 'tm type_manager_ops =
  tm_assume_all_dead :: "'tm \<Rightarrow> 'tm"
  tm_set_alive :: "'tm \<Rightarrow> 64 word \<Rightarrow> 'tm \<times> bool"
  tm_wipe_deads :: "'tm \<Rightarrow> 'tm"
  tm_iterate :: "'tm \<Rightarrow> memory \<Rightarrow> 64 word \<Rightarrow> object_ptr \<Rightarrow> object_ptr list option res"
  tm_update :: "'tm \<Rightarrow> memory \<Rightarrow> 64 word \<Rightarrow> object_ptr \<Rightarrow> (object_ptr \<Rightarrow> object_ptr res) \<Rightarrow> memory option res"
  tm_static_size :: "'tm \<Rightarrow> 64 word \<Rightarrow> nat option res"
  tm_dynamic_size :: "'tm \<Rightarrow> memory \<Rightarrow> 64 word \<Rightarrow> object_ptr \<Rightarrow> nat option res"

definition concrete_iterate_gc_pointers ::
    "'tm type_manager_ops \<Rightarrow> 'tm \<Rightarrow> memory \<Rightarrow> object_ptr \<Rightarrow> object_ptr list res" where
  "concrete_iterate_gc_pointers ops tm m obj =
     bind_res (object_metadata m obj) (\<lambda>md.
       case payload md of
         PlainOldData _ \<Rightarrow> Inr []
       | NotPlainOldData type_id \<Rightarrow>
           bind_res (tm_iterate ops tm m type_id obj) (\<lambda>r.
             case r of None \<Rightarrow> Inl Assert_Failed | Some ptrs \<Rightarrow> Inr ptrs))"

text \<open>\<open>get_size\<close>: the size of the object with its header.\<close>

definition concrete_get_size :: "'tm type_manager_ops \<Rightarrow> 'tm \<Rightarrow> memory \<Rightarrow> object_ptr \<Rightarrow> nat res" where
  "concrete_get_size ops tm m obj =
     bind_res (object_metadata m obj) (\<lambda>md.
     bind_res
       (case payload md of
          PlainOldData x \<Rightarrow> Inr (unat x)
        | NotPlainOldData type_id \<Rightarrow> bind_res (tm_dynamic_size ops tm m type_id obj) unwrap)
       (\<lambda>n. Inr (n + METADATA_SIZE)))"

definition concrete_update_gc_pointers ::
    "'tm type_manager_ops \<Rightarrow> 'tm \<Rightarrow> memory \<Rightarrow> object_ptr \<Rightarrow> (object_ptr \<Rightarrow> object_ptr res) \<Rightarrow> memory res" where
  "concrete_update_gc_pointers ops tm m obj updater =
     bind_res (object_metadata m obj) (\<lambda>md.
       case payload md of
         PlainOldData _ \<Rightarrow> Inr m
       | NotPlainOldData type_id \<Rightarrow>
           bind_res (tm_update ops tm m type_id obj updater) (\<lambda>r.
             case r of None \<Rightarrow> Inl Assert_Failed | Some m' \<Rightarrow> Inr m'))"

section \<open>Pointer fields\<close>

text \<open>
  Reading a field as a pointer-sized cell: a misaligned dereference is undefined behaviour.
  \<open>visit_fields\<close> shows the non-null pointers to a visitor, in order; \<open>update_fields\<close> replaces each
  non-null pointer by its image.
\<close>

definition load_pointer :: "memory \<Rightarrow> nat \<Rightarrow> nat res" where
  "load_pointer m a = (if 8 dvd a then Inr (unat (m a)) else Inl Undefined_Behavior)"

fun visit_fields :: "memory \<Rightarrow> nat list \<Rightarrow> object_ptr list res" where
  "visit_fields m [] = Inr []"
| "visit_fields m (a # as) =
     bind_res (load_pointer m a) (\<lambda>v.
     bind_res (visit_fields m as) (\<lambda>vs. Inr (if v = 0 then vs else v # vs)))"

fun update_fields :: "memory \<Rightarrow> nat list \<Rightarrow> (object_ptr \<Rightarrow> object_ptr res) \<Rightarrow> memory res" where
  "update_fields m [] f = Inr m"
| "update_fields m (a # as) f =
     bind_res (load_pointer m a) (\<lambda>v.
     bind_res (if v = 0 then Inr m else bind_res (f v) (\<lambda>v'. Inr (m(a := word_of_nat v')))) (\<lambda>m.
       update_fields m as f))"

text \<open>
  The contract between the collector and a type manager, for the type ids that objects may carry:
  iterating shows exactly the non-null fields at the offsets \<open>offs\<close>, updating rewrites exactly
  those, the fields are aligned, distinct and inside the object, and the layout depends on nothing
  but the object's own non-pointer data, wherever it lies.
\<close>

locale field_layout =
  fixes ops :: "'tm type_manager_ops" and tm :: 'tm
    and offs :: "memory \<Rightarrow> 64 word \<Rightarrow> object_ptr \<Rightarrow> nat list"
    and known :: "64 word \<Rightarrow> bool"
  assumes iterate: "known ty \<Longrightarrow>
      tm_iterate ops tm m ty obj =
      bind_res (visit_fields m (map (\<lambda>off. object_data obj + off) (offs m ty obj))) (\<lambda>vs. Inr (Some vs))"
    and update: "known ty \<Longrightarrow>
      tm_update ops tm m ty obj f =
      bind_res (update_fields m (map (\<lambda>off. object_data obj + off) (offs m ty obj)) f) (\<lambda>m'. Inr (Some m'))"
    and sized: "known ty \<Longrightarrow> \<exists>n. tm_dynamic_size ops tm m ty obj = Inr (Some n) \<and>
      (\<forall>off \<in> set (offs m ty obj). off + 8 \<le> n \<and> 8 dvd off) \<and> distinct (offs m ty obj)"
    and frame: "known ty \<Longrightarrow> tm_dynamic_size ops tm m ty obj = Inr (Some n) \<Longrightarrow>
      (\<And>i. i < n \<Longrightarrow> 8 dvd i \<Longrightarrow> i \<notin> set (offs m ty obj) \<Longrightarrow>
        m' (object_data obj' + i) = m (object_data obj + i)) \<Longrightarrow>
      tm_dynamic_size ops tm m' ty obj' = Inr (Some n) \<and> offs m' ty obj' = offs m ty obj"

end
