(* ===== verification/Object_Heap.thy ===== *)
theory Object_Heap
  imports Type_Manager
begin

text \<open>
  Well-formed heaps of objects, as the collector assumes them between allocation and marking: every
  object is aligned, its size is a multiple of 8, objects do not overlap, and the pointers in them
  are to objects of the heap. \<open>marked_variant\<close> relates two memories that differ in mark bits only;
  the lemmas, proved under the type manager's contract, show that sizes and pointers are the same
  in both. \<open>reaches\<close> is reachability from a list of roots.
\<close>

definition obj_size :: "'tm type_manager_ops \<Rightarrow> 'tm \<Rightarrow> memory \<Rightarrow> object_ptr \<Rightarrow> nat" where
  "obj_size ops tm m obj = (case concrete_get_size ops tm m obj of Inr n \<Rightarrow> n | Inl _ \<Rightarrow> 0)"

definition obj_pointers :: "'tm type_manager_ops \<Rightarrow> 'tm \<Rightarrow> memory \<Rightarrow> object_ptr \<Rightarrow> object_ptr list" where
  "obj_pointers ops tm m obj =
     (case concrete_iterate_gc_pointers ops tm m obj of Inr ps \<Rightarrow> ps | Inl _ \<Rightarrow> [])"

inductive reaches :: "'tm type_manager_ops \<Rightarrow> 'tm \<Rightarrow> memory \<Rightarrow> object_ptr list \<Rightarrow> object_ptr \<Rightarrow> bool"
  for ops tm m roots where
  root: "obj \<in> set roots \<Longrightarrow> reaches ops tm m roots obj"
| step: "reaches ops tm m roots obj \<Longrightarrow> p \<in> set (obj_pointers ops tm m obj) \<Longrightarrow> reaches ops tm m roots p"

lemma reaches_closed:
  assumes "reaches ops tm m roots obj" "set roots \<subseteq> S"
    and "\<And>x. x \<in> S \<Longrightarrow> set (obj_pointers ops tm m x) \<subseteq> S"
  shows "obj \<in> S"
  using assms(1) by induction (use assms in auto)

text \<open>Kind bits and payload of a header, and the mark bit.\<close>

definition obj_kind :: "memory \<Rightarrow> object_ptr \<Rightarrow> metadata_enum" where
  "obj_kind m obj =
     (if bit (m obj) 2 then NotPlainOldData (m (obj + 8)) else PlainOldData (m (obj + 8)))"

definition obj_marked :: "bit2 \<Rightarrow> memory \<Rightarrow> object_ptr \<Rightarrow> bool" where
  "obj_marked t m obj \<longleftrightarrow> (if bit (m obj) 0 then Bit1 else Bit0) = t"

lemma object_metadata_eq:
  "object_metadata m obj =
     Inr \<lparr>is_marked = (if bit (m obj) 0 then Bit1 else Bit0), write_barrier_activated = bit (m obj) 1,
          payload = obj_kind m obj\<rparr>"
  by (simp add: object_metadata_def metadata_get_def read_metadata_def decode_eq obj_kind_def)

definition object_wf :: "(64 word \<Rightarrow> bool) \<Rightarrow> memory \<Rightarrow> object_ptr \<Rightarrow> bool" where
  "object_wf known m obj \<longleftrightarrow>
     8 dvd obj \<and> (case obj_kind m obj of PlainOldData _ \<Rightarrow> True | NotPlainOldData ty \<Rightarrow> known ty)"

definition heap_wf ::
    "'tm type_manager_ops \<Rightarrow> 'tm \<Rightarrow> (64 word \<Rightarrow> bool) \<Rightarrow> memory \<Rightarrow> object_ptr set \<Rightarrow> bool" where
  "heap_wf ops tm known m objs \<longleftrightarrow>
     finite objs \<and>
     (\<forall>obj \<in> objs. object_wf known m obj \<and> 8 dvd obj_size ops tm m obj \<and>
        set (obj_pointers ops tm m obj) \<subseteq> objs) \<and>
     (\<forall>x \<in> objs. \<forall>y \<in> objs. x \<noteq> y \<longrightarrow>
        block x (obj_size ops tm m x) \<inter> block y (obj_size ops tm m y) = {})"

lemma reaches_in_heap:
  assumes "heap_wf ops tm known m objs" "set roots \<subseteq> objs" "reaches ops tm m roots obj"
  shows "obj \<in> objs"
  by (rule reaches_closed[OF assms(3,2)]) (use assms(1) in \<open>simp add: heap_wf_def\<close>)

lemma sum_reaches_le:
  assumes "heap_wf ops tm known m objs" "set roots \<subseteq> objs"
  shows "(\<Sum>obj \<in> {obj. reaches ops tm m roots obj}. f obj) \<le> (\<Sum>obj \<in> objs. f obj :: nat)"
  using assms(1) by (intro sum_mono2) (auto simp: heap_wf_def dest: reaches_in_heap[OF assms])

definition marked_variant :: "object_ptr set \<Rightarrow> memory \<Rightarrow> memory \<Rightarrow> bool" where
  "marked_variant objs m m' \<longleftrightarrow>
     (\<forall>a. a \<notin> objs \<longrightarrow> m' a = m a) \<and>
     (\<forall>obj \<in> objs. bit (m' obj) 1 = bit (m obj) 1 \<and> bit (m' obj) 2 = bit (m obj) 2)"

lemma marked_variant_refl [simp]: "marked_variant objs m m"
  by (simp add: marked_variant_def)

lemma visit_fields_cong:
  "(\<And>a. a \<in> set as \<Longrightarrow> m' a = m a) \<Longrightarrow> visit_fields m' as = visit_fields m as"
  by (induction as) (simp_all add: load_pointer_def)

lemma visit_fields_aligned:
  "\<forall>a \<in> set as. 8 dvd a \<Longrightarrow> visit_fields m as = Inr (filter (\<lambda>v. v \<noteq> 0) (map (\<lambda>a. unat (m a)) as))"
  by (induction as) (simp_all add: load_pointer_def)

text \<open>The addresses of the pointer fields of an object, for a layout \<open>offs\<close>.\<close>

definition field_addrs :: "(memory \<Rightarrow> 64 word \<Rightarrow> object_ptr \<Rightarrow> nat list) \<Rightarrow> memory \<Rightarrow> object_ptr \<Rightarrow> nat list" where
  "field_addrs offs m obj =
     (case obj_kind m obj of
        PlainOldData _ \<Rightarrow> []
      | NotPlainOldData ty \<Rightarrow> map (\<lambda>off. object_data obj + off) (offs m ty obj))"

text \<open>The memory after every non-null field of \<open>F\<close> has been replaced by its image under \<open>g\<close>.\<close>

definition map_fields :: "nat set \<Rightarrow> (nat \<Rightarrow> nat) \<Rightarrow> memory \<Rightarrow> memory" where
  "map_fields F g m = (\<lambda>a. if a \<in> F \<and> m a \<noteq> 0 then word_of_nat (g (unat (m a))) else m a)"

lemma update_fields_distinct:
  assumes "distinct as" "\<forall>a \<in> set as. 8 dvd a"
    and "\<And>a. a \<in> set as \<Longrightarrow> m a \<noteq> 0 \<Longrightarrow> f (unat (m a)) = Inr (g (unat (m a)))"
  shows "update_fields m as f = Inr (map_fields (set as) g m)"
  using assms
proof (induction as arbitrary: m)
  case Nil
  then show ?case by (simp add: map_fields_def)
next
  case (Cons a as)
  let ?m = "if m a = 0 then m else m(a := word_of_nat (g (unat (m a))))"
  have "update_fields ?m as f = Inr (map_fields (set as) g ?m)"
    using Cons.prems by (intro Cons.IH) (auto split: if_splits)
  moreover have "map_fields (set as) g ?m = map_fields (set (a # as)) g m"
    using Cons.prems(1) by (auto simp: map_fields_def fun_eq_iff)
  moreover have "update_fields m (a # as) f = update_fields ?m as f"
    using Cons.prems(2,3) by (auto simp: load_pointer_def unsigned_eq_0_iff)
  ultimately show ?case by simp
qed

context field_layout
begin

lemma get_size_known:
  assumes "object_wf known m obj"
  obtains n where "concrete_get_size ops tm m obj = Inr (n + 16)"
    "case obj_kind m obj of PlainOldData x \<Rightarrow> n = unat x
       | NotPlainOldData ty \<Rightarrow> known ty \<and> tm_dynamic_size ops tm m ty obj = Inr (Some n) \<and>
           (\<forall>off \<in> set (offs m ty obj). off + 8 \<le> n \<and> 8 dvd off) \<and> distinct (offs m ty obj)"
proof (cases "obj_kind m obj")
  case (PlainOldData x)
  then show thesis
    by (intro that[of "unat x"]) (simp_all add: concrete_get_size_def object_metadata_eq METADATA_SIZE_def)
next
  case (NotPlainOldData ty)
  then have "known ty" using assms by (simp add: object_wf_def)
  with sized[of ty m obj] NotPlainOldData show thesis
    by (auto simp: concrete_get_size_def object_metadata_eq METADATA_SIZE_def intro: that)
qed

lemma obj_size_ge: "object_wf known m obj \<Longrightarrow> 16 \<le> obj_size ops tm m obj"
  using get_size_known[of m obj] by (fastforce simp: obj_size_def)

lemma get_size_obj_size:
  "object_wf known m obj \<Longrightarrow> concrete_get_size ops tm m obj = Inr (obj_size ops tm m obj)"
  using get_size_known[of m obj] by (fastforce simp: obj_size_def)

lemma field_addrs_wf:
  assumes "object_wf known m obj"
  shows "distinct (field_addrs offs m obj)" "\<forall>a \<in> set (field_addrs offs m obj). 8 dvd a"
    "\<forall>a \<in> set (field_addrs offs m obj). obj + 16 \<le> a \<and> a + 8 \<le> obj + obj_size ops tm m obj"
proof -
  obtain n where n: "concrete_get_size ops tm m obj = Inr (n + 16)"
    "case obj_kind m obj of PlainOldData x \<Rightarrow> n = unat x
       | NotPlainOldData ty \<Rightarrow> known ty \<and> tm_dynamic_size ops tm m ty obj = Inr (Some n) \<and>
           (\<forall>off \<in> set (offs m ty obj). off + 8 \<le> n \<and> 8 dvd off) \<and> distinct (offs m ty obj)"
    using assms by (rule get_size_known)
  have "8 dvd obj" using assms by (simp add: object_wf_def)
  with n show "distinct (field_addrs offs m obj)" "\<forall>a \<in> set (field_addrs offs m obj). 8 dvd a"
    "\<forall>a \<in> set (field_addrs offs m obj). obj + 16 \<le> a \<and> a + 8 \<le> obj + obj_size ops tm m obj"
    by (auto simp: field_addrs_def obj_size_def object_data_def METADATA_SIZE_def distinct_map inj_on_def
        split: metadata_enum.splits)
qed

lemma iterate_known:
  assumes "object_wf known m obj"
  shows "concrete_iterate_gc_pointers ops tm m obj = Inr (obj_pointers ops tm m obj)"
    "obj_pointers ops tm m obj = filter (\<lambda>v. v \<noteq> 0) (map (\<lambda>a. unat (m a)) (field_addrs offs m obj))"
proof -
  have "concrete_iterate_gc_pointers ops tm m obj =
      Inr (filter (\<lambda>v. v \<noteq> 0) (map (\<lambda>a. unat (m a)) (field_addrs offs m obj)))"
  proof (cases "obj_kind m obj")
    case (PlainOldData x)
    then show ?thesis
      by (simp add: concrete_iterate_gc_pointers_def object_metadata_eq field_addrs_def)
  next
    case (NotPlainOldData ty)
    then have ty: "known ty" using assms by (auto simp: object_wf_def)
    with visit_fields_aligned[OF field_addrs_wf(2)[OF assms], of m] iterate[OF ty, of m obj] NotPlainOldData
    show ?thesis by (simp add: concrete_iterate_gc_pointers_def object_metadata_eq field_addrs_def)
  qed
  then show "concrete_iterate_gc_pointers ops tm m obj = Inr (obj_pointers ops tm m obj)"
    "obj_pointers ops tm m obj = filter (\<lambda>v. v \<noteq> 0) (map (\<lambda>a. unat (m a)) (field_addrs offs m obj))"
    by (simp_all add: obj_pointers_def)
qed

lemma update_known:
  assumes wf: "object_wf known m obj"
    and f: "\<And>a. a \<in> set (field_addrs offs m obj) \<Longrightarrow> m a \<noteq> 0 \<Longrightarrow> f (unat (m a)) = Inr (g (unat (m a)))"
  shows "concrete_update_gc_pointers ops tm m obj f = Inr (map_fields (set (field_addrs offs m obj)) g m)"
proof (cases "obj_kind m obj")
  case (PlainOldData x)
  then show ?thesis
    by (simp add: concrete_update_gc_pointers_def object_metadata_eq field_addrs_def map_fields_def)
next
  case (NotPlainOldData ty)
  then have ty: "known ty" using wf by (auto simp: object_wf_def)
  have "update_fields m (field_addrs offs m obj) f = Inr (map_fields (set (field_addrs offs m obj)) g m)"
    using field_addrs_wf(1,2)[OF wf] f by (rule update_fields_distinct)
  with update[OF ty, of m obj f] NotPlainOldData show ?thesis
    by (simp add: concrete_update_gc_pointers_def object_metadata_eq field_addrs_def)
qed

text \<open>
  An object whose header bit 2, payload and non-pointer data are copied word by word has the same
  size, and its fields are at the same places, wherever the copy lies.
\<close>

lemma same_layout:
  assumes wf: "object_wf known m obj" and al: "8 dvd obj'"
    and hdr: "bit (m' obj') 2 = bit (m obj) 2" "m' (obj' + 8) = m (obj + 8)"
    and data: "\<And>i. 16 \<le> i \<Longrightarrow> i < obj_size ops tm m obj \<Longrightarrow> 8 dvd i \<Longrightarrow>
      obj + i \<notin> set (field_addrs offs m obj) \<Longrightarrow> m' (obj' + i) = m (obj + i)"
  shows "object_wf known m' obj'" "obj_size ops tm m' obj' = obj_size ops tm m obj"
    "field_addrs offs m' obj' = map (\<lambda>a. obj' + (a - obj)) (field_addrs offs m obj)"
proof -
  have kind: "obj_kind m' obj' = obj_kind m obj" using hdr by (simp add: obj_kind_def)
  show wf': "object_wf known m' obj'" using wf al by (simp add: object_wf_def kind)
  obtain n where n: "concrete_get_size ops tm m obj = Inr (n + 16)"
    "case obj_kind m obj of PlainOldData x \<Rightarrow> n = unat x
       | NotPlainOldData ty \<Rightarrow> known ty \<and> tm_dynamic_size ops tm m ty obj = Inr (Some n) \<and>
           (\<forall>off \<in> set (offs m ty obj). off + 8 \<le> n \<and> 8 dvd off) \<and> distinct (offs m ty obj)"
    using wf by (rule get_size_known)
  have sz: "obj_size ops tm m obj = n + 16" using n(1) by (simp add: obj_size_def)
  have "obj_size ops tm m' obj' = obj_size ops tm m obj \<and>
      field_addrs offs m' obj' = map (\<lambda>a. obj' + (a - obj)) (field_addrs offs m obj)"
  proof (cases "obj_kind m obj")
    case (PlainOldData x)
    then show ?thesis
      by (simp add: obj_size_def concrete_get_size_def object_metadata_eq kind field_addrs_def)
  next
    case (NotPlainOldData ty)
    with n have ty: "known ty" "tm_dynamic_size ops tm m ty obj = Inr (Some n)" by auto
    have same: "m' (object_data obj' + i) = m (object_data obj + i)"
      if "i < n" "8 dvd i" "i \<notin> set (offs m ty obj)" for i
    proof -
      have "obj + (16 + i) \<notin> set (field_addrs offs m obj)"
        using that(3) NotPlainOldData by (auto simp: field_addrs_def object_data_def METADATA_SIZE_def)
      with data[of "16 + i"] that sz show ?thesis by (simp add: object_data_def METADATA_SIZE_def add.assoc)
    qed
    have "tm_dynamic_size ops tm m' ty obj' = Inr (Some n)" "offs m' ty obj' = offs m ty obj"
      using frame[OF ty(1,2), of m' obj'] same by auto
    with ty(2) NotPlainOldData show ?thesis
      by (simp add: obj_size_def concrete_get_size_def object_metadata_eq kind field_addrs_def
          object_data_def)
  qed
  then show "obj_size ops tm m' obj' = obj_size ops tm m obj"
    "field_addrs offs m' obj' = map (\<lambda>a. obj' + (a - obj)) (field_addrs offs m obj)" by auto
qed

text \<open>An object whose bytes are the same is the same object.\<close>

lemma same_object:
  assumes wf: "object_wf known m obj" and same: "\<And>a. a \<in> block obj (obj_size ops tm m obj) \<Longrightarrow> m' a = m a"
  shows "object_wf known m' obj" "obj_size ops tm m' obj = obj_size ops tm m obj"
    "obj_pointers ops tm m' obj = obj_pointers ops tm m obj"
    "field_addrs offs m' obj = field_addrs offs m obj" "obj_kind m' obj = obj_kind m obj"
    "obj_marked t m' obj = obj_marked t m obj"
proof -
  have "8 dvd obj" and ge: "16 \<le> obj_size ops tm m obj"
    using wf obj_size_ge[OF wf] by (simp_all add: object_wf_def)
  have hdr: "m' obj = m obj" "m' (obj + 8) = m (obj + 8)" using ge by (intro same; simp)+
  note lay = same_layout[of m obj obj m', OF wf \<open>8 dvd obj\<close>]
  show wf': "object_wf known m' obj" "obj_size ops tm m' obj = obj_size ops tm m obj"
    by (rule lay(1,2); simp add: hdr same)+
  have "field_addrs offs m' obj = map (\<lambda>a. obj + (a - obj)) (field_addrs offs m obj)"
    by (rule lay(3); simp add: hdr same)
  then show fields: "field_addrs offs m' obj = field_addrs offs m obj"
    using field_addrs_wf(3)[OF wf] by (auto intro!: map_idI)
  have "m' a = m a" if "a \<in> set (field_addrs offs m obj)" for a
    using field_addrs_wf(3)[OF wf] that same[of a] by fastforce
  then show "obj_pointers ops tm m' obj = obj_pointers ops tm m obj"
    unfolding iterate_known(2)[OF wf'(1)] iterate_known(2)[OF wf] fields by (simp cong: map_cong)
  show "obj_kind m' obj = obj_kind m obj" "obj_marked t m' obj = obj_marked t m obj"
    by (simp_all add: hdr obj_kind_def obj_marked_def)
qed

text \<open>The header words of other objects are outside an object's words.\<close>

lemma not_header:
  assumes wf: "heap_wf ops tm known m objs" and obj: "obj \<in> objs"
    and i: "0 < i" "i < obj_size ops tm m obj"
  shows "obj + i \<notin> objs"
proof
  assume y: "obj + i \<in> objs"
  have "object_wf known m (obj + i)" using wf y by (simp add: heap_wf_def)
  then have "obj + i \<in> block (obj + i) (obj_size ops tm m (obj + i))" using obj_size_ge by fastforce
  moreover have "obj + i \<in> block obj (obj_size ops tm m obj)" using i by simp
  ultimately show False
    using wf obj y i unfolding heap_wf_def by (metis IntI empty_iff less_add_same_cancel1 nat_neq_iff)
qed

lemma variant_same:
  assumes wf: "heap_wf ops tm known m objs" and v: "marked_variant objs m m'" and obj: "obj \<in> objs"
  shows "object_wf known m' obj" "obj_size ops tm m' obj = obj_size ops tm m obj"
    "obj_pointers ops tm m' obj = obj_pointers ops tm m obj"
    "field_addrs offs m' obj = field_addrs offs m obj" "obj_kind m' obj = obj_kind m obj"
    "0 < i \<Longrightarrow> i < obj_size ops tm m obj \<Longrightarrow> m' (obj + i) = m (obj + i)"
proof -
  have o: "object_wf known m obj" "8 dvd obj"
    using wf obj by (auto simp: heap_wf_def object_wf_def)
  show same: "m' (obj + i) = m (obj + i)" if "0 < i" "i < obj_size ops tm m obj" for i
    using not_header[OF wf obj that] v by (simp add: marked_variant_def)
  have hdr: "bit (m' obj) 2 = bit (m obj) 2" "m' (obj + 8) = m (obj + 8)"
    using v obj same[of 8] obj_size_ge[OF o(1)] by (auto simp: marked_variant_def)
  note lay = same_layout[of m obj obj m', OF o hdr same]
  show wf': "object_wf known m' obj" "obj_size ops tm m' obj = obj_size ops tm m obj"
    using lay(1,2) by auto
  show "obj_kind m' obj = obj_kind m obj" using hdr by (simp add: obj_kind_def)
  show fields: "field_addrs offs m' obj = field_addrs offs m obj"
    using lay(3) field_addrs_wf(3)[OF o(1)] by (auto intro!: map_idI)
  have "m' a = m a" if "a \<in> set (field_addrs offs m obj)" for a
    using field_addrs_wf(3)[OF o(1)] that same[of "a - obj"] by fastforce
  then show "obj_pointers ops tm m' obj = obj_pointers ops tm m obj"
    unfolding iterate_known(2)[OF wf'(1)] iterate_known(2)[OF o(1)] fields by (simp cong: map_cong)
qed

end

end
