(* ===== verification/Flex_Page.thy ===== *)
theory Flex_Page
  imports Prelude
begin

text \<open>
  \<open>uwugc/src/mm/page.rs\<close>: a \<open>FlexPage\<close> is a run of base pages (2 MiB each) that hands out its
  bytes by bumping \<open>used_bytes\<close>. \<open>flex_page_wf\<close> is what the private fields keep true: no more is
  used than there is, and the run lies inside the address space. The lemmas show that an
  allocation is the block just above the used part and that it succeeds exactly when it fits.
\<close>

section \<open>Constants and kinds of pages\<close>

definition BASE_PAGE_SIZE :: nat where
  "BASE_PAGE_SIZE = 2 * 1024 * 1024"

definition BASE_PAGE_SHIFT :: nat where
  "BASE_PAGE_SHIFT = 21"

datatype flex_page_kind = Small | Medium | Huge nat

fun kind_nr_pages :: "flex_page_kind \<Rightarrow> nat" where
  "kind_nr_pages Small = 1"
| "kind_nr_pages Medium = 4"
| "kind_nr_pages (Huge base_count) = base_count"

fun max_object_size :: "flex_page_kind \<Rightarrow> nat" where
  "max_object_size Small = 256 * 1024"
| "max_object_size Medium = 1024 * 1024"
| "max_object_size (Huge _) = 2 ^ 64 - 1"

lemma BASE_PAGE_SIZE_pos [simp]: "0 < BASE_PAGE_SIZE"
  by (simp add: BASE_PAGE_SIZE_def)

lemma page_shift: "a div 2 ^ BASE_PAGE_SHIFT = a div BASE_PAGE_SIZE"
  by (simp add: BASE_PAGE_SIZE_def BASE_PAGE_SHIFT_def)

section \<open>Pages\<close>

record flex_page =
  fp_kind :: flex_page_kind
  fp_start :: nat
  fp_used_bytes :: nat

text \<open>\<open>NonNull::new(start).unwrap()\<close> panics on a null base address.\<close>

definition flex_page_new :: "flex_page_kind \<Rightarrow> nat \<Rightarrow> flex_page res" where
  "flex_page_new kind start =
     (if start = 0 then Inl Unwrap_None
      else Inr \<lparr>fp_kind = kind, fp_start = start, fp_used_bytes = 0\<rparr>)"

definition fp_size :: "flex_page \<Rightarrow> nat" where
  "fp_size p = kind_nr_pages (fp_kind p) * BASE_PAGE_SIZE"

definition fp_nr_pages :: "flex_page \<Rightarrow> nat" where
  "fp_nr_pages p = kind_nr_pages (fp_kind p)"

definition fp_used :: "flex_page \<Rightarrow> nat" where
  "fp_used p = fp_used_bytes p"

definition fp_free :: "flex_page \<Rightarrow> nat" where
  "fp_free p = fp_size p - fp_used p"

definition fp_alloc :: "flex_page \<Rightarrow> nat \<Rightarrow> flex_page \<times> nat option" where
  "fp_alloc p sz =
     (if sz \<le> fp_free p then
        (p\<lparr>fp_used_bytes := fp_used_bytes p + sz\<rparr>,
         Some (wrapping_byte_add (fp_start p) (fp_used_bytes p)))
      else (p, None))"

section \<open>Well-formed pages\<close>

definition flex_page_wf :: "flex_page \<Rightarrow> bool" where
  "flex_page_wf p \<longleftrightarrow>
     0 < fp_start p \<and> 0 < fp_nr_pages p \<and> fp_used p \<le> fp_size p \<and> fp_start p + fp_size p < 2 ^ 64"

definition fp_span :: "flex_page \<Rightarrow> nat set" where
  "fp_span p = block (fp_start p) (fp_size p)"

definition fp_used_block :: "flex_page \<Rightarrow> nat set" where
  "fp_used_block p = block (fp_start p) (fp_used p)"

lemma fp_size_nr_pages: "fp_size p = fp_nr_pages p * BASE_PAGE_SIZE"
  by (simp add: fp_size_def fp_nr_pages_def)

lemma fp_used_subset_span: "flex_page_wf p \<Longrightarrow> fp_used_block p \<subseteq> fp_span p"
  by (auto simp: flex_page_wf_def fp_used_block_def fp_span_def)

lemma fp_sub_never_underflows: "flex_page_wf p \<Longrightarrow> usub (fp_size p) (fp_used p) = Inr (fp_free p)"
  by (simp add: flex_page_wf_def fp_free_def)

lemma fp_alloc_some:
  assumes "flex_page_wf p" and "fp_alloc p sz = (p', Some a)"
  shows "a = fp_start p + fp_used p"
    and "p' = p\<lparr>fp_used_bytes := fp_used p + sz\<rparr>"
    and "sz \<le> fp_free p"
    and "flex_page_wf p'"
    and "fp_used_block p' = fp_used_block p \<union> block a sz"
    and "fp_used_block p \<inter> block a sz = {}"
    and "fp_span p' = fp_span p"
    and "block a sz \<subseteq> fp_span p"
  using assms
  by (auto simp: fp_alloc_def flex_page_wf_def fp_used_def fp_free_def fp_size_def fp_nr_pages_def
      fp_used_block_def fp_span_def wrapping_byte_add_def split: if_splits)

lemma fp_alloc_fits:
  "flex_page_wf p \<Longrightarrow> sz \<le> fp_free p \<Longrightarrow>
   fp_alloc p sz = (p\<lparr>fp_used_bytes := fp_used p + sz\<rparr>, Some (fp_start p + fp_used p))"
  by (simp add: fp_alloc_def flex_page_wf_def fp_used_def fp_free_def)

lemma fp_alloc_none_iff: "snd (fp_alloc p sz) = None \<longleftrightarrow> fp_free p < sz"
  by (auto simp: fp_alloc_def)

end
