(* ===== verification/Allocator_Interface.thy ===== *)
theory Allocator_Interface
  imports Prelude
begin

text \<open>
  What the callers of an allocator rely on, as a locale: a state with an invariant, the set of
  addresses handed out so far, and an operation that either hands out a fresh, aligned block or
  reports that it is full. \<open>PageTable::alloc\<close> and \<open>Context::alloc_from_page_table\<close> of
  \<open>uwugc/src/mm\<close> provide it; the marker, which allocates the new place of every live object, is
  the client. The client's facts about sequences of allocations are proved once, inside.
\<close>

fun alloc_seq :: "('s \<Rightarrow> nat \<Rightarrow> ('s \<times> (nat \<times> nat) option) res) \<Rightarrow> 's \<Rightarrow> nat list
    \<Rightarrow> ('s \<times> (nat \<times> nat) list) res" where
  "alloc_seq alloc s [] = Inr (s, [])"
| "alloc_seq alloc s (n # ns) =
     bind_res (alloc s n) (\<lambda>(s, r).
     bind_res (unwrap r) (\<lambda>(a, _).
     bind_res (alloc_seq alloc s ns) (\<lambda>(s, bs). Inr (s, (a, n) # bs))))"

definition blocks :: "(nat \<times> nat) list \<Rightarrow> nat set" where
  "blocks bs = (\<Union>(a, n) \<in> set bs. block a n)"

fun disjoint_blocks :: "(nat \<times> nat) list \<Rightarrow> bool" where
  "disjoint_blocks [] = True"
| "disjoint_blocks ((a, n) # bs) = (block a n \<inter> blocks bs = {} \<and> disjoint_blocks bs)"

lemma blocks_simps [simp]:
  "blocks [] = {}" "blocks ((a, n) # bs) = block a n \<union> blocks bs"
  by (auto simp: blocks_def)

lemma blocks_append [simp]: "blocks (xs @ ys) = blocks xs \<union> blocks ys"
  by (induction xs) auto

lemma disjoint_blocks_snoc:
  "disjoint_blocks (bs @ [(a, n)]) \<longleftrightarrow> disjoint_blocks bs \<and> blocks bs \<inter> block a n = {}"
proof (induction bs)
  case (Cons b bs)
  obtain a' n' where "b = (a', n')" by (cases b)
  with Cons show ?case by (simp del: in_block) blast
qed simp

locale allocator =
  fixes alloc :: "'s \<Rightarrow> nat \<Rightarrow> ('s \<times> (nat \<times> nat) option) res"
    and inv :: "'s \<Rightarrow> bool"
    and used :: "'s \<Rightarrow> nat set"
    and space :: "'s \<Rightarrow> nat"          \<comment> \<open>free base pages\<close>
    and need :: "nat \<Rightarrow> nat"           \<comment> \<open>base pages an allocation may take\<close>
    and base :: "'s \<Rightarrow> nat"            \<comment> \<open>where the space starts\<close>
    and home :: "'s \<Rightarrow> nat \<Rightarrow> nat \<Rightarrow> bool"   \<comment> \<open>the block lies inside one page\<close>
  assumes alloc_cases:
    "inv s \<Longrightarrow> 8 dvd n \<Longrightarrow>
       (\<exists>s'. alloc s n = Inr (s', None) \<and> inv s' \<and> used s' = used s \<and> base s' = base s \<and>
          space s < need n) \<or>
       (\<exists>s' a i. alloc s n = Inr (s', Some (a, i)) \<and> inv s' \<and>
          used s' = used s \<union> block a n \<and> used s \<inter> block a n = {} \<and> 8 dvd a \<and> a \<noteq> 0 \<and>
          base s' = base s \<and> space s \<le> space s' + need n \<and>
          home s' a n \<and> (\<forall>b k. home s b k \<longrightarrow> home s' b k))"
    and used_above: "inv s \<Longrightarrow> used s \<subseteq> {base s..}"
begin

lemma alloc_no_panic: "inv s \<Longrightarrow> 8 dvd n \<Longrightarrow> ok (alloc s n)"
  using alloc_cases[of s n] by auto

lemma alloc_some:
  assumes "inv s" "8 dvd n" "alloc s n = Inr (s', Some (a, i))"
  shows "inv s'" "used s' = used s \<union> block a n" "used s \<inter> block a n = {}" "8 dvd a" "a \<noteq> 0"
    "space s \<le> space s' + need n" "base s' = base s" "home s' a n"
    "home s b k \<Longrightarrow> home s' b k"
  using alloc_cases[OF assms(1,2)] assms(3) by auto

lemma alloc_none:
  assumes "inv s" "8 dvd n" "alloc s n = Inr (s', None)"
  shows "inv s'" "used s' = used s" "space s < need n"
  using alloc_cases[OF assms(1,2)] assms(3) by auto

lemma alloc_fits:
  assumes "inv s" "8 dvd n" "need n \<le> space s"
  obtains s' a i where "alloc s n = Inr (s', Some (a, i))"
  using alloc_cases[OF assms(1,2)] assms(3) by auto

lemma alloc_seq_sound:
  assumes "inv s" "\<forall>n \<in> set ns. 8 dvd n" "alloc_seq alloc s ns = Inr (s', bs)"
  shows "inv s' \<and> map snd bs = ns \<and> used s' = used s \<union> blocks bs \<and>
    used s \<inter> blocks bs = {} \<and> disjoint_blocks bs \<and> (\<forall>(a, _) \<in> set bs. 8 dvd a \<and> a \<noteq> 0)"
  using assms
proof (induction ns arbitrary: s s' bs)
  case Nil
  then show ?case by simp
next
  case (Cons n ns)
  then obtain s1 a i bs1 where a: "alloc s n = Inr (s1, Some (a, i))"
    and bs1: "alloc_seq alloc s1 ns = Inr (s', bs1)" and bs: "bs = (a, n) # bs1"
    by (auto simp: res_eq_simps)
  have "8 dvd n" using Cons.prems by simp
  note one = alloc_some[OF Cons.prems(1) this a]
  from Cons.IH[OF one(1) _ bs1] Cons.prems(2) one bs show ?case by auto
qed

lemma alloc_seq_total:
  assumes "inv s" "\<forall>n \<in> set ns. 8 dvd n" "sum_list (map need ns) \<le> space s"
  shows "\<exists>s' bs. alloc_seq alloc s ns = Inr (s', bs)"
  using assms
proof (induction ns arbitrary: s)
  case Nil
  then show ?case by simp
next
  case (Cons n ns)
  then have "8 dvd n" "need n \<le> space s" by auto
  with Cons.prems(1) obtain s1 a i where a: "alloc s n = Inr (s1, Some (a, i))"
    using alloc_fits by blast
  note one = alloc_some[OF Cons.prems(1) \<open>8 dvd n\<close> a]
  have "sum_list (map need ns) \<le> space s1" using one(6) Cons.prems(3) by simp
  with Cons.IH[OF one(1)] Cons.prems(2) a show ?case by fastforce
qed

end

end
