(* ===== verification/Page_Table.thy ===== *)
theory Page_Table
  imports Flex_Page Allocator_Interface
begin

text \<open>
  \<open>uwugc/src/mm/page_table.rs\<close>: the table of \<open>FlexPage\<close>s of one heap space. \<open>slots\<close> is the vector
  \<open>page_table\<close>, \<open>current_base_page\<close> the first base page nobody owns. Each operation of the source
  runs under the slot mutexes or as one atomic update of \<open>current_base_page\<close> and is one function
  from table to table here. \<open>page_table_wf\<close> is the invariant that every operation keeps: the pages
  tile \<open>[0, current_base_page)\<close> without gaps or overlaps. \<open>used_addrs\<close>, the set of addresses handed
  out, is the abstraction of the table as an allocator.
\<close>

section \<open>State and operations\<close>

record page_table =
  base_addr :: nat
  current_base_page :: nat
  pt_nr_pages :: nat
  slots :: "flex_page option list"
  medium_buffer_page :: "nat option"

definition page_table_new :: "nat \<Rightarrow> nat \<Rightarrow> page_table" where
  "page_table_new base n =
     \<lparr>base_addr = base, current_base_page = 0, pt_nr_pages = n,
      slots = replicate n None, medium_buffer_page = None\<rparr>"

definition page_table_clone :: "page_table \<Rightarrow> page_table" where
  "page_table_clone pt =
     \<lparr>base_addr = base_addr pt, current_base_page = current_base_page pt,
      pt_nr_pages = pt_nr_pages pt, slots = map (\<lambda>x. x) (slots pt),
      medium_buffer_page = medium_buffer_page pt\<rparr>"

definition get_used_end_page :: "page_table \<Rightarrow> nat" where
  "get_used_end_page pt = current_base_page pt"

definition get_top_addr :: "page_table \<Rightarrow> nat" where
  "get_top_addr pt = base_addr pt + current_base_page pt * BASE_PAGE_SIZE"

definition get_page :: "page_table \<Rightarrow> nat \<Rightarrow> flex_page option res" where
  "get_page pt idx = index (slots pt) idx"

definition get_base_addr :: "page_table \<Rightarrow> nat" where
  "get_base_addr pt = base_addr pt"

definition page_table_clear :: "page_table \<Rightarrow> page_table" where
  "page_table_clear pt =
     pt\<lparr>current_base_page := 0, slots := map (\<lambda>_. None) (slots pt), medium_buffer_page := None\<rparr>"

text \<open>The backward search of \<open>resolve_to_page\<close> (its \<open>loop\<close>), from slot \<open>current\<close> down to 0.\<close>

function resolve_back :: "page_table \<Rightarrow> nat \<Rightarrow> nat \<Rightarrow> nat option res" where
  "resolve_back pt addr current =
     bind_res (index (slots pt) current) (\<lambda>slot.
       case slot of
         Some page \<Rightarrow>
           (let start = fp_start page; stop = wrapping_byte_add start (fp_size page) in
            if start \<le> addr \<and> addr < stop then Inr (Some current) else Inr None)
       | None \<Rightarrow>
           (if current = 0 then Inr None else resolve_back pt addr (current - 1)))"
  by pat_completeness auto
termination
  by (relation "measure (\<lambda>(pt, addr, current). current)") auto

definition resolve_to_page :: "page_table \<Rightarrow> nat \<Rightarrow> nat option res" where
  "resolve_to_page pt addr =
     (if addr < base_addr pt then Inr None
      else
        let page_id = (addr - base_addr pt) div 2 ^ BASE_PAGE_SHIFT in
        if get_used_end_page pt \<le> page_id then Inr None
        else resolve_back pt addr page_id)"

text \<open>
  \<open>donate_page\<close> with the precedence the source has: \<open>start / BASE_PAGE_SIZE - base_addr\<close>.
  \<open>checks\<close> says whether overflow checks are compiled in.
\<close>

definition donate_page :: "bool \<Rightarrow> page_table \<Rightarrow> flex_page \<Rightarrow> page_table res" where
  "donate_page checks pt page =
     bind_res (usub_in checks (fp_start page div BASE_PAGE_SIZE) (base_addr pt)) (\<lambda>page_id.
       if pt_nr_pages pt < page_id then Inl Explicit_Panic
       else if current_base_page pt \<le> page_id then
         (let pt = pt\<lparr>current_base_page := page_id + fp_nr_pages page\<rparr> in
          bind_res (index (slots pt) page_id) (\<lambda>slot.
          assert_then (slot = None)
            (Inr (pt\<lparr>slots := (slots pt)[page_id := Some page]\<rparr>))))
       else Inl Explicit_Panic)"

text \<open>\<open>alloc_page\<close>: bump \<open>current_base_page\<close> by an atomic update that fails when it passes the end.\<close>

definition alloc_page :: "page_table \<Rightarrow> flex_page_kind \<Rightarrow> (page_table \<times> nat option) res" where
  "alloc_page pt kind =
     (let page_index = current_base_page pt; new = page_index + kind_nr_pages kind in
      if pt_nr_pages pt < new then Inr (pt, None)
      else
        let pt = pt\<lparr>current_base_page := new\<rparr> in
        bind_res (index (slots pt) page_index) (\<lambda>_.
        bind_res (flex_page_new kind (wrapping_byte_add (base_addr pt) (page_index * BASE_PAGE_SIZE)))
          (\<lambda>page. Inr (pt\<lparr>slots := (slots pt)[page_index := Some page]\<rparr>, Some page_index))))"

text \<open>\<open>slots[i].lock().as_mut().unwrap()\<close>, and \<open>.alloc(size).unwrap()\<close> on it.\<close>

definition page_at :: "page_table \<Rightarrow> nat \<Rightarrow> flex_page res" where
  "page_at pt i = bind_res (index (slots pt) i) unwrap"

definition alloc_in_page :: "page_table \<Rightarrow> nat \<Rightarrow> nat \<Rightarrow> (page_table \<times> (nat \<times> nat) option) res" where
  "alloc_in_page pt i sz =
     bind_res (page_at pt i) (\<lambda>page.
       let (page', r) = fp_alloc page sz in
       bind_res (unwrap r) (\<lambda>addr.
         Inr (pt\<lparr>slots := (slots pt)[i := Some page']\<rparr>, Some (addr, i))))"

text \<open>\<open>*buf_id = Some(self.alloc_page(FlexPageKind::Medium)?)\<close>.\<close>

definition new_medium_buffer :: "page_table \<Rightarrow> (page_table \<times> nat option) res" where
  "new_medium_buffer pt =
     bind_res (alloc_page pt Medium) (\<lambda>(pt, r).
       case r of
         None \<Rightarrow> Inr (pt, None)
       | Some b \<Rightarrow> Inr (pt\<lparr>medium_buffer_page := Some b\<rparr>, Some b))"

definition pt_alloc :: "page_table \<Rightarrow> nat \<Rightarrow> (page_table \<times> (nat \<times> nat) option) res" where
  "pt_alloc pt sz =
     assert_then (8 dvd sz)
       (if max_object_size Medium \<le> sz then
          bind_res (alloc_page pt (Huge (div_ceil sz BASE_PAGE_SIZE))) (\<lambda>(pt, r).
            case r of
              None \<Rightarrow> Inr (pt, None)
            | Some page_id \<Rightarrow> alloc_in_page pt page_id sz)
        else
          bind_res
            (case medium_buffer_page pt of
               None \<Rightarrow> new_medium_buffer pt
             | Some b \<Rightarrow> Inr (pt, Some b))
            (\<lambda>(pt, buf_id).
              case buf_id of
                None \<Rightarrow> Inr (pt, None)
              | Some b \<Rightarrow>
                  bind_res (page_at pt b) (\<lambda>page.
                    if fp_free page < sz then
                      bind_res (new_medium_buffer pt) (\<lambda>(pt, r).
                        case r of
                          None \<Rightarrow> Inr (pt, None)
                        | Some b' \<Rightarrow>
                            bind_res (page_at pt b') (\<lambda>page.
                              assert_then (sz \<le> fp_free page) (alloc_in_page pt b' sz)))
                    else assert_then (sz \<le> fp_free page) (alloc_in_page pt b sz))))"

declare resolve_back.simps [simp del]

section \<open>The invariant\<close>

definition page_slot :: "page_table \<Rightarrow> nat \<Rightarrow> flex_page \<Rightarrow> bool" where
  "page_slot pt i p \<longleftrightarrow> i < length (slots pt) \<and> slots pt ! i = Some p"

definition slot_ok :: "page_table \<Rightarrow> nat \<Rightarrow> flex_page \<Rightarrow> bool" where
  "slot_ok pt i p \<longleftrightarrow>
     flex_page_wf p \<and> 8 dvd fp_used p \<and>
     fp_start p = base_addr pt + i * BASE_PAGE_SIZE \<and>
     i + fp_nr_pages p \<le> current_base_page pt \<and>
     (\<forall>j. i < j \<and> j < i + fp_nr_pages p \<longrightarrow> slots pt ! j = None)"

definition space_ok :: "page_table \<Rightarrow> bool" where
  "space_ok pt \<longleftrightarrow>
     length (slots pt) = pt_nr_pages pt \<and> 0 < base_addr pt \<and> 8 dvd base_addr pt \<and>
     base_addr pt + pt_nr_pages pt * BASE_PAGE_SIZE < 2 ^ 64 \<and>
     current_base_page pt \<le> pt_nr_pages pt"

definition covered :: "page_table \<Rightarrow> bool" where
  "covered pt \<longleftrightarrow>
     (\<forall>k < current_base_page pt. \<exists>i p. page_slot pt i p \<and> i \<le> k \<and> k < i + fp_nr_pages p)"

definition medium_ok :: "page_table \<Rightarrow> bool" where
  "medium_ok pt \<longleftrightarrow>
     (\<forall>b. medium_buffer_page pt = Some b \<longrightarrow> (\<exists>p. page_slot pt b p \<and> fp_kind p = Medium))"

definition page_table_wf :: "page_table \<Rightarrow> bool" where
  "page_table_wf pt \<longleftrightarrow>
     space_ok pt \<and> (\<forall>i p. page_slot pt i p \<longrightarrow> slot_ok pt i p) \<and> covered pt \<and> medium_ok pt"

definition used_addrs :: "page_table \<Rightarrow> nat set" where
  "used_addrs pt = {a. \<exists>i p. page_slot pt i p \<and> a \<in> fp_used_block p}"

text \<open>
  The bytes a table can still hand out: its free base pages and the rest of the medium buffer page.
  An allocation of \<open>n\<close> bytes costs at most \<open>2 * n\<close> of them, since the rest of a buffer page that is
  given up is smaller than \<open>n\<close>.
\<close>

definition page_free :: "page_table \<Rightarrow> nat \<Rightarrow> nat" where
  "page_free pt i =
     (if i < length (slots pt) then case slots pt ! i of None \<Rightarrow> 0 | Some p \<Rightarrow> fp_free p else 0)"

definition buffer_free :: "page_table \<Rightarrow> nat option \<Rightarrow> nat" where
  "buffer_free pt r = (case r of None \<Rightarrow> 0 | Some i \<Rightarrow> page_free pt i)"

definition free_pages :: "page_table \<Rightarrow> nat" where
  "free_pages pt = pt_nr_pages pt - current_base_page pt"

definition byte_room :: "page_table \<Rightarrow> nat" where
  "byte_room pt = free_pages pt * BASE_PAGE_SIZE + buffer_free pt (medium_buffer_page pt)"

definition alloc_need :: "nat \<Rightarrow> nat" where
  "alloc_need sz = 2 * sz + 1"

text \<open>Pages of the small kind stay as they are.\<close>

definition small_kept :: "page_table \<Rightarrow> page_table \<Rightarrow> bool" where
  "small_kept pt pt' \<longleftrightarrow> (\<forall>i p. page_slot pt i p \<and> fp_kind p = Small \<longrightarrow> page_slot pt' i p)"

lemma page_table_wfD:
  assumes "page_table_wf pt"
  shows "space_ok pt" "covered pt" "medium_ok pt" "page_slot pt i p \<Longrightarrow> slot_ok pt i p"
  using assms by (auto simp: page_table_wf_def)

lemma slot_okD:
  assumes "slot_ok pt i p"
  shows "flex_page_wf p" "8 dvd fp_used p" "fp_start p = base_addr pt + i * BASE_PAGE_SIZE"
    "i + fp_nr_pages p \<le> current_base_page pt"
    "i < j \<Longrightarrow> j < i + fp_nr_pages p \<Longrightarrow> slots pt ! j = None"
  using assms by (auto simp: slot_ok_def)

lemma page_slot_unique: "page_slot pt i p \<Longrightarrow> page_slot pt i q \<Longrightarrow> p = q"
  by (simp add: page_slot_def)

lemma buffer_free_slot [simp]:
  "buffer_free pt None = 0" "page_slot pt i p \<Longrightarrow> buffer_free pt (Some i) = fp_free p"
  by (simp_all add: buffer_free_def page_free_def page_slot_def)

lemma page_at_slot: "page_at pt i = Inr p \<longleftrightarrow> page_slot pt i p"
  by (auto simp: page_at_def page_slot_def res_eq_simps index_def)

text \<open>Two slots own disjoint spans: neither lies inside the other's run of base pages.\<close>

lemma slots_apart:
  assumes "page_table_wf pt" "page_slot pt i p" "page_slot pt j q" "i < j"
  shows "i + fp_nr_pages p \<le> j"
  using assms page_table_wfD(4)[of pt i p] slot_okD(5)[of pt i p j]
  by (force simp: page_slot_def)

lemma slot_span:
  assumes "slot_ok pt i p"
  shows "fp_span p = block (base_addr pt + i * BASE_PAGE_SIZE) (fp_nr_pages p * BASE_PAGE_SIZE)"
  using slot_okD(3)[OF assms] by (simp add: fp_span_def fp_size_nr_pages)

lemma spans_disjoint_less:
  assumes "page_table_wf pt" "page_slot pt i p" "page_slot pt j q" "i < j"
  shows "fp_span p \<inter> fp_span q = {}"
proof -
  have "(i + fp_nr_pages p) * BASE_PAGE_SIZE \<le> j * BASE_PAGE_SIZE"
    using slots_apart[OF assms] by (rule mult_le_mono1)
  moreover have "slot_ok pt i p" "slot_ok pt j q"
    using assms page_table_wfD(4) by blast+
  ultimately show ?thesis
    by (simp add: slot_span block_disjoint add_mult_distrib)
qed

lemma spans_disjoint:
  assumes "page_table_wf pt" "page_slot pt i p" "page_slot pt j q" "i \<noteq> j"
  shows "fp_span p \<inter> fp_span q = {}"
  using assms spans_disjoint_less[of pt i p j q] spans_disjoint_less[of pt j q i p]
  by (metis Int_commute linorder_neqE_nat)

lemma slot_top:
  assumes "page_table_wf pt" "page_slot pt i p"
  shows "fp_span p \<subseteq> {base_addr pt ..< get_top_addr pt}"
proof -
  have ok: "slot_ok pt i p"
    using assms page_table_wfD(4) by blast
  then have "(i + fp_nr_pages p) * BASE_PAGE_SIZE \<le> current_base_page pt * BASE_PAGE_SIZE"
    using slot_okD(4) by (intro mult_le_mono1) blast
  with ok show ?thesis
    by (auto simp: slot_span get_top_addr_def add_mult_distrib)
qed

lemma used_addrs_in_space:
  assumes "page_table_wf pt"
  shows "used_addrs pt \<subseteq> {base_addr pt ..< get_top_addr pt}"
  using assms slot_top fp_used_subset_span page_table_wfD(4) slot_okD(1)
  by (fastforce simp: used_addrs_def)

lemma span_unique:
  assumes "page_table_wf pt" "page_slot pt i p" "page_slot pt j q" "a \<in> fp_span p" "a \<in> fp_span q"
  shows "i = j \<and> p = q"
proof (cases "i = j")
  case True
  with assms(2,3) show ?thesis by (auto dest: page_slot_unique)
next
  case False
  with spans_disjoint[OF assms(1-3)] assms(4,5) show ?thesis by blast
qed

lemma used_in_page:
  assumes wf: "page_table_wf pt" and p: "page_slot pt i p" and a: "a \<in> used_addrs pt" "a \<in> fp_span p"
  shows "a \<in> fp_used_block p" "fp_start p \<in> used_addrs pt"
proof -
  obtain j q where q: "page_slot pt j q" "a \<in> fp_used_block q" using a(1) by (auto simp: used_addrs_def)
  have "a \<in> fp_span q" using q fp_used_subset_span slot_okD(1)[OF page_table_wfD(4)[OF wf q(1)]] by blast
  with span_unique[OF wf p q(1) a(2)] q(2) show "a \<in> fp_used_block p" by simp
  then have "fp_start p \<in> fp_used_block p" by (simp add: fp_used_block_def)
  with p show "fp_start p \<in> used_addrs pt" by (auto simp: used_addrs_def)
qed

section \<open>Creating and clearing\<close>

lemma page_table_new_wf:
  assumes "0 < base" "8 dvd base" "base + n * BASE_PAGE_SIZE < 2 ^ 64"
  shows "page_table_wf (page_table_new base n)" "used_addrs (page_table_new base n) = {}"
  using assms
  by (auto simp: page_table_wf_def space_ok_def covered_def medium_ok_def page_slot_def
      page_table_new_def used_addrs_def)

lemma page_table_clone_eq [simp]: "page_table_clone pt = pt"
  by (cases pt) (simp add: page_table_clone_def)

lemma page_table_clear_new:
  assumes "length (slots pt) = pt_nr_pages pt"
  shows "page_table_clear pt = page_table_new (base_addr pt) (pt_nr_pages pt)"
  using assms by (simp add: page_table_clear_def page_table_new_def map_replicate_const)

lemma page_table_clear_wf:
  assumes "space_ok pt"
  shows "page_table_wf (page_table_clear pt)" "used_addrs (page_table_clear pt) = {}"
  using assms page_table_new_wf[of "base_addr pt" "pt_nr_pages pt"]
  by (simp_all add: page_table_clear_new space_ok_def)

section \<open>Allocating a page\<close>

lemma base_in_space:
  assumes "space_ok pt" "i \<le> pt_nr_pages pt"
  shows "base_addr pt + i * BASE_PAGE_SIZE < 2 ^ 64"
proof -
  have "i * BASE_PAGE_SIZE \<le> pt_nr_pages pt * BASE_PAGE_SIZE"
    using assms(2) by (rule mult_le_mono1)
  moreover have "base_addr pt + pt_nr_pages pt * BASE_PAGE_SIZE < 2 ^ 64"
    using assms(1) by (simp add: space_ok_def)
  ultimately show ?thesis by linarith
qed

lemma alloc_page_none:
  "pt_nr_pages pt < current_base_page pt + kind_nr_pages kind \<Longrightarrow> alloc_page pt kind = Inr (pt, None)"
  by (simp add: alloc_page_def Let_def)

text \<open>The table after a successful \<open>alloc_page\<close>: one fresh page at the old end.\<close>

definition push_page :: "page_table \<Rightarrow> flex_page_kind \<Rightarrow> page_table" where
  "push_page pt kind =
     pt\<lparr>current_base_page := current_base_page pt + kind_nr_pages kind,
        slots := (slots pt)[current_base_page pt :=
          Some \<lparr>fp_kind = kind, fp_start = base_addr pt + current_base_page pt * BASE_PAGE_SIZE,
                fp_used_bytes = 0\<rparr>]\<rparr>"

lemma push_page_frame [simp]:
  "base_addr (push_page pt kind) = base_addr pt"
  "current_base_page (push_page pt kind) = current_base_page pt + kind_nr_pages kind"
  "pt_nr_pages (push_page pt kind) = pt_nr_pages pt"
  "medium_buffer_page (push_page pt kind) = medium_buffer_page pt"
  "length (slots (push_page pt kind)) = length (slots pt)"
  by (simp_all add: push_page_def)

lemma alloc_page_some:
  assumes "space_ok pt" "0 < kind_nr_pages kind"
    and "current_base_page pt + kind_nr_pages kind \<le> pt_nr_pages pt"
  shows "alloc_page pt kind = Inr (push_page pt kind, Some (current_base_page pt))"
  using assms base_in_space[of pt "current_base_page pt"]
  by (simp add: alloc_page_def Let_def space_ok_def flex_page_new_def push_page_def)

lemma push_page_slot:
  assumes "page_table_wf pt" "current_base_page pt < pt_nr_pages pt"
  shows "page_slot (push_page pt kind) i p \<longleftrightarrow>
    page_slot pt i p \<or>
    (i = current_base_page pt \<and>
     p = \<lparr>fp_kind = kind, fp_start = base_addr pt + current_base_page pt * BASE_PAGE_SIZE,
          fp_used_bytes = 0\<rparr>)"
proof -
  have free: "\<not> page_slot pt (current_base_page pt) q" for q
    using page_table_wfD(4)[OF assms(1)] slot_okD(1,4)
    by (force simp: flex_page_wf_def)
  have "current_base_page pt < length (slots pt)"
    using assms page_table_wfD(1) by (simp add: space_ok_def)
  with free show ?thesis
    by (cases "i = current_base_page pt") (auto simp: page_slot_def push_page_def)
qed

lemma push_page_slot_ok:
  assumes wf: "page_table_wf pt" and k: "0 < kind_nr_pages kind"
    and room: "current_base_page pt + kind_nr_pages kind \<le> pt_nr_pages pt"
    and slot: "page_slot (push_page pt kind) i p"
  shows "slot_ok (push_page pt kind) i p"
proof -
  let ?c = "current_base_page pt"
  have sp: "space_ok pt" and len: "length (slots pt) = pt_nr_pages pt"
    using page_table_wfD(1)[OF wf] by (simp_all add: space_ok_def)
  have none: "slots pt ! j = None" if "?c \<le> j" "j < pt_nr_pages pt" for j
  proof (rule ccontr)
    assume "slots pt ! j \<noteq> None"
    with that len obtain q where "page_slot pt j q"
      by (auto simp: page_slot_def)
    with wf have "slot_ok pt j q" by (rule page_table_wfD(4))
    with that show False
      using slot_okD(1,4) by (force simp: flex_page_wf_def)
  qed
  from slot wf k room consider "page_slot pt i p" | "i = ?c"
    "p = \<lparr>fp_kind = kind, fp_start = base_addr pt + ?c * BASE_PAGE_SIZE, fp_used_bytes = 0\<rparr>"
    by (auto simp: push_page_slot)
  then show ?thesis
  proof cases
    case 1
    with wf have "slot_ok pt i p" by (rule page_table_wfD(4))
    then show ?thesis
      using none by (auto simp: slot_ok_def push_page_def nth_list_update)
  next
    case 2
    have "base_addr pt + (?c + kind_nr_pages kind) * BASE_PAGE_SIZE < 2 ^ 64"
      using sp room by (rule base_in_space)
    moreover have "0 < base_addr pt" using sp by (simp add: space_ok_def)
    ultimately show ?thesis
      using 2 k room none
      by (auto simp: slot_ok_def push_page_def flex_page_wf_def fp_used_def fp_size_def
          fp_nr_pages_def add_mult_distrib)
  qed
qed

lemma push_page_wf:
  assumes wf: "page_table_wf pt" and k: "0 < kind_nr_pages kind"
    and room: "current_base_page pt + kind_nr_pages kind \<le> pt_nr_pages pt"
  shows "page_table_wf (push_page pt kind)"
proof -
  have room': "current_base_page pt < pt_nr_pages pt" using k room by simp
  note slot = push_page_slot[OF wf room']
  have "space_ok (push_page pt kind)"
    using page_table_wfD(1)[OF wf] room by (auto simp: space_ok_def push_page_def)
  moreover have "covered (push_page pt kind)"
    unfolding covered_def
  proof (intro allI impI)
    fix n assume n: "n < current_base_page (push_page pt kind)"
    show "\<exists>i p. page_slot (push_page pt kind) i p \<and> i \<le> n \<and> n < i + fp_nr_pages p"
    proof (cases "n < current_base_page pt")
      case True
      then obtain i p where "page_slot pt i p" "i \<le> n" "n < i + fp_nr_pages p"
        using page_table_wfD(2)[OF wf] by (auto simp: covered_def)
      then show ?thesis
        by (intro exI[of _ i] exI[of _ p]) (simp add: slot)
    next
      case False
      with n show ?thesis
        by (intro exI[of _ "current_base_page pt"]
            exI[of _ "\<lparr>fp_kind = kind, fp_start = base_addr pt + current_base_page pt * BASE_PAGE_SIZE,
              fp_used_bytes = 0\<rparr>"])
          (simp add: slot, simp add: push_page_def fp_nr_pages_def)
    qed
  qed
  moreover have "medium_ok (push_page pt kind)"
    using page_table_wfD(3)[OF wf] unfolding medium_ok_def slot push_page_frame by blast
  ultimately show ?thesis
    using push_page_slot_ok[OF assms] by (simp add: page_table_wf_def)
qed

lemma push_page_used:
  assumes "page_table_wf pt" "current_base_page pt < pt_nr_pages pt"
  shows "used_addrs (push_page pt kind) = used_addrs pt"
  by (auto simp: used_addrs_def push_page_slot[OF assms] fp_used_block_def fp_used_def)

text \<open>What \<open>alloc_page\<close> does in a well-formed table, on both branches.\<close>

lemma alloc_page_spec:
  assumes wf: "page_table_wf pt" and k: "0 < kind_nr_pages kind"
  obtains
    (full) "alloc_page pt kind = Inr (pt, None)"
      "pt_nr_pages pt < current_base_page pt + kind_nr_pages kind"
  | (fresh) "alloc_page pt kind = Inr (push_page pt kind, Some (current_base_page pt))"
      "current_base_page pt + kind_nr_pages kind \<le> pt_nr_pages pt"
      "page_table_wf (push_page pt kind)" "used_addrs (push_page pt kind) = used_addrs pt"
proof (cases "current_base_page pt + kind_nr_pages kind \<le> pt_nr_pages pt")
  case True
  then show thesis
    using wf k page_table_wfD(1)[OF wf]
    by (intro fresh alloc_page_some push_page_wf push_page_used) auto
next
  case False
  then show thesis
    by (intro full alloc_page_none) auto
qed

section \<open>Allocating inside a page\<close>

definition put_page :: "page_table \<Rightarrow> nat \<Rightarrow> flex_page \<Rightarrow> page_table" where
  "put_page pt i p = pt\<lparr>slots := (slots pt)[i := Some p]\<rparr>"

lemma put_page_frame [simp]:
  "base_addr (put_page pt i p) = base_addr pt"
  "current_base_page (put_page pt i p) = current_base_page pt"
  "pt_nr_pages (put_page pt i p) = pt_nr_pages pt"
  "medium_buffer_page (put_page pt i p) = medium_buffer_page pt"
  "length (slots (put_page pt i p)) = length (slots pt)"
  by (simp_all add: put_page_def)

lemma put_page_slot:
  "page_slot pt i p0 \<Longrightarrow>
   page_slot (put_page pt i p) j q \<longleftrightarrow> (if j = i then q = p else page_slot pt j q)"
  by (auto simp: page_slot_def put_page_def)

text \<open>Bumping a page of the table: kind and span stay, only the used part grows.\<close>

lemma put_page_wf:
  assumes wf: "page_table_wf pt" and slot: "page_slot pt i p"
    and p': "p' = p\<lparr>fp_used_bytes := fp_used p + n\<rparr>" "flex_page_wf p'" and n: "8 dvd n"
  shows "page_table_wf (put_page pt i p')"
proof -
  have same: "fp_nr_pages p' = fp_nr_pages p" "fp_kind p' = fp_kind p" "fp_start p' = fp_start p"
    using p' by (simp_all add: fp_nr_pages_def)
  have pos: "i + fp_nr_pages p \<le> current_base_page pt" "8 dvd fp_used p'"
    using slot_okD(2,4)[OF page_table_wfD(4)[OF wf slot]] n p' by (auto simp: fp_used_def)
  have ne: "slots pt ! k = None \<Longrightarrow> k \<noteq> i" for k
    using slot by (auto simp: page_slot_def)
  have "slot_ok (put_page pt i p') j q" if "page_slot (put_page pt i p') j q" for j q
  proof (cases "j = i")
    case True
    with that slot have q: "q = p'" by (simp add: put_page_slot)
    have "slots (put_page pt i p') ! k = None" if "i < k" "k < i + fp_nr_pages p" for k
      using slot_okD(5)[OF page_table_wfD(4)[OF wf slot] that] that by (simp add: put_page_def)
    with True q pos p'(2) slot_okD(3)[OF page_table_wfD(4)[OF wf slot]] show ?thesis
      by (simp add: slot_ok_def same)
  next
    case False
    with that slot have "slot_ok pt j q"
      using page_table_wfD(4)[OF wf] by (auto simp: put_page_slot)
    moreover have "slots (put_page pt i p') ! k = None" if "slots pt ! k = None" for k
      using ne[OF that] that by (simp add: put_page_def)
    ultimately show ?thesis
      by (simp add: slot_ok_def)
  qed
  moreover have "covered (put_page pt i p')"
    unfolding covered_def
  proof (intro allI impI)
    fix k assume "k < current_base_page (put_page pt i p')"
    then obtain j q where "page_slot pt j q" "j \<le> k" "k < j + fp_nr_pages q"
      using page_table_wfD(2)[OF wf] by (auto simp: covered_def)
    then show "\<exists>j q. page_slot (put_page pt i p') j q \<and> j \<le> k \<and> k < j + fp_nr_pages q"
      using page_slot_unique[OF slot, of q] same(1)
      by (intro exI[of _ j] exI[of _ "if j = i then p' else q"]) (auto simp: put_page_slot[OF slot])
  qed
  moreover have "medium_ok (put_page pt i p')"
    unfolding medium_ok_def
  proof (intro allI impI)
    fix b assume "medium_buffer_page (put_page pt i p') = Some b"
    then obtain q where "page_slot pt b q" "fp_kind q = Medium"
      using page_table_wfD(3)[OF wf] by (auto simp: medium_ok_def)
    then show "\<exists>q. page_slot (put_page pt i p') b q \<and> fp_kind q = Medium"
      using page_slot_unique[OF slot, of q] same(2)
      by (intro exI[of _ "if b = i then p' else q"]) (auto simp: put_page_slot[OF slot])
  qed
  moreover have "space_ok (put_page pt i p')"
    using page_table_wfD(1)[OF wf] by (simp add: space_ok_def put_page_def)
  ultimately show ?thesis
    by (simp add: page_table_wf_def)
qed

lemma put_page_used:
  assumes "page_slot pt i p" "fp_used_block p' = fp_used_block p \<union> B"
  shows "used_addrs (put_page pt i p') = used_addrs pt \<union> B"
proof -
  have "a \<in> used_addrs (put_page pt i p') \<longleftrightarrow>
      (\<exists>j q. j \<noteq> i \<and> page_slot pt j q \<and> a \<in> fp_used_block q) \<or> a \<in> fp_used_block p'" for a
    by (auto simp: used_addrs_def put_page_slot[OF assms(1)])
  moreover have "a \<in> used_addrs pt \<longleftrightarrow>
      (\<exists>j q. j \<noteq> i \<and> page_slot pt j q \<and> a \<in> fp_used_block q) \<or> a \<in> fp_used_block p" for a
    using assms(1) by (auto simp: used_addrs_def dest: page_slot_unique)
  ultimately show ?thesis
    using assms(2) by blast
qed

text \<open>
  The two-state facts every allocation promises: the address space and the kinds of the pages that
  were there stay, and the block handed out is aligned, fresh and now used.
\<close>

definition pt_grows :: "page_table \<Rightarrow> page_table \<Rightarrow> bool" where
  "pt_grows pt pt' \<longleftrightarrow>
     base_addr pt' = base_addr pt \<and> pt_nr_pages pt' = pt_nr_pages pt \<and>
     current_base_page pt \<le> current_base_page pt' \<and>
     (\<forall>j q. page_slot pt j q \<longrightarrow> (\<exists>q'. page_slot pt' j q' \<and> fp_kind q' = fp_kind q))"

definition within_page :: "page_table \<Rightarrow> nat \<Rightarrow> nat \<Rightarrow> bool" where
  "within_page pt a sz \<longleftrightarrow> (\<exists>i q. page_slot pt i q \<and> block a sz \<subseteq> fp_span q)"

definition fresh_block :: "page_table \<Rightarrow> nat \<Rightarrow> page_table \<Rightarrow> nat \<Rightarrow> bool" where
  "fresh_block pt sz pt' a \<longleftrightarrow>
     used_addrs pt' = used_addrs pt \<union> block a sz \<and> used_addrs pt \<inter> block a sz = {} \<and>
     8 dvd a \<and> a \<noteq> 0 \<and> within_page pt' a sz"

lemma within_page_grows:
  assumes "page_table_wf pt" "page_table_wf pt'" "pt_grows pt pt'" "within_page pt a sz"
  shows "within_page pt' a sz"
proof -
  obtain i q where q: "page_slot pt i q" "block a sz \<subseteq> fp_span q" using assms(4) by (auto simp: within_page_def)
  then obtain q' where q': "page_slot pt' i q'" "fp_kind q' = fp_kind q" using assms(3) unfolding pt_grows_def by blast
  have "base_addr pt' = base_addr pt" using assms(3) by (simp add: pt_grows_def)
  with q(1) q' have "fp_span q' = fp_span q"
    using slot_span[OF page_table_wfD(4)[OF assms(1) q(1)]] slot_span[OF page_table_wfD(4)[OF assms(2) q'(1)]]
    by (simp add: fp_nr_pages_def)
  with q(2) q'(1) show ?thesis by (auto simp: within_page_def)
qed

lemma pt_grows_refl [simp]: "pt_grows pt pt"
  by (auto simp: pt_grows_def)

lemma pt_grows_trans: "pt_grows pt pt' \<Longrightarrow> pt_grows pt' pt'' \<Longrightarrow> pt_grows pt pt''"
  unfolding pt_grows_def by (metis le_trans)

lemma push_page_grows:
  "page_table_wf pt \<Longrightarrow> current_base_page pt < pt_nr_pages pt \<Longrightarrow> pt_grows pt (push_page pt kind)"
  by (auto simp: pt_grows_def push_page_slot)

lemma alloc_in_page_fits:
  assumes wf: "page_table_wf pt" and slot: "page_slot pt i p" and fits: "sz \<le> fp_free p"
    and sz: "8 dvd sz"
  defines "a \<equiv> fp_start p + fp_used p"
  obtains pt' where "alloc_in_page pt i sz = Inr (pt', Some (a, i))"
    "page_table_wf pt'" "fresh_block pt sz pt' a" "pt_grows pt pt'"
    "current_base_page pt' = current_base_page pt" "block a sz \<subseteq> fp_span p"
    "pt' = put_page pt i (p\<lparr>fp_used_bytes := fp_used p + sz\<rparr>)"
proof -
  define p' where "p' = p\<lparr>fp_used_bytes := fp_used p + sz\<rparr>"
  note slot_ok = page_table_wfD(4)[OF wf slot]
  have al: "fp_alloc p sz = (p', Some a)"
    unfolding p'_def a_def using slot_okD(1)[OF slot_ok] fits by (rule fp_alloc_fits)
  note spec = fp_alloc_some[OF slot_okD(1)[OF slot_ok] al]
  have "used_addrs pt \<inter> block a sz = {}"
  proof -
    have "fp_used_block q \<inter> block a sz = {}" if q: "page_slot pt j q" for j q
    proof (cases "j = i")
      case True
      with q slot have "q = p" by (auto dest: page_slot_unique)
      with spec(6) show ?thesis by simp
    next
      case False
      with wf q slot have "fp_span q \<inter> fp_span p = {}" by (intro spans_disjoint)
      moreover have "fp_used_block q \<subseteq> fp_span q"
        using q slot_okD(1)[OF page_table_wfD(4)[OF wf q]] by (intro fp_used_subset_span)
      ultimately show ?thesis using spec(8) by blast
    qed
    then show ?thesis by (fastforce simp: used_addrs_def)
  qed
  moreover have "8 dvd a" "a \<noteq> 0"
    using slot_okD(2,3)[OF slot_ok] page_table_wfD(1)[OF wf]
    by (auto simp: a_def space_ok_def BASE_PAGE_SIZE_def)
  moreover have "alloc_in_page pt i sz = Inr (put_page pt i p', Some (a, i))"
    using slot al by (simp add: alloc_in_page_def page_at_slot[THEN iffD2] put_page_def)
  moreover have "page_table_wf (put_page pt i p')"
    using wf slot p'_def spec(4) sz by (rule put_page_wf)
  moreover have "\<exists>q'. page_slot (put_page pt i p') j q' \<and> fp_kind q' = fp_kind q"
    if "page_slot pt j q" for j q
    using that page_slot_unique[OF slot, of q]
    by (intro exI[of _ "if j = i then p' else q"]) (auto simp: put_page_slot[OF slot] p'_def)
  moreover have "within_page (put_page pt i p') a sz"
    using spec(7,8) put_page_slot[OF slot, of p' i p'] unfolding within_page_def by auto
  ultimately show thesis
    using put_page_used[OF slot spec(5)] spec(8)
    by (intro that[of "put_page pt i p'"]) (auto simp: fresh_block_def pt_grows_def p'_def)
qed

section \<open>Allocating objects\<close>

lemma bumped_slots:
  assumes slot: "page_slot pt i p" and pt': "pt' = put_page pt i (p\<lparr>fp_used_bytes := fp_used p + sz\<rparr>)"
  shows "page_slot pt' i (p\<lparr>fp_used_bytes := fp_used p + sz\<rparr>)"
    "fp_free (p\<lparr>fp_used_bytes := fp_used p + sz\<rparr>) = fp_free p - sz"
    "j \<noteq> i \<Longrightarrow> page_slot pt j q \<Longrightarrow> page_slot pt' j q"
    "fp_kind p \<noteq> Small \<Longrightarrow> small_kept pt pt'"
    "fp_kind p \<noteq> Medium \<Longrightarrow> medium_ok pt \<Longrightarrow>
      buffer_free pt' (medium_buffer_page pt') = buffer_free pt (medium_buffer_page pt)"
proof -
  show 1: "page_slot pt' i (p\<lparr>fp_used_bytes := fp_used p + sz\<rparr>)" by (simp add: pt' put_page_slot[OF slot])
  show "fp_free (p\<lparr>fp_used_bytes := fp_used p + sz\<rparr>) = fp_free p - sz"
    by (simp add: fp_free_def fp_size_def fp_used_def)
  show other: "page_slot pt' j q" if "j \<noteq> i" "page_slot pt j q" for j q
    using that by (simp add: pt' put_page_slot[OF slot])
  show "small_kept pt pt'" if "fp_kind p \<noteq> Small"
    using that other page_slot_unique[OF slot] unfolding small_kept_def by metis
  show "buffer_free pt' (medium_buffer_page pt') = buffer_free pt (medium_buffer_page pt)"
    if k: "fp_kind p \<noteq> Medium" and m: "medium_ok pt"
  proof (cases "medium_buffer_page pt")
    case None
    then show ?thesis by (simp add: pt')
  next
    case (Some b)
    then obtain q where q: "page_slot pt b q" "fp_kind q = Medium" using m by (auto simp: medium_ok_def)
    with k have "b \<noteq> i" using page_slot_unique[OF slot, of q] by auto
    with q(1) other have "page_slot pt' b q" by blast
    with Some q(1) show ?thesis by (simp add: pt')
  qed
qed

lemma push_page_kept:
  assumes "page_table_wf pt" "current_base_page pt < pt_nr_pages pt"
  shows "small_kept pt (push_page pt kind)"
    "buffer_free (push_page pt kind) (medium_buffer_page pt) = buffer_free pt (medium_buffer_page pt)"
proof -
  show "small_kept pt (push_page pt kind)" by (simp add: small_kept_def push_page_slot[OF assms])
  show "buffer_free (push_page pt kind) (medium_buffer_page pt) = buffer_free pt (medium_buffer_page pt)"
  proof (cases "medium_buffer_page pt")
    case (Some b)
    then obtain q where "page_slot pt b q" using page_table_wfD(3)[OF assms(1)] by (auto simp: medium_ok_def)
    moreover from this have "page_slot (push_page pt kind) b q" by (simp add: push_page_slot[OF assms])
    ultimately show ?thesis using Some by simp
  qed simp
qed

lemma small_kept_trans: "small_kept pt pt1 \<Longrightarrow> small_kept pt1 pt2 \<Longrightarrow> small_kept pt pt2"
  by (simp add: small_kept_def)

lemma set_medium_buffer:
  assumes "page_table_wf pt" "page_slot pt b p" "fp_kind p = Medium"
  defines "pt' \<equiv> pt\<lparr>medium_buffer_page := Some b\<rparr>"
  shows "page_table_wf pt'" "used_addrs pt' = used_addrs pt" "pt_grows pt pt'"
    "page_slot pt' = page_slot pt"
proof -
  show slot: "page_slot pt' = page_slot pt"
    by (simp add: fun_eq_iff page_slot_def pt'_def)
  show "page_table_wf pt'"
    using assms(1-3)
    unfolding page_table_wf_def space_ok_def covered_def medium_ok_def slot slot_ok_def
    by (simp add: pt'_def) blast
  show "used_addrs pt' = used_addrs pt" by (simp add: used_addrs_def slot)
  show "pt_grows pt pt'" unfolding pt_grows_def slot by (auto simp: pt'_def)
qed

text \<open>A fresh medium page as the new buffer page, and the block at its start.\<close>

lemma fresh_page_slot:
  assumes "page_table_wf pt" "0 < kind_nr_pages kind"
    and "current_base_page pt + kind_nr_pages kind \<le> pt_nr_pages pt"
  obtains p where "page_slot (push_page pt kind) (current_base_page pt) p" "fp_kind p = kind"
    "fp_free p = kind_nr_pages kind * BASE_PAGE_SIZE"
    "fp_used p = 0" "fp_start p = base_addr pt + current_base_page pt * BASE_PAGE_SIZE"
  using assms
  by (intro that[of "\<lparr>fp_kind = kind,
      fp_start = base_addr pt + current_base_page pt * BASE_PAGE_SIZE, fp_used_bytes = 0\<rparr>"])
    (auto simp: push_page_slot fp_free_def fp_size_def fp_used_def)

text \<open>The pages of a huge object are at most twice as large as the object.\<close>

lemma huge_pages_bytes:
  assumes "BASE_PAGE_SIZE div 2 \<le> sz"
  shows "div_ceil sz BASE_PAGE_SIZE * BASE_PAGE_SIZE \<le> 2 * sz"
    "k < div_ceil sz BASE_PAGE_SIZE \<Longrightarrow> k * BASE_PAGE_SIZE < sz"
proof -
  have d: "sz = sz div BASE_PAGE_SIZE * BASE_PAGE_SIZE + sz mod BASE_PAGE_SIZE" by simp
  have m: "sz mod BASE_PAGE_SIZE < BASE_PAGE_SIZE" by simp
  show "div_ceil sz BASE_PAGE_SIZE * BASE_PAGE_SIZE \<le> 2 * sz"
  proof (cases "sz div BASE_PAGE_SIZE = 0")
    case True
    with assms show ?thesis by (simp add: div_ceil_def BASE_PAGE_SIZE_def split: if_splits)
  next
    case False
    then have "BASE_PAGE_SIZE \<le> sz div BASE_PAGE_SIZE * BASE_PAGE_SIZE" by simp
    then have "BASE_PAGE_SIZE + sz div BASE_PAGE_SIZE * BASE_PAGE_SIZE \<le> 2 * sz"
      using d by linarith
    then show ?thesis by (simp add: div_ceil_def)
  qed
  show "k * BASE_PAGE_SIZE < sz" if "k < div_ceil sz BASE_PAGE_SIZE"
  proof (cases "sz mod BASE_PAGE_SIZE = 0")
    case True
    with that have "k < sz div BASE_PAGE_SIZE" by (simp add: div_ceil_def)
    then have "k * BASE_PAGE_SIZE < sz div BASE_PAGE_SIZE * BASE_PAGE_SIZE" by simp
    with d True show ?thesis by linarith
  next
    case False
    with that have "k \<le> sz div BASE_PAGE_SIZE" by (simp add: div_ceil_def split: if_splits)
    then have "k * BASE_PAGE_SIZE \<le> sz div BASE_PAGE_SIZE * BASE_PAGE_SIZE" by (rule mult_le_mono1)
    with d False show ?thesis by linarith
  qed
qed

lemma medium_buffer_free_le:
  assumes "page_table_wf pt"
  shows "buffer_free pt (medium_buffer_page pt) \<le> 4 * BASE_PAGE_SIZE"
proof (cases "medium_buffer_page pt")
  case (Some b)
  then obtain p where "page_slot pt b p" "fp_kind p = Medium"
    using page_table_wfD(3)[OF assms] by (auto simp: medium_ok_def)
  with Some show ?thesis by (simp add: fp_free_def fp_size_def)
qed simp

lemma huge_alloc_spec:
  assumes wf: "page_table_wf pt" and sz: "8 dvd sz" and huge: "max_object_size Medium \<le> sz"
  obtains (full) "pt_alloc pt sz = Inr (pt, None)" "byte_room pt < sz + 4 * BASE_PAGE_SIZE"
  | (some) pt' a i where "pt_alloc pt sz = Inr (pt', Some (a, i))" "page_table_wf pt'"
      "fresh_block pt sz pt' a" "pt_grows pt pt'" "byte_room pt \<le> byte_room pt' + 2 * sz" "small_kept pt pt'"
proof -
  let ?k = "Huge (div_ceil sz BASE_PAGE_SIZE)"
  have big: "BASE_PAGE_SIZE div 2 \<le> sz" using huge by (simp add: BASE_PAGE_SIZE_def)
  have pos: "0 < kind_nr_pages ?k" using huge by (simp add: div_ceil_pos)
  have bind: "pt_alloc pt sz = bind_res (alloc_page pt ?k) (\<lambda>(pt, r). case r of None \<Rightarrow> Inr (pt, None)
      | Some page_id \<Rightarrow> alloc_in_page pt page_id sz)"
    using huge sz by (simp add: pt_alloc_def)
  from wf pos show thesis
  proof (cases rule: alloc_page_spec)
    case full
    have "current_base_page pt \<le> pt_nr_pages pt" using page_table_wfD(1)[OF wf] by (simp add: space_ok_def)
    with full(2) have "free_pages pt < div_ceil sz BASE_PAGE_SIZE" by (simp add: free_pages_def)
    with huge_pages_bytes(2)[OF big this] medium_buffer_free_le[OF wf]
    have "byte_room pt < sz + 4 * BASE_PAGE_SIZE" unfolding byte_room_def by linarith
    with full(1) show thesis using that(1) bind by simp
  next
    case fresh
    let ?c = "current_base_page pt" and ?pt = "push_page pt ?k"
    obtain p where p: "page_slot ?pt ?c p" "fp_kind p = ?k" "fp_free p = kind_nr_pages ?k * BASE_PAGE_SIZE"
      using wf pos fresh(2) by (rule fresh_page_slot)
    have "sz \<le> fp_free p" using p(3) by (simp add: div_ceil_mult_ge)
    from alloc_in_page_fits[OF fresh(3) p(1) this sz]
    obtain pt' a where al: "alloc_in_page ?pt ?c sz = Inr (pt', Some (a, ?c))"
      "page_table_wf pt'" "fresh_block ?pt sz pt' a" "pt_grows ?pt pt'"
      "current_base_page pt' = current_base_page ?pt"
      "pt' = put_page ?pt ?c (p\<lparr>fp_used_bytes := fp_used p + sz\<rparr>)" by metis
    have room: "current_base_page pt < pt_nr_pages pt" using fresh(2) pos by linarith
    note kept = push_page_kept[OF wf room, of ?k] and bump = bumped_slots[OF p(1) al(6)]
    have "small_kept pt pt'" using small_kept_trans[OF kept(1) bump(4)] p(2) by simp
    moreover have "buffer_free pt' (medium_buffer_page pt') = buffer_free pt (medium_buffer_page pt)"
      using bump(5) p(2) kept(2) page_table_wfD(3)[OF fresh(3)] by simp
    moreover have "free_pages pt = free_pages pt' + div_ceil sz BASE_PAGE_SIZE"
      using al(6) fresh(2) by (simp add: free_pages_def)
    ultimately have "byte_room pt \<le> byte_room pt' + 2 * sz" "small_kept pt pt'"
      using huge_pages_bytes(1)[OF big] by (simp_all add: byte_room_def add_mult_distrib)
    moreover have "pt_grows pt pt'" using pt_grows_trans[OF push_page_grows[OF wf room] al(4)] .
    moreover have "fresh_block pt sz pt' a" using al(3) fresh(4) by (simp add: fresh_block_def)
    ultimately show thesis using that(2)[of pt' a ?c] al(1,2) bind fresh(1) by simp
  qed
qed

lemma new_medium_buffer_spec:
  assumes wf: "page_table_wf pt"
  obtains (full) "new_medium_buffer pt = Inr (pt, None)" "free_pages pt < 4"
  | (fresh) pt' b p where "new_medium_buffer pt = Inr (pt', Some b)" "page_table_wf pt'"
      "used_addrs pt' = used_addrs pt" "pt_grows pt pt'" "page_slot pt' b p" "fp_kind p = Medium"
      "fp_free p = 4 * BASE_PAGE_SIZE" "free_pages pt = free_pages pt' + 4"
      "medium_buffer_page pt' = Some b" "small_kept pt pt'"
proof -
  have pos: "0 < kind_nr_pages Medium" by simp
  have "current_base_page pt \<le> pt_nr_pages pt" using page_table_wfD(1)[OF wf] by (simp add: space_ok_def)
  from wf pos show thesis
  proof (cases rule: alloc_page_spec)
    case full
    then show thesis using that(1) \<open>current_base_page pt \<le> pt_nr_pages pt\<close>
      by (simp add: new_medium_buffer_def free_pages_def)
  next
    case fresh
    let ?b = "current_base_page pt" and ?pt = "push_page pt Medium"
    obtain p where p: "page_slot ?pt ?b p" "fp_kind p = Medium"
      "fp_free p = kind_nr_pages Medium * BASE_PAGE_SIZE"
      using wf pos fresh(2) by (rule fresh_page_slot)
    have room: "current_base_page pt < pt_nr_pages pt" using fresh(2) by simp
    with wf have "pt_grows pt ?pt" by (rule push_page_grows)
    with set_medium_buffer[OF fresh(3) p(1,2)] fresh(1,2,4) p push_page_kept(1)[OF wf room, of Medium] show thesis
      by (intro that(2)[of "?pt\<lparr>medium_buffer_page := Some ?b\<rparr>" ?b p])
        (auto simp: new_medium_buffer_def free_pages_def small_kept_def elim: pt_grows_trans)
  qed
qed

text \<open>The common end of both medium branches: the block comes out of page \<open>b\<close>.\<close>

lemma medium_block:
  assumes wf: "page_table_wf pt" and p: "page_slot pt b p" "fp_kind p = Medium" "\<not> fp_free p < sz"
    and sz: "8 dvd sz" and b: "medium_buffer_page pt = Some b"
  obtains pt' a where "alloc_in_page pt b sz = Inr (pt', Some (a, b))" "page_table_wf pt'"
    "fresh_block pt sz pt' a" "pt_grows pt pt'" "byte_room pt = byte_room pt' + sz" "small_kept pt pt'"
proof -
  from wf p(1) _ sz obtain pt' a where al: "alloc_in_page pt b sz = Inr (pt', Some (a, b))"
    "page_table_wf pt'" "fresh_block pt sz pt' a" "pt_grows pt pt'"
    "pt' = put_page pt b (p\<lparr>fp_used_bytes := fp_used p + sz\<rparr>)"
    by (rule alloc_in_page_fits) (use p(3) in auto)
  note bump = bumped_slots[OF p(1) al(5)]
  have "medium_buffer_page pt' = Some b" "free_pages pt' = free_pages pt"
    using b al(5) by (simp_all add: free_pages_def)
  with bump(1,2,4) p b have "byte_room pt = byte_room pt' + sz" "small_kept pt pt'"
    by (simp_all add: byte_room_def)
  with al(1-4) show thesis by (rule that)
qed

lemma medium_alloc_spec:
  assumes wf: "page_table_wf pt" and sz: "8 dvd sz" and med: "sz < max_object_size Medium"
  obtains (full) "pt_alloc pt sz = Inr (pt, None)" "byte_room pt < sz + 4 * BASE_PAGE_SIZE"
  | (some) pt' a i where "pt_alloc pt sz = Inr (pt', Some (a, i))" "page_table_wf pt'"
      "fresh_block pt sz pt' a" "pt_grows pt pt'" "byte_room pt \<le> byte_room pt' + 2 * sz" "small_kept pt pt'"
proof (cases "\<exists>b p. medium_buffer_page pt = Some b \<and> page_slot pt b p \<and> fp_kind p = Medium \<and> \<not> fp_free p < sz")
  case True
  then obtain b p where b: "medium_buffer_page pt = Some b" "page_slot pt b p" "fp_kind p = Medium"
    "\<not> fp_free p < sz" by blast
  from wf b(2-4) sz b(1) obtain pt' a where "alloc_in_page pt b sz = Inr (pt', Some (a, b))"
    "page_table_wf pt'" "fresh_block pt sz pt' a" "pt_grows pt pt'" "byte_room pt = byte_room pt' + sz"
    "small_kept pt pt'" by (rule medium_block)
  with b sz med show thesis
    by (intro that(2)[of pt' a b]) (simp_all add: pt_alloc_def page_at_slot[THEN iffD2])
next
  case False
  have old: "\<exists>p. page_slot pt b p \<and> fp_free p < sz" if "medium_buffer_page pt = Some b" for b
    using that False page_table_wfD(3)[OF wf] by (auto simp: medium_ok_def)
  have rest: "buffer_free pt (medium_buffer_page pt) \<le> sz"
    using old by (cases "medium_buffer_page pt") fastforce+
  from wf show thesis
  proof (cases rule: new_medium_buffer_spec)
    case full
    have "free_pages pt * BASE_PAGE_SIZE \<le> 3 * BASE_PAGE_SIZE" using full(2) by (intro mult_le_mono1) simp
    moreover have "0 < BASE_PAGE_SIZE" by simp
    ultimately have "byte_room pt < sz + 4 * BASE_PAGE_SIZE" using rest unfolding byte_room_def by linarith
    moreover have "pt_alloc pt sz = Inr (pt, None)"
      using old full(1) sz med by (cases "medium_buffer_page pt") (auto simp: pt_alloc_def page_at_slot[THEN iffD2])
    ultimately show thesis using that(1) by blast
  next
    case (fresh pt1 b1 p1)
    have fits: "\<not> fp_free p1 < sz" using fresh(7) med by (simp add: BASE_PAGE_SIZE_def)
    from fresh(2,5,6) fits sz fresh(9) obtain pt' a where
      al: "alloc_in_page pt1 b1 sz = Inr (pt', Some (a, b1))" "page_table_wf pt'"
        "fresh_block pt1 sz pt' a" "pt_grows pt1 pt'" "byte_room pt1 = byte_room pt' + sz"
        "small_kept pt1 pt'" by (rule medium_block)
    have "page_at pt1 b1 = Inr p1" using fresh(5) by (simp add: page_at_slot)
    with al(1) old sz med fits fresh(1) have "pt_alloc pt sz = Inr (pt', Some (a, b1))"
      by (cases "medium_buffer_page pt") (auto simp: pt_alloc_def page_at_slot[THEN iffD2])
    moreover have "fresh_block pt sz pt' a" using al(3) fresh(3) by (simp add: fresh_block_def)
    moreover have "byte_room pt \<le> byte_room pt' + 2 * sz"
      using rest al(5) fresh(5,7-9) by (simp add: byte_room_def add_mult_distrib)
    ultimately show thesis
      using that(2)[of pt' a b1] al(2) pt_grows_trans[OF fresh(4) al(4)] small_kept_trans[OF fresh(10) al(6)]
      by simp
  qed
qed

lemma pt_alloc_spec:
  assumes wf: "page_table_wf pt" and sz: "8 dvd sz"
  obtains (full) "pt_alloc pt sz = Inr (pt, None)" "byte_room pt < sz + 4 * BASE_PAGE_SIZE"
  | (some) pt' a i where "pt_alloc pt sz = Inr (pt', Some (a, i))" "page_table_wf pt'"
      "fresh_block pt sz pt' a" "pt_grows pt pt'" "byte_room pt \<le> byte_room pt' + 2 * sz" "small_kept pt pt'"
proof (cases "max_object_size Medium \<le> sz")
  case True
  with wf sz show thesis by (cases rule: huge_alloc_spec) (rule that; assumption)+
next
  case False
  then have "sz < max_object_size Medium" by simp
  with wf sz show thesis by (cases rule: medium_alloc_spec) (rule that; assumption)+
qed

text \<open>The page table provides the allocator interface; a medium page must be left over.\<close>

definition table_room :: "page_table \<Rightarrow> nat" where
  "table_room pt = byte_room pt - 4 * BASE_PAGE_SIZE"

interpretation table: allocator pt_alloc page_table_wf used_addrs table_room alloc_need base_addr
  within_page
proof unfold_locales
  fix pt :: page_table and n :: nat
  assume "page_table_wf pt" "8 dvd n"
  then show "(\<exists>pt'. pt_alloc pt n = Inr (pt', None) \<and> page_table_wf pt' \<and>
        used_addrs pt' = used_addrs pt \<and> base_addr pt' = base_addr pt \<and> table_room pt < alloc_need n) \<or>
     (\<exists>pt' a i. pt_alloc pt n = Inr (pt', Some (a, i)) \<and> page_table_wf pt' \<and>
        used_addrs pt' = used_addrs pt \<union> block a n \<and> used_addrs pt \<inter> block a n = {} \<and>
        8 dvd a \<and> a \<noteq> 0 \<and> base_addr pt' = base_addr pt \<and> table_room pt \<le> table_room pt' + alloc_need n \<and>
        within_page pt' a n \<and> (\<forall>b k. within_page pt b k \<longrightarrow> within_page pt' b k))"
  proof (cases rule: pt_alloc_spec)
    case full
    then have "table_room pt < alloc_need n" by (simp add: table_room_def alloc_need_def)
    with full(1) \<open>page_table_wf pt\<close> show ?thesis by auto
  next
    case (some pt' a i)
    then have "table_room pt \<le> table_room pt' + alloc_need n" by (simp add: table_room_def alloc_need_def)
    with some show ?thesis using within_page_grows[OF \<open>page_table_wf pt\<close> some(2,4)]
      by (auto simp: fresh_block_def pt_grows_def)
  qed
next
  fix pt assume "page_table_wf pt"
  then show "used_addrs pt \<subseteq> {base_addr pt..}" using used_addrs_in_space by fastforce
qed

section \<open>Looking a page up by address\<close>

lemma resolve_back_walk:
  assumes "slots pt ! k = None" "k < length (slots pt)" "0 < k"
  shows "resolve_back pt addr k = resolve_back pt addr (k - 1)"
  using assms by (subst resolve_back.simps) simp

lemma resolve_back_hit:
  assumes "page_slot pt i p" "addr \<in> fp_span p" "flex_page_wf p"
  shows "resolve_back pt addr i = Inr (Some i)"
  using assms
  by (subst resolve_back.simps) (simp add: page_slot_def fp_span_def flex_page_wf_def)

lemma resolve_back_page:
  assumes wf: "page_table_wf pt" and slot: "page_slot pt i p" and addr: "addr \<in> fp_span p"
  shows "d < fp_nr_pages p \<Longrightarrow> resolve_back pt addr (i + d) = Inr (Some i)"
proof (induction d)
  case 0
  show ?case
    using resolve_back_hit[OF slot addr] slot_okD(1)[OF page_table_wfD(4)[OF wf slot]] by simp
next
  case (Suc d)
  have ok: "slot_ok pt i p" using wf slot by (rule page_table_wfD(4))
  have "slots pt ! (i + Suc d) = None" using slot_okD(5)[OF ok] Suc.prems by simp
  moreover have "i + Suc d < length (slots pt)"
    using slot_okD(4)[OF ok] Suc.prems page_table_wfD(1)[OF wf] by (simp add: space_ok_def)
  ultimately show ?case
    using resolve_back_walk[of pt "i + Suc d" addr] Suc by simp
qed

lemma resolve_in_span:
  assumes wf: "page_table_wf pt" and slot: "page_slot pt i p" and addr: "addr \<in> fp_span p"
  shows "resolve_to_page pt addr = Inr (Some i)"
proof -
  let ?k = "(addr - base_addr pt) div BASE_PAGE_SIZE"
  have ok: "slot_ok pt i p" using wf slot by (rule page_table_wfD(4))
  have a: "base_addr pt + i * BASE_PAGE_SIZE \<le> addr"
    "addr < base_addr pt + i * BASE_PAGE_SIZE + fp_nr_pages p * BASE_PAGE_SIZE"
    using addr slot_span[OF ok] by auto
  then have lo: "i \<le> ?k" by (simp add: less_eq_div_iff_mult_less_eq)
  have "addr - base_addr pt < (i + fp_nr_pages p) * BASE_PAGE_SIZE"
    using a by (simp add: add_mult_distrib)
  then have hi: "?k < i + fp_nr_pages p" by (simp add: div_less_iff_less_mult)
  moreover have "resolve_back pt addr (i + (?k - i)) = Inr (Some i)"
    using wf slot addr by (rule resolve_back_page) (use lo hi in simp)
  ultimately show ?thesis
    using lo a slot_okD(4)[OF ok]
    by (simp add: resolve_to_page_def get_used_end_page_def page_shift)
qed

lemma in_space_has_page:
  assumes wf: "page_table_wf pt" and "base_addr pt \<le> addr" "addr < get_top_addr pt"
  obtains i p where "page_slot pt i p" "addr \<in> fp_span p"
proof -
  let ?k = "(addr - base_addr pt) div BASE_PAGE_SIZE"
  have "addr - base_addr pt < current_base_page pt * BASE_PAGE_SIZE"
    using assms by (simp add: get_top_addr_def)
  then have "?k < current_base_page pt" by (simp add: div_less_iff_less_mult)
  then obtain i p where p: "page_slot pt i p" "i \<le> ?k" "?k < i + fp_nr_pages p"
    using page_table_wfD(2)[OF wf] by (auto simp: covered_def)
  then have "i * BASE_PAGE_SIZE \<le> addr - base_addr pt"
    "addr - base_addr pt < (i + fp_nr_pages p) * BASE_PAGE_SIZE"
    by (simp_all add: less_eq_div_iff_mult_less_eq div_less_iff_less_mult)
  then have "addr \<in> fp_span p"
    using slot_span[OF page_table_wfD(4)[OF wf p(1)]] assms(2) by (auto simp: add_mult_distrib)
  with p(1) show thesis by (rule that)
qed

lemma resolve_outside:
  assumes wf: "page_table_wf pt" and out: "addr < base_addr pt \<or> get_top_addr pt \<le> addr"
  shows "resolve_to_page pt addr = Inr None"
proof (cases "addr < base_addr pt")
  case False
  with out have "current_base_page pt * BASE_PAGE_SIZE \<le> addr - base_addr pt"
    by (simp add: get_top_addr_def)
  then have "current_base_page pt \<le> (addr - base_addr pt) div BASE_PAGE_SIZE"
    by (simp add: less_eq_div_iff_mult_less_eq)
  then show ?thesis
    by (simp add: resolve_to_page_def get_used_end_page_def page_shift)
qed (simp add: resolve_to_page_def)

section \<open>Properties\<close>

text \<open>
  A concrete space for the witnesses: two base pages at 2 MiB, the first owned by a small page.
\<close>

definition sample_table :: page_table where
  "sample_table = push_page (page_table_new (2 * BASE_PAGE_SIZE) 4) Small"

lemma sample_table_wf: "page_table_wf sample_table"
  unfolding sample_table_def
proof (rule push_page_wf)
  show "page_table_wf (page_table_new (2 * BASE_PAGE_SIZE) 4)"
    by (rule page_table_new_wf) (simp_all add: BASE_PAGE_SIZE_def)
qed (simp_all add: page_table_new_def BASE_PAGE_SIZE_def)

text \<open>
  C22: \<open>resolve_to_page\<close> inverts the layout of the table: it never panics, it answers the slot \<open>i\<close>
  exactly for the addresses in the span of the page in slot \<open>i\<close> (also the inner base pages of a
  medium or huge page), and it answers none exactly outside the used part of the space.
\<close>

theorem resolve_to_page_correct:
  assumes "page_table_wf pt"
  shows "(resolve_to_page pt addr = Inr (Some i) \<longleftrightarrow> (\<exists>p. page_slot pt i p \<and> addr \<in> fp_span p)) \<and>
    (resolve_to_page pt addr = Inr None \<longleftrightarrow> addr < base_addr pt \<or> get_top_addr pt \<le> addr) \<and>
    ok (resolve_to_page pt addr)"
proof (cases "addr < base_addr pt \<or> get_top_addr pt \<le> addr")
  case True
  have "\<not> (\<exists>p. page_slot pt i p \<and> addr \<in> fp_span p)"
    using True slot_top[OF assms] by fastforce
  with True resolve_outside[OF assms True] show ?thesis by simp
next
  case False
  then have "base_addr pt \<le> addr" "addr < get_top_addr pt" by auto
  with assms obtain j p where p: "page_slot pt j p" "addr \<in> fp_span p" by (rule in_space_has_page)
  have "i = j" if "page_slot pt i q" "addr \<in> fp_span q" for q
    using spans_disjoint[OF assms that(1) p(1)] that(2) p(2) by blast
  with p resolve_in_span[OF assms p] False show ?thesis by auto
qed

theorem resolve_to_page_correct_witness:
  "ok (resolve_to_page sample_table (2 * BASE_PAGE_SIZE + 8))"
  using resolve_to_page_correct[OF sample_table_wf] by blast

text \<open>
  \<open>donate_page\<close> cannot succeed: it divides the page's address by the page size before it
  subtracts the base address, so for every page whose page number is below the base address (as in
  every space mapped at 2 MiB or more below \<open>2 ^ 42\<close>) it panics, with and without overflow checks.
\<close>

theorem donate_page_panics:
  assumes "page_table_wf pt" "fp_start page div BASE_PAGE_SIZE < base_addr pt"
  shows "\<not> ok (donate_page checks pt page)"
proof -
  let ?q = "fp_start page div BASE_PAGE_SIZE"
  have "base_addr pt + pt_nr_pages pt * BASE_PAGE_SIZE < 2 ^ 64"
    using page_table_wfD(1)[OF assms(1)] by (simp add: space_ok_def)
  moreover have "pt_nr_pages pt \<le> pt_nr_pages pt * BASE_PAGE_SIZE" by (simp add: BASE_PAGE_SIZE_def)
  ultimately have "pt_nr_pages pt < 2 ^ 64 - (base_addr pt - ?q)" by linarith
  with assms(2) show ?thesis by (cases checks) (simp_all add: donate_page_def usub_in_def)
qed

theorem donate_page_panics_witness:
  "\<not> ok (donate_page False sample_table
      \<lparr>fp_kind = Small, fp_start = 3 * BASE_PAGE_SIZE, fp_used_bytes = 16\<rparr>)"
  by (rule donate_page_panics[OF sample_table_wf])
    (simp add: sample_table_def push_page_def page_table_new_def BASE_PAGE_SIZE_def)

end
