(* ===== verification/MM_Context.thy ===== *)
theory MM_Context
  imports Page_Table
begin

text \<open>
  \<open>uwugc/src/mm/context.rs\<close> and \<open>uwugc/src/mm/mod.rs\<close>: the per-mutator allocation context with its
  small buffer page in front of the page table, and the \<open>MM\<close> that owns a mapping and its table.
  \<open>context_wf\<close> says that the buffer page, if any, is a small page of the (one) table the context is
  used with. The context provides the same allocator interface as the table, with a
room that counts the buffer page too.
\<close>

section \<open>The allocation context\<close>

record mm_context =
  local_buffer_page :: "nat option"

definition mm_context_new :: mm_context where
  "mm_context_new = \<lparr>local_buffer_page = None\<rparr>"

definition flush_local_buf :: "mm_context \<Rightarrow> mm_context" where
  "flush_local_buf ctx = ctx\<lparr>local_buffer_page := None\<rparr>"

type_synonym alloc_state = "mm_context \<times> page_table"

text \<open>\<open>self.local_buffer_page = Some(page_table.alloc_page(FlexPageKind::Small)?)\<close>.\<close>

definition new_local_buffer :: "alloc_state \<Rightarrow> (alloc_state \<times> nat option) res" where
  "new_local_buffer = (\<lambda>(ctx, pt).
     bind_res (alloc_page pt Small) (\<lambda>(pt, r).
       case r of
         None \<Rightarrow> Inr ((ctx, pt), None)
       | Some b \<Rightarrow> Inr ((ctx\<lparr>local_buffer_page := Some b\<rparr>, pt), Some b)))"

definition alloc_from_page_table :: "alloc_state \<Rightarrow> nat \<Rightarrow> (alloc_state \<times> (nat \<times> nat) option) res" where
  "alloc_from_page_table = (\<lambda>(ctx, pt) sz.
     assert_then (8 dvd sz)
       (if max_object_size Small \<le> sz then
          bind_res (pt_alloc pt sz) (\<lambda>(pt, r). Inr ((ctx, pt), r))
        else
          bind_res
            (case local_buffer_page ctx of
               None \<Rightarrow> new_local_buffer (ctx, pt)
             | Some b \<Rightarrow> Inr ((ctx, pt), Some b))
            (\<lambda>((ctx, pt), buf).
              case buf of
                None \<Rightarrow> Inr ((ctx, pt), None)
              | Some b \<Rightarrow>
                  bind_res (page_at pt b) (\<lambda>page.
                    if fp_free page \<le> sz then
                      bind_res (new_local_buffer (ctx, pt)) (\<lambda>((ctx, pt), r).
                        case r of
                          None \<Rightarrow> Inr ((ctx, pt), None)
                        | Some b' \<Rightarrow>
                            bind_res (alloc_in_page pt b' sz) (\<lambda>(pt, r). Inr ((ctx, pt), r)))
                    else
                      bind_res (alloc_in_page pt b sz) (\<lambda>(pt, r). Inr ((ctx, pt), r))))))"

section \<open>The memory manager\<close>

record mmap_area =
  map_ptr :: nat
  map_len :: nat

record heap_mm =
  mm_mapping :: mmap_area
  mm_page_table :: page_table

text \<open>
  \<open>MM::new\<close>. The operating system's \<open>mmap\<close> is the parameter \<open>os_map\<close>: for a length and a
  preferred address it gives an error or the address of the mapping.
\<close>

definition mm_new :: "(nat \<Rightarrow> nat option \<Rightarrow> 'e + nat) \<Rightarrow> nat \<Rightarrow> nat option \<Rightarrow> 'e + heap_mm" where
  "mm_new os_map sz preferred_heap_base =
     (let nr_pages = div_ceil sz BASE_PAGE_SIZE in
      case os_map (nr_pages * BASE_PAGE_SIZE) preferred_heap_base of
        Inl e \<Rightarrow> Inl e
      | Inr ptr \<Rightarrow>
          Inr \<lparr>mm_mapping = \<lparr>map_ptr = ptr, map_len = nr_pages * BASE_PAGE_SIZE\<rparr>,
               mm_page_table = page_table_new ptr nr_pages\<rparr>)"

definition mm_alloc :: "mm_context \<Rightarrow> heap_mm \<Rightarrow> nat \<Rightarrow> ((mm_context \<times> heap_mm) \<times> (nat \<times> nat) option) res" where
  "mm_alloc ctx mm sz =
     bind_res (alloc_from_page_table (ctx, mm_page_table mm) sz) (\<lambda>((ctx, pt), r).
       Inr ((ctx, mm\<lparr>mm_page_table := pt\<rparr>), r))"

section \<open>Invariant\<close>

definition context_ok :: "mm_context \<Rightarrow> page_table \<Rightarrow> bool" where
  "context_ok ctx pt \<longleftrightarrow>
     (\<forall>b. local_buffer_page ctx = Some b \<longrightarrow> (\<exists>p. page_slot pt b p \<and> fp_kind p = Small))"

definition context_wf :: "alloc_state \<Rightarrow> bool" where
  "context_wf = (\<lambda>(ctx, pt). page_table_wf pt \<and> context_ok ctx pt)"

text \<open>The bytes table and buffer page can still hand out.\<close>

definition ctx_bytes :: "alloc_state \<Rightarrow> nat" where
  "ctx_bytes = (\<lambda>(ctx, pt). byte_room pt + buffer_free pt (local_buffer_page ctx))"

lemma mm_context_new_buffer [simp]: "local_buffer_page mm_context_new = None"
  by (simp add: mm_context_new_def)

lemma context_ok_new [simp]: "context_ok mm_context_new pt" "context_ok (flush_local_buf ctx) pt"
  by (simp_all add: context_ok_def mm_context_new_def flush_local_buf_def)

lemma context_ok_grows: "context_ok ctx pt \<Longrightarrow> pt_grows pt pt' \<Longrightarrow> context_ok ctx pt'"
  unfolding context_ok_def pt_grows_def by metis

lemma new_local_buffer_spec:
  assumes wf: "page_table_wf pt"
  obtains (full) "new_local_buffer (ctx, pt) = Inr ((ctx, pt), None)"
      "free_pages pt = 0"
  | (fresh) pt' b p where
      "new_local_buffer (ctx, pt) = Inr ((ctx\<lparr>local_buffer_page := Some b\<rparr>, pt'), Some b)"
      "page_table_wf pt'" "used_addrs pt' = used_addrs pt" "pt_grows pt pt'"
      "page_slot pt' b p" "fp_kind p = Small" "fp_free p = BASE_PAGE_SIZE"
      "current_base_page pt' = current_base_page pt + 1"
      "b = current_base_page pt" "fp_start p + fp_used p = get_top_addr pt"
      "byte_room pt = byte_room pt' + BASE_PAGE_SIZE"
proof -
  have pos: "0 < kind_nr_pages Small" by simp
  from wf pos show thesis
  proof (cases rule: alloc_page_spec)
    case full
    then show thesis using that(1) by (simp add: new_local_buffer_def free_pages_def)
  next
    case fresh
    obtain p where p: "page_slot (push_page pt Small) (current_base_page pt) p" "fp_kind p = Small"
      "fp_free p = kind_nr_pages Small * BASE_PAGE_SIZE" "fp_used p = 0"
      "fp_start p = base_addr pt + current_base_page pt * BASE_PAGE_SIZE"
      using wf pos fresh(2) by (rule fresh_page_slot)
    have room: "current_base_page pt < pt_nr_pages pt" using fresh(2) by simp
    with wf have "pt_grows pt (push_page pt Small)" by (rule push_page_grows)
    moreover have "byte_room pt = byte_room (push_page pt Small) + BASE_PAGE_SIZE"
    proof -
      have "free_pages pt = Suc (free_pages (push_page pt Small))" using room by (simp add: free_pages_def)
      then show ?thesis using push_page_kept(2)[OF wf room, of Small] by (simp add: byte_room_def)
    qed
    ultimately show thesis using fresh p
      by (intro that(2)[of "current_base_page pt" "push_page pt Small" p])
        (auto simp: new_local_buffer_def get_top_addr_def)
  qed
qed

text \<open>The common end of the small branches: the block comes out of the small page \<open>b\<close>.\<close>

lemma small_block:
  assumes wf: "page_table_wf pt" and p: "page_slot pt b p" "fp_kind p = Small" "\<not> fp_free p \<le> sz"
    and sz: "8 dvd sz"
  obtains pt' a where "alloc_in_page pt b sz = Inr (pt', Some (a, b))" "page_table_wf pt'"
    "fresh_block pt sz pt' a" "pt_grows pt pt'" "current_base_page pt' = current_base_page pt"
    "a = fp_start p + fp_used p" "byte_room pt' = byte_room pt"
    "buffer_free pt (Some b) = buffer_free pt' (Some b) + sz"
proof -
  from wf p(1) _ sz obtain pt' where al: "alloc_in_page pt b sz = Inr (pt', Some (fp_start p + fp_used p, b))"
    "page_table_wf pt'" "fresh_block pt sz pt' (fp_start p + fp_used p)" "pt_grows pt pt'"
    "pt' = put_page pt b (p\<lparr>fp_used_bytes := fp_used p + sz\<rparr>)"
    by (rule alloc_in_page_fits) (use p(3) in auto)
  note bump = bumped_slots[OF p(1) al(5)]
  have "byte_room pt' = byte_room pt"
    using bump(5) p(2) page_table_wfD(3)[OF wf] al(5) by (simp add: byte_room_def free_pages_def)
  with al bump(1,2) p show thesis by (intro that[of pt' "fp_start p + fp_used p"]) simp_all
qed

lemma context_ok_buffer:
  "page_slot pt b p \<Longrightarrow> fp_kind p = Small \<Longrightarrow> context_ok (ctx\<lparr>local_buffer_page := Some b\<rparr>) pt"
  by (auto simp: context_ok_def)

lemma small_alloc_fresh:
  assumes wf: "page_table_wf pt" and sz: "8 dvd sz" "sz < max_object_size Small"
  obtains (full) "new_local_buffer (ctx, pt) = Inr ((ctx, pt), None)"
      "free_pages pt = 0"
  | (some) ctx1 pt1 b p pt' a where "new_local_buffer (ctx, pt) = Inr ((ctx1, pt1), Some b)"
      "page_slot pt1 b p" "\<not> fp_free p \<le> sz" "alloc_in_page pt1 b sz = Inr (pt', Some (a, b))"
      "context_ok ctx1 pt'" "page_table_wf pt'" "fresh_block pt sz pt' a" "pt_grows pt pt'"
      "current_base_page pt' = current_base_page pt + 1"
      "a = get_top_addr pt" "local_buffer_page ctx1 = Some (current_base_page pt)"
      "byte_room pt = ctx_bytes (ctx1, pt') + sz"
  using wf
proof (cases rule: new_local_buffer_spec[of _ ctx])
  case full
  then show thesis by (rule that(1))
next
  case (fresh pt1 b p)
  have fits: "\<not> fp_free p \<le> sz" using fresh(7) sz(2) by (simp add: BASE_PAGE_SIZE_def)
  from fresh(2,5,6) fits sz(1) obtain pt' a where
    al: "alloc_in_page pt1 b sz = Inr (pt', Some (a, b))" "page_table_wf pt'"
      "fresh_block pt1 sz pt' a" "pt_grows pt1 pt'" "current_base_page pt' = current_base_page pt1"
      "a = fp_start p + fp_used p" "byte_room pt' = byte_room pt1"
      "buffer_free pt1 (Some b) = buffer_free pt' (Some b) + sz"
    by (rule small_block)
  have "byte_room pt = ctx_bytes (ctx\<lparr>local_buffer_page := Some b\<rparr>, pt') + sz"
    using al(7,8) fresh(5,7,11) by (simp add: ctx_bytes_def)
  moreover
  have "fresh_block pt sz pt' a" using al(3) fresh(3) by (simp add: fresh_block_def)
  moreover have "context_ok (ctx\<lparr>local_buffer_page := Some b\<rparr>) pt'"
    using context_ok_buffer[OF fresh(5,6)] al(4) by (rule context_ok_grows)
  ultimately show thesis
    using fresh(1,5,8,9,10) fits al pt_grows_trans[OF fresh(4) al(4)]
    by (intro that(2)[of "ctx\<lparr>local_buffer_page := Some b\<rparr>" pt1 b p pt' a]) auto
qed

text \<open>Whether the context's buffer page can serve \<open>sz\<close> more bytes, and the two small branches.\<close>

definition buffer_fits :: "mm_context \<Rightarrow> page_table \<Rightarrow> nat \<Rightarrow> bool" where
  "buffer_fits ctx pt sz \<longleftrightarrow>
     (\<exists>b p. local_buffer_page ctx = Some b \<and> page_slot pt b p \<and> \<not> fp_free p \<le> sz)"

lemmas alloc_small_simps = alloc_from_page_table_def page_at_slot[THEN iffD2] context_wf_def

lemma small_alloc_hit:
  assumes wf: "context_wf (ctx, pt)" and sz: "8 dvd sz" "sz < max_object_size Small"
    and hit: "buffer_fits ctx pt sz"
  obtains pt' a i where "alloc_from_page_table (ctx, pt) sz = Inr ((ctx, pt'), Some (a, i))"
    "context_wf (ctx, pt')" "fresh_block pt sz pt' a" "pt_grows pt pt'"
    "current_base_page pt' = current_base_page pt" "ctx_bytes (ctx, pt) = ctx_bytes (ctx, pt') + sz"
proof -
  have pwf: "page_table_wf pt" and cok: "context_ok ctx pt"
    using wf by (simp_all add: context_wf_def)
  obtain b p where b: "local_buffer_page ctx = Some b" "page_slot pt b p" "\<not> fp_free p \<le> sz"
    using hit by (auto simp: buffer_fits_def)
  have "fp_kind p = Small" using cok b(1,2) by (auto simp: context_ok_def dest: page_slot_unique)
  from pwf b(2) this b(3) sz(1) obtain pt' a where al: "alloc_in_page pt b sz = Inr (pt', Some (a, b))"
    "page_table_wf pt'" "fresh_block pt sz pt' a" "pt_grows pt pt'"
    "current_base_page pt' = current_base_page pt" "byte_room pt' = byte_room pt"
    "buffer_free pt (Some b) = buffer_free pt' (Some b) + sz" by (rule small_block)
  have "ctx_bytes (ctx, pt) = ctx_bytes (ctx, pt') + sz" using al(6,7) b(1) by (simp add: ctx_bytes_def)
  with al(1-5) b sz cok context_ok_grows show thesis
    by (intro that[of pt' a b]) (auto simp: alloc_small_simps)
qed

lemma small_alloc_miss:
  assumes wf: "context_wf (ctx, pt)" and sz: "8 dvd sz" "sz < max_object_size Small"
    and miss: "\<not> buffer_fits ctx pt sz"
  shows "new_local_buffer (ctx, pt) = Inr ((ctx, pt), None) \<Longrightarrow>
      alloc_from_page_table (ctx, pt) sz = Inr ((ctx, pt), None)"
    and "\<lbrakk>new_local_buffer (ctx, pt) = Inr ((ctx1, pt1), Some b); page_slot pt1 b p;
      \<not> fp_free p \<le> sz; alloc_in_page pt1 b sz = Inr (pt', Some (a, b))\<rbrakk> \<Longrightarrow>
      alloc_from_page_table (ctx, pt) sz = Inr ((ctx1, pt'), Some (a, b))"
proof -
  have old: "local_buffer_page ctx = Some b0 \<Longrightarrow> \<exists>p0. page_slot pt b0 p0 \<and> fp_free p0 \<le> sz" for b0
    using wf miss by (auto simp: context_wf_def context_ok_def buffer_fits_def)
  show "alloc_from_page_table (ctx, pt) sz = Inr ((ctx, pt), None)"
    if "new_local_buffer (ctx, pt) = Inr ((ctx, pt), None)"
    using that old sz by (cases "local_buffer_page ctx") (auto simp: alloc_small_simps)
  show "alloc_from_page_table (ctx, pt) sz = Inr ((ctx1, pt'), Some (a, b))"
    if "new_local_buffer (ctx, pt) = Inr ((ctx1, pt1), Some b)" "page_slot pt1 b p"
      "\<not> fp_free p \<le> sz" "alloc_in_page pt1 b sz = Inr (pt', Some (a, b))"
    using that old sz by (cases "local_buffer_page ctx") (auto simp: alloc_small_simps)
qed

text \<open>
  What an allocation through a context does, on every branch: it hands out a fresh aligned block, or
  is full, which it can only be when little room is left: five base pages may be tied up in the two
  buffer pages.
\<close>

lemma large_alloc_spec:
  assumes wf: "context_wf (ctx, pt)" and sz: "8 dvd sz" and large: "max_object_size Small \<le> sz"
  obtains (full) "alloc_from_page_table (ctx, pt) sz = Inr ((ctx, pt), None)"
      "byte_room pt < sz + 4 * BASE_PAGE_SIZE"
  | (some) pt' a i where "alloc_from_page_table (ctx, pt) sz = Inr ((ctx, pt'), Some (a, i))"
      "context_wf (ctx, pt')" "fresh_block pt sz pt' a" "pt_grows pt pt'"
      "ctx_bytes (ctx, pt) \<le> ctx_bytes (ctx, pt') + 2 * sz"
proof -
  have pwf: "page_table_wf pt" and cok: "context_ok ctx pt"
    using wf by (simp_all add: context_wf_def)
  from pwf sz show thesis
  proof (cases rule: pt_alloc_spec)
    case full
    with large sz show thesis by (intro that(1)) (auto simp: alloc_small_simps)
  next
    case (some pt' a i)
    have "buffer_free pt' (local_buffer_page ctx) = buffer_free pt (local_buffer_page ctx)"
      using cok some(6) by (cases "local_buffer_page ctx") (auto simp: context_ok_def small_kept_def)
    with some(5) have "ctx_bytes (ctx, pt) \<le> ctx_bytes (ctx, pt') + 2 * sz" by (simp add: ctx_bytes_def)
    with some(1-4) large sz cok context_ok_grows show thesis
      by (intro that(2)[of pt' a i]) (auto simp: alloc_small_simps)
  qed
qed

lemma small_buffer_free_le:
  "context_ok ctx pt \<Longrightarrow> buffer_free pt (local_buffer_page ctx) \<le> BASE_PAGE_SIZE"
  by (cases "local_buffer_page ctx") (auto simp: context_ok_def fp_free_def fp_size_def)

lemma ctx_alloc_spec:
  assumes wf: "context_wf (ctx, pt)" and sz: "8 dvd sz"
  obtains (full) "alloc_from_page_table (ctx, pt) sz = Inr ((ctx, pt), None)"
      "ctx_bytes (ctx, pt) \<le> sz + 5 * BASE_PAGE_SIZE"
  | (some) ctx' pt' a i where "alloc_from_page_table (ctx, pt) sz = Inr ((ctx', pt'), Some (a, i))"
      "context_wf (ctx', pt')" "fresh_block pt sz pt' a" "pt_grows pt pt'"
      "ctx_bytes (ctx, pt) \<le> ctx_bytes (ctx', pt') + 2 * sz"
proof (cases "max_object_size Small \<le> sz")
  case True
  have "context_ok ctx pt" using wf by (simp add: context_wf_def)
  note le = small_buffer_free_le[OF this]
  from wf sz True show thesis
  proof (cases rule: large_alloc_spec)
    case full
    with le show thesis by (intro that(1)) (auto simp: ctx_bytes_def)
  qed (rule that(2))
next
  case False
  then have small: "sz < max_object_size Small" by simp
  show thesis
  proof (cases "buffer_fits ctx pt sz")
    case True
    with wf sz small show thesis
      by (rule small_alloc_hit) (rule that(2), auto)
  next
    case miss: False
    have pwf: "page_table_wf pt" and cok: "context_ok ctx pt" using wf by (simp_all add: context_wf_def)
    have rest: "buffer_free pt (local_buffer_page ctx) \<le> sz"
      using miss cok by (cases "local_buffer_page ctx") (fastforce simp: buffer_fits_def context_ok_def)+
    from pwf sz small show thesis
    proof (cases rule: small_alloc_fresh[of _ _ ctx])
      case full
      have "ctx_bytes (ctx, pt) \<le> sz + 5 * BASE_PAGE_SIZE"
        using full(2) rest medium_buffer_free_le[OF pwf] by (simp add: ctx_bytes_def byte_room_def)
      with small_alloc_miss(1)[OF wf sz small miss full(1)] show thesis by (rule that(1))
    next
      case (some ctx1 pt1 b p pt' a)
      have "ctx_bytes (ctx, pt) \<le> ctx_bytes (ctx1, pt') + 2 * sz"
        using some(12) rest by (simp add: ctx_bytes_def)
      with small_alloc_miss(2)[OF wf sz small miss] some show thesis
        by (intro that(2)[of ctx1 pt' a b]) (auto simp: context_wf_def)
    qed
  qed
qed

definition ctx_used :: "alloc_state \<Rightarrow> nat set" where
  "ctx_used = (\<lambda>(ctx, pt). used_addrs pt)"

definition ctx_room :: "alloc_state \<Rightarrow> nat" where
  "ctx_room s = ctx_bytes s - 5 * BASE_PAGE_SIZE"

definition ctx_base :: "alloc_state \<Rightarrow> nat" where
  "ctx_base = (\<lambda>(ctx, pt). base_addr pt)"

definition ctx_home :: "alloc_state \<Rightarrow> nat \<Rightarrow> nat \<Rightarrow> bool" where
  "ctx_home = (\<lambda>(ctx, pt). within_page pt)"

lemmas ctx_simps = ctx_used_def ctx_base_def ctx_home_def

interpretation ctx: allocator alloc_from_page_table context_wf ctx_used ctx_room alloc_need ctx_base
  ctx_home
proof unfold_locales
  fix s :: alloc_state and n :: nat
  obtain ctx pt where s: "s = (ctx, pt)" by (cases s)
  assume wf: "context_wf s" and n: "8 dvd n"
  from wf[unfolded s] n
  show "(\<exists>s'. alloc_from_page_table s n = Inr (s', None) \<and> context_wf s' \<and>
        ctx_used s' = ctx_used s \<and> ctx_base s' = ctx_base s \<and> ctx_room s < alloc_need n) \<or>
     (\<exists>s' a i. alloc_from_page_table s n = Inr (s', Some (a, i)) \<and> context_wf s' \<and>
        ctx_used s' = ctx_used s \<union> block a n \<and> ctx_used s \<inter> block a n = {} \<and>
        8 dvd a \<and> a \<noteq> 0 \<and> ctx_base s' = ctx_base s \<and>
        ctx_room s \<le> ctx_room s' + alloc_need n \<and>
        ctx_home s' a n \<and> (\<forall>b k. ctx_home s b k \<longrightarrow> ctx_home s' b k))"
  proof (cases rule: ctx_alloc_spec)
    case full
    then have "ctx_room s < alloc_need n" by (simp add: s ctx_room_def alloc_need_def)
    with full(1) wf show ?thesis by (auto simp: s)
  next
    case (some ctx' pt' a i)
    have "\<forall>b k. within_page pt b k \<longrightarrow> within_page pt' b k"
      using within_page_grows[of pt pt'] wf some(2,4) by (auto simp: s context_wf_def)
    moreover have "ctx_room s \<le> ctx_room (ctx', pt') + alloc_need n"
      using some(5) by (simp add: s ctx_room_def alloc_need_def)
    ultimately show ?thesis using some
      by (intro disjI2) (auto simp: s ctx_simps fresh_block_def pt_grows_def)
  qed
next
  fix s :: alloc_state
  assume "context_wf s"
  then show "ctx_used s \<subseteq> {ctx_base s..}"
    using used_addrs_in_space by (cases s) (fastforce simp: ctx_simps context_wf_def)
qed

text \<open>
  A context that has only served small objects in a fresh table hands out ascending addresses:
  its buffer page is the last page in use.
\<close>

definition small_frontier :: "alloc_state \<Rightarrow> bool" where
  "small_frontier = (\<lambda>(ctx, pt).
     case local_buffer_page ctx of
       None \<Rightarrow> current_base_page pt = 0
     | Some b \<Rightarrow> Suc b = current_base_page pt)"

lemma used_below_last_page:
  assumes wf: "page_table_wf pt" and p: "page_slot pt b p" "Suc b = current_base_page pt"
    and x: "x \<in> used_addrs pt"
  shows "x < fp_start p + fp_used p"
proof -
  obtain j q where q: "page_slot pt j q" "x \<in> fp_used_block q" using x by (auto simp: used_addrs_def)
  note okp = page_table_wfD(4)[OF wf p(1)] and okq = page_table_wfD(4)[OF wf q(1)]
  show ?thesis
  proof (cases "j = b")
    case True
    with p(1) q have "q = p" by (auto dest: page_slot_unique)
    with q(2) show ?thesis by (simp add: fp_used_block_def)
  next
    case False
    have "0 < fp_nr_pages q" using slot_okD(1)[OF okq] by (simp add: flex_page_wf_def)
    with slot_okD(4)[OF okq] p(2) False have "j < b" by simp
    with wf q(1) p(1) have "j + fp_nr_pages q \<le> b" by (intro slots_apart)
    then have "(j + fp_nr_pages q) * BASE_PAGE_SIZE \<le> b * BASE_PAGE_SIZE" by (rule mult_le_mono1)
    moreover have "x \<in> fp_span q" using q(2) fp_used_subset_span[OF slot_okD(1)[OF okq]] by blast
    ultimately have "x < base_addr pt + b * BASE_PAGE_SIZE" by (simp add: slot_span[OF okq] add_mult_distrib)
    then show ?thesis using slot_okD(3)[OF okp] by simp
  qed
qed

lemma small_alloc_ascends:
  assumes wf: "context_wf s" and fr: "small_frontier s" and n: "8 dvd n" "n < max_object_size Small"
    and al: "alloc_from_page_table s n = Inr (s', Some (a, i))"
  shows "small_frontier s' \<and> (\<forall>x \<in> ctx_used s. x < a)"
proof -
  obtain ctx pt where s: "s = (ctx, pt)" by (cases s)
  have pwf: "page_table_wf pt" using wf by (simp add: s context_wf_def)
  show ?thesis
  proof (cases "buffer_fits ctx pt n")
    case True
    then obtain b p where b: "local_buffer_page ctx = Some b" "page_slot pt b p" "\<not> fp_free p \<le> n"
      by (auto simp: buffer_fits_def)
    have "fp_kind p = Small" using wf b(1,2) by (auto simp: s context_wf_def context_ok_def dest: page_slot_unique)
    from pwf b(2) this b(3) n(1) obtain pt' a' where a': "alloc_in_page pt b n = Inr (pt', Some (a', b))"
      "current_base_page pt' = current_base_page pt" "a' = fp_start p + fp_used p"
      by (rule small_block)
    have "s' = (ctx, pt')" "a = a'"
      using al a'(1) b n by (auto simp: s alloc_small_simps)
    with used_below_last_page[OF pwf b(2)] a'(2,3) fr b(1) show ?thesis
      by (auto simp: s small_frontier_def ctx_simps)
  next
    case False
    from pwf n show ?thesis
    proof (cases rule: small_alloc_fresh[of _ _ ctx])
      case full
      with small_alloc_miss(1)[OF wf[unfolded s] n False] al show ?thesis by (simp add: s)
    next
      case (some ctx1 pt1 b p pt' a')
      with small_alloc_miss(2)[OF wf[unfolded s] n False some(1-4)] al used_addrs_in_space[OF pwf]
      show ?thesis by (fastforce simp: s small_frontier_def ctx_simps)
    qed
  qed
qed

lemma context_wf_fresh: "page_table_wf pt \<Longrightarrow> context_wf (mm_context_new, pt)"
  by (simp add: context_wf_def)

text \<open>The room of a space of \<open>n\<close> base pages nothing has been allocated in.\<close>

definition fresh_room :: "nat \<Rightarrow> nat" where
  "fresh_room n = (n - 5) * BASE_PAGE_SIZE"

lemma ctx_room_fresh:
  "current_base_page pt = 0 \<Longrightarrow> medium_buffer_page pt = None \<Longrightarrow>
   ctx_room (mm_context_new, pt) = fresh_room (pt_nr_pages pt)"
  by (simp add: ctx_room_def ctx_bytes_def byte_room_def free_pages_def fresh_room_def diff_mult_distrib)

section \<open>Properties\<close>

text \<open>A concrete context for the witnesses: nothing allocated yet in a space of 16 base pages.\<close>

definition sample_state :: alloc_state where
  "sample_state = (mm_context_new, page_table_new BASE_PAGE_SIZE 16)"

lemma sample_state_wf: "context_wf sample_state"
  unfolding sample_state_def
  by (rule context_wf_fresh, rule page_table_new_wf) (simp_all add: BASE_PAGE_SIZE_def)

text \<open>
  C11: Whatever sequence of sizes a context allocates (small, medium and huge mixed, with buffer
  pages replaced on the way), the blocks it gets are aligned, of the sizes asked for, disjoint from
  each other and from everything allocated before, and the invariant of table and context holds
  afterwards.
\<close>

theorem context_allocations_disjoint:
  assumes "context_wf s" "\<forall>n \<in> set ns. 8 dvd n" "alloc_seq alloc_from_page_table s ns = Inr (s', bs)"
  shows "context_wf s' \<and> map snd bs = ns \<and> ctx_used s' = ctx_used s \<union> blocks bs \<and>
    ctx_used s \<inter> blocks bs = {} \<and> disjoint_blocks bs \<and> (\<forall>(a, _) \<in> set bs. 8 dvd a \<and> a \<noteq> 0)"
  using assms by (rule ctx.alloc_seq_sound)

theorem context_allocations_disjoint_witness:
  "\<exists>s' bs. alloc_seq alloc_from_page_table sample_state [16, 2097152 div 4, 24, 4194304] = Inr (s', bs) \<and>
     disjoint_blocks bs"
proof -
  have "\<forall>n \<in> set [16, 2097152 div 4, 24, 4194304 :: nat]. 8 dvd n" by simp
  moreover from this have "\<exists>s' bs. alloc_seq alloc_from_page_table sample_state
      [16, 2097152 div 4, 24, 4194304] = Inr (s', bs)"
    by (rule ctx.alloc_seq_total[OF sample_state_wf])
      (simp add: sample_state_def ctx_room_fresh fresh_room_def page_table_new_def alloc_need_def BASE_PAGE_SIZE_def)
  ultimately show ?thesis using context_allocations_disjoint[OF sample_state_wf] by blast
qed

text \<open>
  C19: Allocation is total up to half of the capacity: in a fresh space of \<open>n\<close> base pages, every
  sequence of aligned sizes whose doubles, with one byte more for each, add up to at most the bytes of
  the space less five base pages, is served completely, without a panic: what is lost at the ends of
  buffer pages that are given up, and in the last page of a huge object, is never more than what is
  handed out. Sequences that merely fit into the space are not covered; they may fail for what is lost
  there.
\<close>

theorem context_allocations_total:
  assumes "0 < base" "8 dvd base" "base + n * BASE_PAGE_SIZE < 2 ^ 64"
    and "\<forall>sz \<in> set ns. 8 dvd sz" "(\<Sum>sz \<leftarrow> ns. 2 * sz + 1) \<le> (n - 5) * BASE_PAGE_SIZE"
  shows "\<exists>s' bs. alloc_seq alloc_from_page_table (mm_context_new, page_table_new base n) ns = Inr (s', bs)"
proof (rule ctx.alloc_seq_total[OF context_wf_fresh[OF page_table_new_wf(1)[OF assms(1-3)]] assms(4)])
  show "sum_list (map alloc_need ns) \<le> ctx_room (mm_context_new, page_table_new base n)"
    using assms(5) by (simp add: ctx_room_fresh fresh_room_def page_table_new_def alloc_need_def cong: map_cong)
qed

theorem context_allocations_total_witness:
  "\<exists>s' bs. alloc_seq alloc_from_page_table (mm_context_new, page_table_new 2097152 6) [16, 262144, 48] = Inr (s', bs)"
  by (rule context_allocations_total) (simp_all add: BASE_PAGE_SIZE_def)

text \<open>
  C21: The only panic of an allocation is the alignment assertion: it fires exactly for the sizes
  that are not a multiple of 8, and no index, \<open>unwrap\<close> or inner assertion of the small, medium and
  huge paths can fail.
\<close>

theorem alloc_panics_only_misaligned:
  assumes "context_wf s"
  shows "(\<not> 8 dvd sz \<and> alloc_from_page_table s sz = Inl Assert_Failed) \<or>
    (8 dvd sz \<and> ok (alloc_from_page_table s sz))"
proof (cases "8 dvd sz")
  case False
  then show ?thesis by (cases s) (simp add: alloc_from_page_table_def)
qed (simp add: ctx.alloc_no_panic[OF assms])

theorem alloc_panics_only_misaligned_witness:
  "\<not> ok (alloc_from_page_table sample_state 20)"
  using alloc_panics_only_misaligned[OF sample_state_wf, of 20] by auto

end
