(* ===== verification/Relocation_Map.thy ===== *)
theory Relocation_Map
  imports Prelude "HOL-Library.Multiset"
begin

text \<open>
  \<open>uwugc/src/gc/relocation_map.rs\<close>: the registry of where each live object moves to. The builder
  collects records, \<open>freeze\<close> sorts the copy that is searched by source, and the frozen registry
  answers queries with the standard library's binary search, modelled with the probes that
  \<open>slice::binary_search_by\<close> makes. The lemmas show the search correct on a chain of non-overlapping
  ranges; \<open>lookup_src\<close> is the reference definition (a linear search over what was inserted).
\<close>

section \<open>Records\<close>

record reloc_record =
  rr_src :: nat
  rr_dest :: nat
  rr_size :: nat

type_synonym range = "nat \<times> nat"

definition in_range :: "range \<Rightarrow> nat \<Rightarrow> bool" where
  "in_range r p \<longleftrightarrow> fst r \<le> p \<and> p < snd r"

definition get_dest_range :: "reloc_record \<Rightarrow> range" where
  "get_dest_range r = (rr_dest r, rr_dest r + rr_size r)"

definition get_src_range :: "reloc_record \<Rightarrow> range" where
  "get_src_range r = (rr_src r, rr_src r + rr_size r)"

definition record_map_src_to_dest :: "reloc_record \<Rightarrow> nat \<Rightarrow> nat res" where
  "record_map_src_to_dest r ptr =
     assert_then (in_range (get_src_range r) ptr)
       (bind_res (usub ptr (rr_src r)) (\<lambda>off. Inr (rr_dest r + off)))"

section \<open>The registry\<close>

record frozen_registry =
  records_sorted_by_src :: "reloc_record list"
  records_sorted_by_dest :: "reloc_record list"
  starting_src :: "nat option"
  starting_dest :: "nat option"
  latest_free_src :: "nat option"
  latest_free_dest :: "nat option"

record registry_builder =
  rb_data :: frozen_registry

definition builder_new :: registry_builder where
  "builder_new =
     \<lparr>rb_data = \<lparr>records_sorted_by_src = [], records_sorted_by_dest = [],
        starting_src = None, starting_dest = None,
        latest_free_src = None, latest_free_dest = None\<rparr>\<rparr>"

definition latest_free :: "nat option \<Rightarrow> range \<Rightarrow> nat option" where
  "latest_free cur r =
     (case cur of
        Some x \<Rightarrow> if x \<le> fst r then Some (snd r) else cur
      | None \<Rightarrow> Some (snd r))"

definition builder_insert :: "registry_builder \<Rightarrow> reloc_record \<Rightarrow> registry_builder" where
  "builder_insert b r =
     (let d = rb_data b in
      \<lparr>rb_data =
        \<lparr>records_sorted_by_src = records_sorted_by_src d @ [r],
         records_sorted_by_dest = records_sorted_by_dest d @ [r],
         starting_src = (if starting_src d = None then Some (fst (get_src_range r)) else starting_src d),
         starting_dest = (if starting_dest d = None then Some (fst (get_dest_range r)) else starting_dest d),
         latest_free_src = latest_free (latest_free_src d) (get_src_range r),
         latest_free_dest = latest_free (latest_free_dest d) (get_dest_range r)\<rparr>\<rparr>)"

definition builder_freeze :: "registry_builder \<Rightarrow> frozen_registry" where
  "builder_freeze b =
     (rb_data b)\<lparr>records_sorted_by_src := sort_key rr_src (records_sorted_by_src (rb_data b))\<rparr>"

definition registry_unfreeze :: "frozen_registry \<Rightarrow> registry_builder" where
  "registry_unfreeze f =
     \<lparr>rb_data = f\<lparr>latest_free_dest := None, latest_free_src := None, starting_src := None,
        starting_dest := None, records_sorted_by_dest := [], records_sorted_by_src := []\<rparr>\<rparr>"

section \<open>Binary search\<close>

text \<open>
  \<open>slice::binary_search_by\<close>: halve the window until one element is left, moving the base up
  unless the probe is \<open>Greater\<close>; then one last comparison. \<open>Inr\<close> is \<open>Ok(index)\<close>, \<open>Inl\<close> is
  \<open>Err(insertion point)\<close>. The comparison may panic.
\<close>

datatype ordering = Less | Equal | Greater

function bsearch_loop :: "('a \<Rightarrow> ordering res) \<Rightarrow> 'a list \<Rightarrow> nat \<Rightarrow> nat \<Rightarrow> nat res" where
  "bsearch_loop f xs base n =
     (if n \<le> 1 then Inr base
      else
        let half = n div 2; mid = base + half in
        bind_res (index xs mid) (\<lambda>x.
        bind_res (f x) (\<lambda>c.
          bsearch_loop f xs (if c = Greater then base else mid) (n - half))))"
  by pat_completeness auto
termination
  by (relation "measure (\<lambda>(f, xs, base, n). n)") auto

declare bsearch_loop.simps [simp del]

definition binary_search_by :: "('a \<Rightarrow> ordering res) \<Rightarrow> 'a list \<Rightarrow> (nat + nat) res" where
  "binary_search_by f xs =
     (if xs = [] then Inr (Inl 0)
      else
        bind_res (bsearch_loop f xs 0 (length xs)) (\<lambda>base.
        bind_res (index xs base) (\<lambda>x.
        bind_res (f x) (\<lambda>c.
          if c = Equal then Inr (Inr base)
          else Inr (Inl (base + (if c = Less then 1 else 0)))))))"

section \<open>Queries\<close>

definition range_cmp :: "(reloc_record \<Rightarrow> range) \<Rightarrow> nat \<Rightarrow> reloc_record \<Rightarrow> ordering res" where
  "range_cmp extractor start probe =
     (let probe_range = extractor probe in
      if in_range probe_range start then Inr Equal
      else if snd probe_range \<le> start then Inr Less
      else if start < fst probe_range then Inr Greater
      else Inl Unimplemented)"

definition iterate_records_in_range_by ::
    "reloc_record list \<Rightarrow> (reloc_record \<Rightarrow> range) \<Rightarrow> range \<Rightarrow> reloc_record list res" where
  "iterate_records_in_range_by vec extractor r =
     bind_res (binary_search_by (range_cmp extractor (fst r)) vec) (\<lambda>found.
       Inr (case found of
              Inl _ \<Rightarrow> []
            | Inr start_idx \<Rightarrow>
                takeWhile (\<lambda>rec. fst (extractor rec) < snd r) (drop start_idx vec)))"

definition iterate_records_in_dest_range :: "frozen_registry \<Rightarrow> range \<Rightarrow> reloc_record list res" where
  "iterate_records_in_dest_range f dest =
     iterate_records_in_range_by (records_sorted_by_dest f) get_dest_range dest"

definition iterate_records_in_src_range :: "frozen_registry \<Rightarrow> range \<Rightarrow> reloc_record list res" where
  "iterate_records_in_src_range f src =
     iterate_records_in_range_by (records_sorted_by_src f) get_src_range src"

definition find_record_for_containing_src :: "frozen_registry \<Rightarrow> nat \<Rightarrow> reloc_record option res" where
  "find_record_for_containing_src f src_ptr =
     bind_res (iterate_records_in_src_range f (src_ptr, src_ptr + 1)) (\<lambda>rs.
       Inr (case rs of [] \<Rightarrow> None | r # _ \<Rightarrow> Some r))"

definition map_src_to_dest :: "frozen_registry \<Rightarrow> nat \<Rightarrow> nat option res" where
  "map_src_to_dest f ptr =
     bind_res (find_record_for_containing_src f ptr) (\<lambda>found.
       case found of
         None \<Rightarrow> Inr None
       | Some rec \<Rightarrow> bind_res (record_map_src_to_dest rec ptr) (\<lambda>d. Inr (Some d)))"

section \<open>The search is correct on monotone comparisons\<close>

fun ord_le :: "ordering \<Rightarrow> ordering \<Rightarrow> bool" where
  "ord_le Less _ = True"
| "ord_le Equal c = (c \<noteq> Less)"
| "ord_le Greater c = (c = Greater)"

text \<open>The boundary the loop looks for: the last element that is not \<open>Greater\<close>.\<close>

definition boundary :: "('a \<Rightarrow> ordering) \<Rightarrow> 'a list \<Rightarrow> nat \<Rightarrow> bool" where
  "boundary g xs b \<longleftrightarrow>
     b < length xs \<and> (b = 0 \<or> g (xs ! b) \<noteq> Greater) \<and>
     (\<forall>k. b < k \<and> k < length xs \<longrightarrow> g (xs ! k) = Greater)"

lemma greater_above:
  assumes "sorted_wrt (\<lambda>x y. ord_le (g x) (g y)) xs" "g (xs ! m) = Greater" "m \<le> k" "k < length xs"
  shows "g (xs ! k) = Greater"
  using assms sorted_wrt_nth_less[OF assms(1), of m k] by (cases "m = k") auto

lemma bsearch_loop_boundary:
  assumes "\<And>x. x \<in> set xs \<Longrightarrow> f x = Inr (g x)"
    and mono: "sorted_wrt (\<lambda>x y. ord_le (g x) (g y)) xs"
  shows "\<lbrakk>0 < n; base + n \<le> length xs; base = 0 \<or> g (xs ! base) \<noteq> Greater;
    \<forall>k. base + n \<le> k \<and> k < length xs \<longrightarrow> g (xs ! k) = Greater\<rbrakk> \<Longrightarrow>
    \<exists>b. bsearch_loop f xs base n = Inr b \<and> boundary g xs b"
proof (induction n arbitrary: base rule: less_induct)
  case (less n)
  show ?case
  proof (cases "n \<le> 1")
    case True
    with less.prems show ?thesis
      by (subst bsearch_loop.simps) (auto simp: boundary_def)
  next
    case False
    let ?mid = "base + n div 2" and ?n = "n - n div 2"
    let ?base = "if g (xs ! ?mid) = Greater then base else ?mid"
    have mid: "?mid < length xs" using False less.prems by auto
    have "\<exists>b. bsearch_loop f xs ?base ?n = Inr b \<and> boundary g xs b"
    proof (rule less.IH)
      show "?n < n" "0 < ?n" using False by auto
      show "?base + ?n \<le> length xs" using less.prems by auto
      show "?base = 0 \<or> g (xs ! ?base) \<noteq> Greater" using less.prems by auto
      show "\<forall>k. ?base + ?n \<le> k \<and> k < length xs \<longrightarrow> g (xs ! k) = Greater"
        using less.prems greater_above[OF mono, of ?mid] by auto
    qed
    then show ?thesis
      using False mid assms(1)[OF nth_mem[OF mid]] by (subst bsearch_loop.simps) (simp add: Let_def)
  qed
qed

lemma binary_search_by_spec:
  assumes f: "\<And>x. x \<in> set xs \<Longrightarrow> f x = Inr (g x)"
    and mono: "sorted_wrt (\<lambda>x y. ord_le (g x) (g y)) xs"
  obtains (found) i where "binary_search_by f xs = Inr (Inr i)" "i < length xs" "g (xs ! i) = Equal"
  | (missing) i where "binary_search_by f xs = Inr (Inl i)" "\<forall>x \<in> set xs. g x \<noteq> Equal"
proof (cases "xs = []")
  case True
  then show thesis using missing by (simp add: binary_search_by_def)
next
  case False
  have "\<exists>b. bsearch_loop f xs 0 (length xs) = Inr b \<and> boundary g xs b"
    by (rule bsearch_loop_boundary[OF f mono]) (use False in auto)
  then obtain b where b: "bsearch_loop f xs 0 (length xs) = Inr b" "boundary g xs b" by blast
  have len: "b < length xs" using b(2) by (simp add: boundary_def)
  have eq: "binary_search_by f xs = (if g (xs ! b) = Equal then Inr (Inr b)
      else Inr (Inl (b + (if g (xs ! b) = Less then 1 else 0))))"
    using False b(1) len f[OF nth_mem[OF len]] by (simp add: binary_search_by_def)
  show thesis
  proof (cases "g (xs ! b) = Equal")
    case True
    with eq len show thesis by (intro found) auto
  next
    case ne: False
    have "g (xs ! k) \<noteq> Equal" if k: "k < length xs" for k
    proof (cases k b rule: linorder_cases)
      case less
      with sorted_wrt_nth_less[OF mono less len] ne b(2) show ?thesis
        by (cases "g (xs ! b)") (auto simp: boundary_def)
    next
      case equal
      with ne show ?thesis by simp
    next
      case greater
      with b(2) k show ?thesis by (simp add: boundary_def)
    qed
    then have "\<forall>x \<in> set xs. g x \<noteq> Equal" by (auto simp: in_set_conv_nth)
    with eq ne show thesis by (intro missing) auto
  qed
qed

section \<open>Chains of ranges\<close>

text \<open>A list of records whose ranges (under an extractor) are non-empty and follow one another.\<close>

definition chain :: "(reloc_record \<Rightarrow> range) \<Rightarrow> reloc_record list \<Rightarrow> bool" where
  "chain ext xs \<longleftrightarrow>
     (\<forall>r \<in> set xs. fst (ext r) < snd (ext r)) \<and> sorted_wrt (\<lambda>r q. snd (ext r) \<le> fst (ext q)) xs"

definition overlaps :: "range \<Rightarrow> range \<Rightarrow> bool" where
  "overlaps r q \<longleftrightarrow> fst r < snd q \<and> fst q < snd r"

definition range_ord :: "(reloc_record \<Rightarrow> range) \<Rightarrow> nat \<Rightarrow> reloc_record \<Rightarrow> ordering" where
  "range_ord ext s r =
     (if in_range (ext r) s then Equal else if snd (ext r) \<le> s then Less else Greater)"

text \<open>The \<open>unimplemented!\<close> branch of the comparison is dead: the first three are exhaustive.\<close>

lemma range_cmp_total: "range_cmp ext s r = Inr (range_ord ext s r)"
  by (auto simp: range_cmp_def range_ord_def Let_def in_range_def)

lemma range_ord_Equal: "range_ord ext s r = Equal \<longleftrightarrow> in_range (ext r) s"
  by (simp add: range_ord_def)

lemma chain_monotone:
  assumes "chain ext xs"
  shows "sorted_wrt (\<lambda>x y. ord_le (range_ord ext s x) (range_ord ext s y)) xs"
proof -
  have "sorted_wrt (\<lambda>r q. snd (ext r) \<le> fst (ext q)) xs" using assms by (simp add: chain_def)
  then show ?thesis
  proof (rule sorted_wrt_mono_rel[rotated])
    fix r q assume "r \<in> set xs" "q \<in> set xs" "snd (ext r) \<le> fst (ext q)"
    moreover from this assms have "fst (ext r) < snd (ext r)" "fst (ext q) < snd (ext q)"
      by (auto simp: chain_def)
    ultimately show "ord_le (range_ord ext s r) (range_ord ext s q)"
      by (auto simp: range_ord_def in_range_def)
  qed
qed

lemma chain_Cons:
  "chain ext (r # rs) \<longleftrightarrow>
     fst (ext r) < snd (ext r) \<and> (\<forall>q \<in> set rs. snd (ext r) \<le> fst (ext q)) \<and> chain ext rs"
  by (auto simp: chain_def)

lemma chain_append:
  "chain ext (xs @ ys) \<longleftrightarrow>
     chain ext xs \<and> chain ext ys \<and> (\<forall>r \<in> set xs. \<forall>q \<in> set ys. snd (ext r) \<le> fst (ext q))"
  by (auto simp: chain_def sorted_wrt_append)

lemma takeWhile_chain:
  "chain ext xs \<Longrightarrow> takeWhile (\<lambda>r. fst (ext r) < hi) xs = filter (\<lambda>r. fst (ext r) < hi) xs"
proof (induction xs)
  case (Cons r rs)
  show ?case
  proof (cases "fst (ext r) < hi")
    case False
    then have "\<forall>q \<in> set rs. \<not> fst (ext q) < hi"
      using Cons.prems by (fastforce simp: chain_Cons)
    with False show ?thesis by simp
  qed (use Cons in \<open>simp add: chain_Cons\<close>)
qed simp

text \<open>What a range query returns on a chain: the overlapping records, if the start is in one.\<close>

lemma iterate_found:
  assumes ch: "chain ext xs" and hit: "r \<in> set xs" "in_range (ext r) lo" and "lo < hi"
  shows "iterate_records_in_range_by xs ext (lo, hi) = Inr (filter (\<lambda>r. overlaps (ext r) (lo, hi)) xs)"
proof -
  have cmp: "range_cmp ext lo x = Inr (range_ord ext lo x)" for x by (rule range_cmp_total)
  from cmp chain_monotone[OF ch] show ?thesis
  proof (cases rule: binary_search_by_spec)
    case (found i)
    let ?pre = "take i xs" and ?post = "drop i xs"
    have split: "chain ext (?pre @ ?post)" using ch by simp
    have at: "in_range (ext (xs ! i)) lo" using found(3) by (simp add: range_ord_Equal)
    have post: "?post = xs ! i # drop (Suc i) xs" using found(2) by (simp add: Cons_nth_drop_Suc)
    have "snd (ext q) \<le> lo" if "q \<in> set ?pre" for q
      using split that at post by (force simp: chain_append in_range_def)
    then have "filter (\<lambda>r. overlaps (ext r) (lo, hi)) ?pre = []"
      by (fastforce simp: filter_empty_conv overlaps_def)
    moreover have "filter (\<lambda>r. overlaps (ext r) (lo, hi)) ?post = filter (\<lambda>r. fst (ext r) < hi) ?post"
    proof (rule filter_cong[OF refl])
      fix q assume q: "q \<in> set ?post"
      have ch': "chain ext (xs ! i # drop (Suc i) xs)" using split post by (simp add: chain_append)
      have "lo < snd (ext q)"
      proof (cases "q = xs ! i")
        case True
        with at show ?thesis by (simp add: in_range_def)
      next
        case False
        with q post have "q \<in> set (drop (Suc i) xs)" by auto
        with ch' at show ?thesis by (force simp: chain_Cons in_range_def chain_def)
      qed
      then show "overlaps (ext q) (lo, hi) = (fst (ext q) < hi)" by (auto simp: overlaps_def)
    qed
    moreover have "takeWhile (\<lambda>r. fst (ext r) < hi) ?post = filter (\<lambda>r. fst (ext r) < hi) ?post"
      using split unfolding chain_append by (blast intro: takeWhile_chain)
    moreover have "filter P xs = filter P ?pre @ filter P ?post" for P
      by (simp flip: filter_append)
    ultimately show ?thesis
      using found(1) by (simp add: iterate_records_in_range_by_def)
  next
    case (missing i)
    with hit have False by (auto simp: range_ord_Equal)
    then show ?thesis ..
  qed
qed

lemma iterate_missing:
  assumes ch: "chain ext xs" and miss: "\<forall>r \<in> set xs. \<not> in_range (ext r) lo"
  shows "iterate_records_in_range_by xs ext (lo, hi) = Inr []"
proof -
  have cmp: "range_cmp ext lo x = Inr (range_ord ext lo x)" for x by (rule range_cmp_total)
  from cmp chain_monotone[OF ch] show ?thesis
  proof (cases rule: binary_search_by_spec)
    case (found i)
    with miss show ?thesis by (auto simp: range_ord_Equal)
  next
    case (missing i)
    then show ?thesis by (simp add: iterate_records_in_range_by_def)
  qed
qed

section \<open>Registries built from a list of records\<close>

definition insert_all :: "registry_builder \<Rightarrow> reloc_record list \<Rightarrow> registry_builder" where
  "insert_all b rs = foldl builder_insert b rs"

lemma insert_all_records:
  "records_sorted_by_src (rb_data (insert_all b rs)) = records_sorted_by_src (rb_data b) @ rs"
  "records_sorted_by_dest (rb_data (insert_all b rs)) = records_sorted_by_dest (rb_data b) @ rs"
  by (induction rs arbitrary: b) (simp_all add: insert_all_def builder_insert_def Let_def)

lemma builder_new_records [simp]:
  "records_sorted_by_src (rb_data builder_new) = []"
  "records_sorted_by_dest (rb_data builder_new) = []"
  by (simp_all add: builder_new_def)

lemma freeze_records:
  "records_sorted_by_src (builder_freeze (insert_all builder_new rs)) = sort_key rr_src rs"
  "records_sorted_by_dest (builder_freeze (insert_all builder_new rs)) = rs"
  by (simp_all add: builder_freeze_def insert_all_records)

text \<open>Non-empty records whose ranges are pairwise disjoint.\<close>

definition disjoint_records :: "(reloc_record \<Rightarrow> range) \<Rightarrow> reloc_record list \<Rightarrow> bool" where
  "disjoint_records ext rs \<longleftrightarrow>
     (\<forall>r \<in> set rs. fst (ext r) < snd (ext r)) \<and>
     sorted_wrt (\<lambda>r q. \<not> overlaps (ext r) (ext q)) rs"

lemma overlaps_sym: "overlaps r q \<longleftrightarrow> overlaps q r"
  by (auto simp: overlaps_def)

lemma disjoint_records_mset:
  assumes "mset xs = mset ys" "disjoint_records ext xs"
  shows "disjoint_records ext ys"
proof -
  have "disjoint_records ext zs \<longleftrightarrow>
      (\<forall>r \<in># mset zs. fst (ext r) < snd (ext r)) \<and>
      (\<forall>r \<in># mset zs. \<forall>q \<in># mset zs - {#r#}. \<not> overlaps (ext r) (ext q))" for zs
  proof (induction zs)
    case Nil
    then show ?case by (simp add: disjoint_records_def)
  next
    case (Cons z zs)
    have "disjoint_records ext (z # zs) \<longleftrightarrow> fst (ext z) < snd (ext z) \<and>
        (\<forall>q \<in> set zs. \<not> overlaps (ext z) (ext q)) \<and> disjoint_records ext zs"
      by (auto simp: disjoint_records_def)
    moreover have "(\<forall>r \<in># mset (z # zs). \<forall>q \<in># mset (z # zs) - {#r#}. \<not> overlaps (ext r) (ext q)) \<longleftrightarrow>
        (\<forall>q \<in> set zs. \<not> overlaps (ext z) (ext q)) \<and>
        (\<forall>r \<in># mset zs. \<forall>q \<in># mset zs - {#r#}. \<not> overlaps (ext r) (ext q))"
      by (auto simp: overlaps_sym add_mset_remove_trivial_If insert_DiffM)
    ultimately show ?case using Cons.IH by auto
  qed
  with assms show ?thesis by simp
qed

lemma disjoint_sorted_chain:
  assumes "disjoint_records ext rs" "sorted (map (\<lambda>r. fst (ext r)) rs)"
  shows "chain ext rs"
  using assms by (induction rs) (fastforce simp: disjoint_records_def chain_Cons overlaps_def chain_def)+

lemma sort_src_chain:
  assumes "disjoint_records get_src_range rs"
  shows "chain get_src_range (sort_key rr_src rs)"
proof (rule disjoint_sorted_chain)
  show "disjoint_records get_src_range (sort_key rr_src rs)"
    using assms by (rule disjoint_records_mset[rotated]) simp
  show "sorted (map (\<lambda>r. fst (get_src_range r)) (sort_key rr_src rs))"
    by (simp add: get_src_range_def)
qed

text \<open>The reference: the record of the list that contains an address, by linear search.\<close>

definition lookup_src :: "reloc_record list \<Rightarrow> nat \<Rightarrow> nat option" where
  "lookup_src rs ptr =
     map_option (\<lambda>r. rr_dest r + (ptr - rr_src r)) (find (\<lambda>r. in_range (get_src_range r) ptr) rs)"

lemma record_map_in:
  "in_range (get_src_range r) ptr \<Longrightarrow>
   record_map_src_to_dest r ptr = Inr (rr_dest r + (ptr - rr_src r))"
  by (simp add: record_map_src_to_dest_def) (simp add: in_range_def get_src_range_def)

lemma disjoint_in_unique:
  assumes "disjoint_records ext rs" "r \<in> set rs" "q \<in> set rs"
    "in_range (ext r) p" "in_range (ext q) p"
  shows "r = q"
proof (rule ccontr)
  assume "r \<noteq> q"
  moreover obtain i j where "i < length rs" "rs ! i = r" "j < length rs" "rs ! j = q"
    using assms(2,3) by (metis in_set_conv_nth)
  ultimately have "\<not> overlaps (ext r) (ext q)"
    using assms(1) overlaps_sym unfolding disjoint_records_def sorted_wrt_iff_nth_less
    by (metis linorder_neqE_nat)
  with assms(4,5) show False by (auto simp: overlaps_def in_range_def)
qed

lemma chain_disjoint: "chain ext rs \<Longrightarrow> disjoint_records ext rs"
  by (induction rs) (force simp: chain_Cons disjoint_records_def overlaps_def chain_def)+

lemma overlaps_unit: "overlaps r (p, p + 1) = in_range r p"
  by (auto simp: overlaps_def in_range_def)

lemma map_src_to_dest_hit:
  assumes ch: "chain get_src_range (records_sorted_by_src f)"
    and r: "r \<in> set (records_sorted_by_src f)" "in_range (get_src_range r) ptr"
  shows "map_src_to_dest f ptr = Inr (Some (rr_dest r + (ptr - rr_src r)))"
proof -
  let ?vec = "records_sorted_by_src f"
  have dj: "disjoint_records get_src_range ?vec" using ch by (rule chain_disjoint)
  have "filter (\<lambda>q. overlaps (get_src_range q) (ptr, ptr + 1)) ?vec = filter (\<lambda>q. q = r) ?vec"
  proof (rule filter_cong[OF refl])
    fix q assume "q \<in> set ?vec"
    with disjoint_in_unique[OF dj _ r(1) _ r(2)] r(2)
    show "overlaps (get_src_range q) (ptr, ptr + 1) = (q = r)"
      unfolding overlaps_unit by blast
  qed
  moreover obtain rest where "filter (\<lambda>q. q = r) ?vec = r # rest"
  proof (cases "filter (\<lambda>q. q = r) ?vec")
    case Nil
    with r(1) show thesis by (auto simp: filter_empty_conv)
  next
    case (Cons q qs)
    have "q \<in> set (filter (\<lambda>q. q = r) ?vec)" unfolding Cons by simp
    then have "q = r" by simp
    with Cons show thesis using that by simp
  qed
  ultimately have "iterate_records_in_src_range f (ptr, ptr + 1) = Inr (r # rest)"
    using iterate_found[OF ch r, of "ptr + 1"] by (simp add: iterate_records_in_src_range_def)
  then show ?thesis
    using r(2) by (simp add: map_src_to_dest_def find_record_for_containing_src_def record_map_in)
qed

lemma map_src_to_dest_miss:
  assumes "chain get_src_range (records_sorted_by_src f)"
    and "\<forall>r \<in> set (records_sorted_by_src f). \<not> in_range (get_src_range r) ptr"
  shows "map_src_to_dest f ptr = Inr None"
  using iterate_missing[OF assms, of "ptr + 1"]
  by (simp add: map_src_to_dest_def find_record_for_containing_src_def iterate_records_in_src_range_def)

lemma map_src_to_dest_lookup:
  assumes "disjoint_records get_src_range rs"
  shows "map_src_to_dest (builder_freeze (insert_all builder_new rs)) ptr = Inr (lookup_src rs ptr)"
proof (cases "find (\<lambda>r. in_range (get_src_range r) ptr) rs")
  case None
  then show ?thesis
    using map_src_to_dest_miss[of "builder_freeze (insert_all builder_new rs)" ptr] sort_src_chain[OF assms]
    by (simp add: freeze_records lookup_src_def find_None_iff)
next
  case (Some r)
  then have "r \<in> set rs" "in_range (get_src_range r) ptr" by (auto simp: find_Some_iff)
  then show ?thesis
    using map_src_to_dest_hit[of "builder_freeze (insert_all builder_new rs)" r ptr]
      sort_src_chain[OF assms] Some by (simp add: freeze_records lookup_src_def)
qed

section \<open>Properties\<close>

text \<open>
  C12: The frozen registry answers every address query as the reference does. For records inserted
  in any order whose source ranges are non-empty and disjoint, \<open>map_src_to_dest\<close> (sort, binary
  search and translation) agrees with the linear search over the inserted records on every
  address, inner addresses and misses included, and never panics.
\<close>

theorem map_src_to_dest_correct:
  assumes "disjoint_records get_src_range rs"
  shows "map_src_to_dest (builder_freeze (insert_all builder_new rs)) ptr = Inr (lookup_src rs ptr)"
  using assms by (rule map_src_to_dest_lookup)

theorem map_src_to_dest_correct_witness:
  "map_src_to_dest (builder_freeze (insert_all builder_new
      [\<lparr>rr_src = 64, rr_dest = 0, rr_size = 16\<rparr>, \<lparr>rr_src = 0, rr_dest = 16, rr_size = 32\<rparr>])) 24 =
    Inr (Some 40)"
  by (subst map_src_to_dest_correct)
    (simp_all add: disjoint_records_def overlaps_def get_src_range_def lookup_src_def in_range_def)

text \<open>
  Relocation is injective. When the destination ranges of the inserted records are disjoint as
  well, two different addresses inside relocated objects never map to the same address.
\<close>

theorem map_src_to_dest_injective:
  assumes "disjoint_records get_src_range rs" "disjoint_records get_dest_range rs"
    and "map_src_to_dest (builder_freeze (insert_all builder_new rs)) p = Inr (Some d)"
    and "map_src_to_dest (builder_freeze (insert_all builder_new rs)) q = Inr (Some d)"
  shows "p = q"
proof -
  have rec: "\<exists>r \<in> set rs. in_range (get_src_range r) x \<and> d = rr_dest r + (x - rr_src r) \<and>
      in_range (get_dest_range r) d"
    if "lookup_src rs x = Some d" for x
    using that by (auto simp: lookup_src_def find_Some_iff in_range_def get_src_range_def
        get_dest_range_def)
  have "lookup_src rs p = Some d" "lookup_src rs q = Some d"
    using assms by (simp_all add: map_src_to_dest_lookup)
  then obtain r r' where r: "r \<in> set rs" "in_range (get_src_range r) p" "d = rr_dest r + (p - rr_src r)"
      "in_range (get_dest_range r) d"
    and r': "r' \<in> set rs" "in_range (get_src_range r') q" "d = rr_dest r' + (q - rr_src r')"
      "in_range (get_dest_range r') d"
    using rec by metis
  have "r = r'" using disjoint_in_unique[OF assms(2) r(1) r'(1) r(4) r'(4)] .
  then have "rr_src r \<le> p" "rr_src r \<le> q" using r(2) r'(2) by (simp_all add: in_range_def get_src_range_def)
  moreover have "d = rr_dest r + (q - rr_src r)" using r'(3) \<open>r = r'\<close> by simp
  ultimately show ?thesis using r(3) by linarith
qed

theorem map_src_to_dest_injective_witness:
  "map_src_to_dest (builder_freeze (insert_all builder_new
      [\<lparr>rr_src = 64, rr_dest = 0, rr_size = 16\<rparr>, \<lparr>rr_src = 0, rr_dest = 16, rr_size = 32\<rparr>])) 64 \<noteq>
   map_src_to_dest (builder_freeze (insert_all builder_new
      [\<lparr>rr_src = 64, rr_dest = 0, rr_size = 16\<rparr>, \<lparr>rr_src = 0, rr_dest = 16, rr_size = 32\<rparr>])) 0"
  (is "map_src_to_dest ?f 64 \<noteq> map_src_to_dest ?f 0")
proof
  assume eq: "map_src_to_dest ?f 64 = map_src_to_dest ?f 0"
  have "map_src_to_dest ?f 64 = Inr (Some 0)"
    by (subst map_src_to_dest_lookup)
      (simp_all add: disjoint_records_def overlaps_def get_src_range_def lookup_src_def in_range_def)
  with eq have "(64 :: nat) = 0"
    by (intro map_src_to_dest_injective[of
          "[\<lparr>rr_src = 64, rr_dest = 0, rr_size = 16\<rparr>, \<lparr>rr_src = 0, rr_dest = 16, rr_size = 32\<rparr>]" 64 0 0])
      (simp_all add: disjoint_records_def overlaps_def get_src_range_def get_dest_range_def)
  then show False by simp
qed

text \<open>
  The query by destination range is right when the records were inserted in the order of their
  destinations (back to back or with gaps): from a start inside a record it returns exactly the
  records that overlap the range, in order.
\<close>

theorem dest_range_query_correct:
  assumes "chain get_dest_range rs" "r \<in> set rs" "in_range (get_dest_range r) lo" "lo < hi"
  shows "iterate_records_in_dest_range (builder_freeze (insert_all builder_new rs)) (lo, hi) =
    Inr (filter (\<lambda>q. overlaps (get_dest_range q) (lo, hi)) rs)"
  using iterate_found[OF assms] by (simp add: iterate_records_in_dest_range_def freeze_records)

theorem dest_range_query_correct_witness:
  "iterate_records_in_dest_range (builder_freeze (insert_all builder_new
      [\<lparr>rr_src = 64, rr_dest = 0, rr_size = 16\<rparr>, \<lparr>rr_src = 0, rr_dest = 16, rr_size = 32\<rparr>])) (8, 16) =
    Inr [\<lparr>rr_src = 64, rr_dest = 0, rr_size = 16\<rparr>]"
  by (subst dest_range_query_correct[where r = "\<lparr>rr_src = 64, rr_dest = 0, rr_size = 16\<rparr>"])
    (simp_all add: chain_def get_dest_range_def in_range_def overlaps_def)

text \<open>
  A registry taken back after a cycle is as good as a new one: whatever it held, records
  inserted into \<open>unfreeze\<close> of it give the same frozen registry, search copies, bounds and all.
\<close>

theorem unfreeze_is_new:
  "builder_freeze (insert_all (registry_unfreeze f) rs) = builder_freeze (insert_all builder_new rs)"
proof -
  have "registry_unfreeze f = builder_new"
    by (cases f) (simp add: registry_unfreeze_def builder_new_def)
  then show ?thesis by simp
qed

end
