(* ===== verification/Marker.thy ===== *)
theory Marker
  imports Object_Heap MM_Context Relocation_Map
begin

text \<open>
  \<open>uwugc/src/gc/marker.rs\<close>: the traversal that marks the objects reachable from the saved roots,
  allocates the new place of each in the page table of the other space and records the move. The
  loop over the mark stack is \<open>mark_loop\<close>, a partial function (\<open>None\<close> would be non-termination);
  the lemmas show that it returns, and that marked objects, allocated blocks and relocation records
  correspond one to one. The marker runs here without a concurrent mutator
  (\<open>Concurrent_Marking\<close> adds them); the atomic update of the header is \<open>object_try_update\<close>.
\<close>

section \<open>State\<close>

record heap_info =
  hi_start :: nat
  hi_used_end :: nat
  hi_size :: nat
  hi_used_end_page :: nat
  hi_to_space :: nat

record marker =
  mk_stack :: "object_ptr list"

definition marker_new :: marker where
  "marker_new = \<lparr>mk_stack = []\<rparr>"

record mark_state =
  ms_stack :: "object_ptr list"
  ms_memory :: memory
  ms_alloc :: alloc_state
  ms_registry :: registry_builder
  ms_live :: nat
  ms_total :: nat

section \<open>Marking\<close>

text \<open>The closure given to \<open>try_update\<close>: decline when the object is marked already.\<close>

definition set_mark :: "bit2 \<Rightarrow> metadata_expanded \<Rightarrow> metadata_expanded option" where
  "set_mark t x = (if is_marked x = t then None else Some (x\<lparr>is_marked := t\<rparr>))"

text \<open>One iteration: the object \<open>obj\<close> has just been popped.\<close>

definition mark_one ::
    "'tm type_manager_ops \<Rightarrow> 'tm \<Rightarrow> heap_info \<Rightarrow> bit2 \<Rightarrow> object_ptr \<Rightarrow> mark_state \<Rightarrow> mark_state res" where
  "mark_one ops tm hi t obj st =
     bind_res (object_try_update (ms_memory st) obj (set_mark t)) (\<lambda>(m, ret).
       let st = st\<lparr>ms_memory := m, ms_total := ms_total st + 1\<rparr> in
       case ret of
         Inl _ \<Rightarrow> Inr st
       | Inr _ \<Rightarrow>
           (let st = st\<lparr>ms_live := ms_live st + 1\<rparr> in
            bind_res (concrete_get_size ops tm m obj) (\<lambda>sz.
            bind_res (alloc_from_page_table (ms_alloc st) sz) (\<lambda>(al, r).
            bind_res (unwrap r) (\<lambda>(dest, _).
            bind_res (usub obj (hi_start hi)) (\<lambda>src_off.
            bind_res (usub dest (hi_to_space hi)) (\<lambda>dest_off.
              let st = st\<lparr>ms_alloc := al,
                ms_registry := builder_insert (ms_registry st)
                  \<lparr>rr_src = src_off, rr_dest = dest_off, rr_size = sz\<rparr>\<rparr> in
              bind_res (concrete_iterate_gc_pointers ops tm m obj) (\<lambda>ptrs.
                Inr (st\<lparr>ms_stack := rev ptrs @ ms_stack st\<rparr>)))))))))"

partial_function (option) mark_loop ::
    "'tm type_manager_ops \<Rightarrow> 'tm \<Rightarrow> heap_info \<Rightarrow> bit2 \<Rightarrow> mark_state \<Rightarrow> mark_state res option" where
  "mark_loop ops tm hi t st =
     (case ms_stack st of
        [] \<Rightarrow> Some (Inr st)
      | obj # rest \<Rightarrow>
          (case mark_one ops tm hi t obj (st\<lparr>ms_stack := rest\<rparr>) of
             Inl e \<Rightarrow> Some (Inl e)
           | Inr st' \<Rightarrow> mark_loop ops tm hi t st'))"

text \<open>The visitor is called on every pointer of every saved root set, in order.\<close>

fun mark_roots ::
    "'tm type_manager_ops \<Rightarrow> 'tm \<Rightarrow> heap_info \<Rightarrow> bit2 \<Rightarrow> object_ptr list \<Rightarrow> mark_state
     \<Rightarrow> mark_state res option" where
  "mark_roots ops tm hi t [] st = Some (Inr st)"
| "mark_roots ops tm hi t (obj # roots) st =
     (case mark_loop ops tm hi t (st\<lparr>ms_stack := obj # ms_stack st\<rparr>) of
        None \<Rightarrow> None
      | Some (Inl e) \<Rightarrow> Some (Inl e)
      | Some (Inr st') \<Rightarrow> mark_roots ops tm hi t roots st')"

text \<open>
  \<open>Marker::start\<close> on the saved root sets: the marker, the registry, the page table of the other
  space and the memory afterwards, with the live count it prints.
\<close>

definition marker_start ::
    "'tm type_manager_ops \<Rightarrow> 'tm \<Rightarrow> memory \<Rightarrow> marker \<Rightarrow> object_ptr list list \<Rightarrow> page_table
     \<Rightarrow> registry_builder \<Rightarrow> heap_info \<Rightarrow> bit2 \<Rightarrow> mark_state res option" where
  "marker_start ops tm m mk roots pt registry hi t =
     (case mark_roots ops tm hi t (concat roots)
             \<lparr>ms_stack = mk_stack mk, ms_memory = m,
              ms_alloc = (mm_context_new, page_table_clear pt),
              ms_registry = registry, ms_live = 0, ms_total = 0\<rparr> of
        None \<Rightarrow> None
      | Some r \<Rightarrow>
          Some (bind_res r (\<lambda>st.
            bind_res (usub (hi_used_end hi) (hi_start hi)) (\<lambda>used.
            bind_res (usub (get_top_addr (snd (ms_alloc st))) (get_base_addr (snd (ms_alloc st)))) (\<lambda>compacted.
              Inr st)))))"

section \<open>One iteration\<close>

text \<open>The record made for an object \<open>obj\<close> whose new place is \<open>d\<close>.\<close>

definition reloc_of ::
    "'tm type_manager_ops \<Rightarrow> 'tm \<Rightarrow> memory \<Rightarrow> heap_info \<Rightarrow> object_ptr \<times> nat \<Rightarrow> reloc_record" where
  "reloc_of ops tm m hi = (\<lambda>(obj, d).
     \<lparr>rr_src = obj - hi_start hi, rr_dest = d - hi_to_space hi, rr_size = obj_size ops tm m obj\<rparr>)"

definition placed :: "'tm type_manager_ops \<Rightarrow> 'tm \<Rightarrow> memory \<Rightarrow> (object_ptr \<times> nat) list \<Rightarrow> (nat \<times> nat) list" where
  "placed ops tm m order = map (\<lambda>(obj, d). (d, obj_size ops tm m obj)) order"

text \<open>Heaps of small objects only, and blocks in ascending order.\<close>

definition small_heap :: "'tm type_manager_ops \<Rightarrow> 'tm \<Rightarrow> memory \<Rightarrow> object_ptr set \<Rightarrow> bool" where
  "small_heap ops tm m objs \<longleftrightarrow> (\<forall>obj \<in> objs. obj_size ops tm m obj < max_object_size Small)"

definition ascending :: "(nat \<times> nat) list \<Rightarrow> bool" where
  "ascending bs \<longleftrightarrow> sorted_wrt (\<lambda>p q. fst p + snd p \<le> fst q) bs"

text \<open>
  The invariant: \<open>order\<close> lists the objects marked so far with their new places, oldest first.
  \<open>mark_core\<close> is what marks, registry, page table and \<open>order\<close> have to do with each other; that
  only reachable objects have been met and that nothing reachable is forgotten holds besides.
\<close>

definition mark_core ::
    "'tm type_manager_ops \<Rightarrow> 'tm \<Rightarrow> memory \<Rightarrow> object_ptr set \<Rightarrow> heap_info \<Rightarrow> bit2 \<Rightarrow> registry_builder
     \<Rightarrow> (object_ptr \<times> nat) list \<Rightarrow> mark_state \<Rightarrow> bool" where
  "mark_core ops tm m0 objs hi t reg0 order st \<longleftrightarrow>
     marked_variant objs m0 (ms_memory st) \<and>
     (\<forall>obj \<in> objs. obj_marked t (ms_memory st) obj \<longleftrightarrow> obj \<in> fst ` set order) \<and>
     distinct (map fst order) \<and> (\<forall>p \<in> set order. 8 dvd snd p \<and> snd p \<noteq> 0) \<and>
     fst ` set order \<subseteq> objs \<and> set (ms_stack st) \<subseteq> objs \<and>
     ms_registry st = insert_all reg0 (map (reloc_of ops tm m0 hi) order) \<and>
     ms_live st = length order \<and>
     context_wf (ms_alloc st) \<and> ctx_base (ms_alloc st) = hi_to_space hi \<and>
     ctx_used (ms_alloc st) = blocks (placed ops tm m0 order) \<and>
     disjoint_blocks (placed ops tm m0 order) \<and>
     (\<forall>(d, n) \<in> set (placed ops tm m0 order). ctx_home (ms_alloc st) d n) \<and>
     (small_heap ops tm m0 objs \<longrightarrow>
        small_frontier (ms_alloc st) \<and> ascending (placed ops tm m0 order))"

definition mark_inv ::
    "'tm type_manager_ops \<Rightarrow> 'tm \<Rightarrow> memory \<Rightarrow> object_ptr set \<Rightarrow> heap_info \<Rightarrow> bit2 \<Rightarrow> registry_builder
     \<Rightarrow> object_ptr list \<Rightarrow> (object_ptr \<times> nat) list \<Rightarrow> mark_state \<Rightarrow> bool" where
  "mark_inv ops tm m0 objs hi t reg0 roots order st \<longleftrightarrow>
     mark_core ops tm m0 objs hi t reg0 order st \<and>
     (\<forall>obj \<in> fst ` set order \<union> set (ms_stack st). reaches ops tm m0 roots obj) \<and>
     (\<forall>obj \<in> fst ` set order.
        set (obj_pointers ops tm m0 obj) \<subseteq> fst ` set order \<union> set (ms_stack st))"

lemma mark_coreD:
  assumes "mark_core ops tm m0 objs hi t reg0 order st"
  shows "marked_variant objs m0 (ms_memory st)"
    "\<forall>obj \<in> objs. obj_marked t (ms_memory st) obj \<longleftrightarrow> obj \<in> fst ` set order"
    "distinct (map fst order)" "fst ` set order \<subseteq> objs" "set (ms_stack st) \<subseteq> objs"
    "\<forall>p \<in> set order. 8 dvd snd p \<and> snd p \<noteq> 0"
    "ms_registry st = insert_all reg0 (map (reloc_of ops tm m0 hi) order)" "ms_live st = length order"
    "context_wf (ms_alloc st)" "ctx_base (ms_alloc st) = hi_to_space hi"
    "ctx_used (ms_alloc st) = blocks (placed ops tm m0 order)"
    "disjoint_blocks (placed ops tm m0 order)"
    "\<forall>(d, n) \<in> set (placed ops tm m0 order). ctx_home (ms_alloc st) d n"
    "small_heap ops tm m0 objs \<Longrightarrow> small_frontier (ms_alloc st) \<and> ascending (placed ops tm m0 order)"
  using assms unfolding mark_core_def by blast+

lemma mark_inv_core: "mark_inv ops tm m0 objs hi t reg0 roots order st \<Longrightarrow> mark_core ops tm m0 objs hi t reg0 order st"
  by (simp add: mark_inv_def)

lemma mark_inv_closed:
  "mark_inv ops tm m0 objs hi t reg0 roots order st \<Longrightarrow>
   \<forall>obj \<in> fst ` set order. set (obj_pointers ops tm m0 obj) \<subseteq> fst ` set order \<union> set (ms_stack st)"
  by (simp add: mark_inv_def)

lemmas mark_invD = mark_coreD[OF mark_inv_core] mark_inv_closed

lemma mark_inv_used_above:
  "mark_inv ops tm m0 objs hi t reg0 roots order st \<Longrightarrow> a \<in> ctx_used (ms_alloc st) \<Longrightarrow> hi_to_space hi \<le> a"
  using ctx.used_above[of "ms_alloc st"] mark_invD(9,10)[of ops tm m0 objs hi t reg0 roots order st] by auto

text \<open>The room that the live objects not yet marked may still need, and the work left.\<close>

definition room_left :: "'tm type_manager_ops \<Rightarrow> 'tm \<Rightarrow> memory \<Rightarrow> object_ptr list \<Rightarrow> (object_ptr \<times> nat) list \<Rightarrow> nat" where
  "room_left ops tm m roots order =
     (\<Sum>obj \<in> {obj. reaches ops tm m roots obj} - fst ` set order. alloc_need (obj_size ops tm m obj))"

definition work_left :: "'tm type_manager_ops \<Rightarrow> 'tm \<Rightarrow> memory \<Rightarrow> object_ptr set \<Rightarrow> (object_ptr \<times> nat) list \<Rightarrow> mark_state \<Rightarrow> nat" where
  "work_left ops tm m objs order st =
     (\<Sum>obj \<in> objs - fst ` set order. 1 + length (obj_pointers ops tm m obj)) + length (ms_stack st)"

text \<open>Setting the mark through \<open>try_update\<close>.\<close>

definition mark_word :: "bit2 \<Rightarrow> memory \<Rightarrow> object_ptr \<Rightarrow> 64 word" where
  "mark_word t m obj =
     encode_word \<lparr>is_marked = t, write_barrier_activated = bit (m obj) 1, payload = obj_kind m obj\<rparr>"

definition header_of :: "memory \<Rightarrow> object_ptr \<Rightarrow> metadata_expanded" where
  "header_of m obj =
     \<lparr>is_marked = (if bit (m obj) 0 then Bit1 else Bit0), write_barrier_activated = bit (m obj) 1,
      payload = obj_kind m obj\<rparr>"

lemma try_mark:
  "object_try_update m obj (set_mark t) =
     Inr (if obj_marked t m obj then (m, Inl (header_of m obj))
          else (m(obj := mark_word t m obj), Inr (header_of m obj)))"
proof -
  have "decode (read_metadata m obj) (m obj) = Inr (header_of m obj)"
    using object_metadata_eq[of m obj]
    by (simp add: object_metadata_def metadata_get_def header_of_def read_metadata_def)
  moreover have "set_mark t (header_of m obj) =
      (if obj_marked t m obj then None
       else Some \<lparr>is_marked = t, write_barrier_activated = bit (m obj) 1, payload = obj_kind m obj\<rparr>)"
    by (simp add: set_mark_def header_of_def obj_marked_def)
  ultimately show ?thesis
    by (simp add: object_try_update_def metadata_try_update_def read_metadata_def mark_word_def)
qed

lemma mark_word_bits:
  "bit (mark_word t m obj) 0 \<longleftrightarrow> t = Bit1"
  "bit (mark_word t m obj) 1 = bit (m obj) 1"
  "bit (mark_word t m obj) 2 = bit (m obj) 2"
  unfolding mark_word_def bit_encode_word by (simp_all add: obj_kind_def)

lemma marked_variant_mark:
  "marked_variant objs m m' \<Longrightarrow> obj \<in> objs \<Longrightarrow>
   marked_variant objs m (m'(obj := mark_word t m' obj))"
  unfolding marked_variant_def by (simp add: mark_word_bits del: One_nat_def)

lemma obj_marked_mark:
  "obj_marked t (m(obj := mark_word t m obj)) x \<longleftrightarrow> x = obj \<or> obj_marked t m x"
  by (cases t) (auto simp: obj_marked_def mark_word_bits)

lemma placed_snoc [simp]:
  "placed ops tm m (order @ [(obj, d)]) = placed ops tm m order @ [(d, obj_size ops tm m obj)]"
  by (simp add: placed_def)

lemma placed_block:
  "(obj, d) \<in> set order \<Longrightarrow> block d (obj_size ops tm m obj) \<subseteq> blocks (placed ops tm m order)"
proof (induction order)
  case (Cons p order)
  obtain x e where "p = (x, e)" by (cases p)
  with Cons show ?case by (fastforce simp: placed_def simp del: in_block)
qed simp

lemma insert_all_snoc: "insert_all b (rs @ [r]) = builder_insert (insert_all b rs) r"
  by (simp add: insert_all_def)

lemma sum_unmarked:
  assumes "finite objs" "obj \<in> objs" "obj \<notin> S"
  shows "(\<Sum>x \<in> objs - S. f x) = f obj + (\<Sum>x \<in> objs - insert obj S. f x :: nat)"
proof -
  have "objs - S = insert obj (objs - insert obj S)" using assms by auto
  then have "(\<Sum>x \<in> objs - S. f x) = (\<Sum>x \<in> insert obj (objs - insert obj S). f x)"
    by (rule arg_cong)
  also have "\<dots> = f obj + (\<Sum>x \<in> objs - insert obj S. f x)" using assms(1) by (intro sum.insert) simp_all
  finally show ?thesis .
qed

lemma work_left_stack [simp]:
  "work_left ops tm m objs order st =
     (\<Sum>obj \<in> objs - fst ` set order. 1 + length (obj_pointers ops tm m obj)) + length (ms_stack st)"
  by (rule work_left_def)

text \<open>The invariant after an object has been marked, placed and recorded.\<close>

lemma mark_core_snoc:
  assumes core: "mark_core ops tm m0 objs hi t reg0 order st" and st: "ms_stack st = obj # rest"
    and new: "obj \<notin> fst ` set order" and obj: "obj \<in> objs"
    and ptrs: "set (obj_pointers ops tm m0 obj) \<subseteq> objs"
    and v: "marked_variant objs m0 (ms_memory st')"
    and mk: "\<And>x. obj_marked t (ms_memory st') x \<longleftrightarrow> x = obj \<or> obj_marked t (ms_memory st) x"
    and stk: "ms_stack st' = rev (obj_pointers ops tm m0 obj) @ rest"
    and reg: "ms_registry st' = builder_insert (ms_registry st) (reloc_of ops tm m0 hi (obj, d))"
    and live: "ms_live st' = ms_live st + 1"
    and wf: "context_wf (ms_alloc st')" and base: "ctx_base (ms_alloc st') = ctx_base (ms_alloc st)"
    and used: "ctx_used (ms_alloc st') = ctx_used (ms_alloc st) \<union> block d (obj_size ops tm m0 obj)"
    and fresh: "ctx_used (ms_alloc st) \<inter> block d (obj_size ops tm m0 obj) = {}"
    and d: "8 dvd d" "d \<noteq> 0"
    and home: "ctx_home (ms_alloc st') d (obj_size ops tm m0 obj)"
      "\<And>b k. ctx_home (ms_alloc st) b k \<Longrightarrow> ctx_home (ms_alloc st') b k"
    and asc: "small_heap ops tm m0 objs \<Longrightarrow>
      small_frontier (ms_alloc st') \<and> ascending (placed ops tm m0 (order @ [(obj, d)]))"
  shows "mark_core ops tm m0 objs hi t reg0 (order @ [(obj, d)]) st'"
proof -
  note i = mark_coreD[OF core]
  have "\<forall>x \<in> objs. obj_marked t (ms_memory st') x \<longleftrightarrow> x \<in> fst ` set (order @ [(obj, d)])" using mk i(2) by auto
  moreover have "\<forall>p \<in> set (order @ [(obj, d)]). 8 dvd snd p \<and> snd p \<noteq> 0" using i(6) d by auto
  moreover have "distinct (map fst (order @ [(obj, d)]))" using i(3) new by simp
  moreover have "fst ` set (order @ [(obj, d)]) \<subseteq> objs" "set (ms_stack st') \<subseteq> objs" using i(4,5) st stk obj ptrs by auto
  moreover have "ms_registry st' = insert_all reg0 (map (reloc_of ops tm m0 hi) (order @ [(obj, d)]))"
    using reg i(7) by (simp add: insert_all_snoc)
  moreover have "ctx_used (ms_alloc st') = blocks (placed ops tm m0 (order @ [(obj, d)]))"
    using used i(11) by (auto simp: blocks_append)
  moreover have "disjoint_blocks (placed ops tm m0 (order @ [(obj, d)]))"
    using i(11,12) fresh by (simp add: disjoint_blocks_snoc)
  moreover have "\<forall>(d, n) \<in> set (placed ops tm m0 (order @ [(obj, d)])). ctx_home (ms_alloc st') d n"
    using i(13) home by auto
  ultimately show ?thesis
    using v wf base live i(8,10) asc unfolding mark_core_def by simp
qed

section \<open>The traversal\<close>

context field_layout
begin

text \<open>Popping an object that is marked already only counts it.\<close>

lemma mark_core_marked:
  assumes core: "mark_core ops tm m0 objs hi t reg0 order st" and st: "ms_stack st = obj # rest"
    and old: "obj \<in> fst ` set order"
  shows "mark_one ops tm hi t obj (st\<lparr>ms_stack := rest\<rparr>) = Inr (st\<lparr>ms_stack := rest, ms_total := ms_total st + 1\<rparr>)"
    "mark_core ops tm m0 objs hi t reg0 order (st\<lparr>ms_stack := rest, ms_total := ms_total st + 1\<rparr>)"
proof -
  have "obj_marked t (ms_memory st) obj" using core st old by (auto simp: mark_core_def)
  then show "mark_one ops tm hi t obj (st\<lparr>ms_stack := rest\<rparr>) = Inr (st\<lparr>ms_stack := rest, ms_total := ms_total st + 1\<rparr>)"
    by (simp add: mark_one_def try_mark)
  show "mark_core ops tm m0 objs hi t reg0 order (st\<lparr>ms_stack := rest, ms_total := ms_total st + 1\<rparr>)"
    using core st unfolding mark_core_def by simp
qed

lemma mark_one_marked:
  assumes inv: "mark_inv ops tm m0 objs hi t reg0 roots order st" and st: "ms_stack st = obj # rest"
    and old: "obj \<in> fst ` set order"
  obtains st' where "mark_one ops tm hi t obj (st\<lparr>ms_stack := rest\<rparr>) = Inr st'"
    "mark_inv ops tm m0 objs hi t reg0 roots order st'" "ms_stack st' = rest"
    "ms_alloc st' = ms_alloc st"
proof -
  let ?st = "st\<lparr>ms_stack := rest, ms_total := ms_total st + 1\<rparr>"
  note c = mark_core_marked[OF mark_inv_core[OF inv] st old]
  have "fst ` set order \<union> set (ms_stack st) = fst ` set order \<union> set rest" using st old by auto
  then have "mark_inv ops tm m0 objs hi t reg0 roots order ?st"
    using inv c(2) unfolding mark_inv_def by simp
  with c(1) show thesis by (rule that) simp_all
qed

text \<open>What an iteration on an unmarked object computes, when the allocation succeeds.\<close>

lemma mark_one_eq:
  assumes wf: "heap_wf ops tm known m0 objs" and v: "marked_variant objs m0 (ms_memory st)"
    and obj: "obj \<in> objs" "hi_start hi \<le> obj" and new: "\<not> obj_marked t (ms_memory st) obj"
    and al: "alloc_from_page_table (ms_alloc st) (obj_size ops tm m0 obj) = Inr (al', Some (d, i))"
    and d: "hi_to_space hi \<le> d"
  shows "mark_one ops tm hi t obj st =
    Inr (st\<lparr>ms_memory := (ms_memory st)(obj := mark_word t (ms_memory st) obj),
      ms_total := ms_total st + 1, ms_live := ms_live st + 1, ms_alloc := al',
      ms_registry := builder_insert (ms_registry st) (reloc_of ops tm m0 hi (obj, d)),
      ms_stack := rev (obj_pointers ops tm m0 obj) @ ms_stack st\<rparr>)"
proof -
  let ?m = "(ms_memory st)(obj := mark_word t (ms_memory st) obj)"
  have v': "marked_variant objs m0 ?m" using v obj(1) by (rule marked_variant_mark)
  note same = variant_same[OF wf v' obj(1)]
  have "concrete_get_size ops tm ?m obj = Inr (obj_size ops tm m0 obj)"
    "concrete_iterate_gc_pointers ops tm ?m obj = Inr (obj_pointers ops tm m0 obj)"
    using get_size_obj_size[OF same(1)] iterate_known[OF same(1)] same(2,3) by simp_all
  with new al d obj(2) show ?thesis
    by (simp add: mark_one_def try_mark reloc_of_def Let_def)
qed

lemma mark_core_fresh:
  assumes wf: "heap_wf ops tm known m0 objs" and above: "\<forall>x \<in> objs. hi_start hi \<le> x"
    and core: "mark_core ops tm m0 objs hi t reg0 order st" and st: "ms_stack st = obj # rest"
    and new: "obj \<notin> fst ` set order"
    and room: "alloc_need (obj_size ops tm m0 obj) + k \<le> ctx_room (ms_alloc st)"
  obtains d st' where "mark_one ops tm hi t obj (st\<lparr>ms_stack := rest\<rparr>) = Inr st'"
    "mark_core ops tm m0 objs hi t reg0 (order @ [(obj, d)]) st'"
    "ms_stack st' = rev (obj_pointers ops tm m0 obj) @ rest" "k \<le> ctx_room (ms_alloc st')"
    "ms_memory st' = (ms_memory st)(obj := mark_word t (ms_memory st) obj)"
proof -
  let ?sz = "obj_size ops tm m0 obj"
  have obj: "obj \<in> objs" and v: "marked_variant objs m0 (ms_memory st)"
    using core st by (auto simp: mark_core_def)
  have ok: "object_wf known m0 obj" "8 dvd ?sz" "set (obj_pointers ops tm m0 obj) \<subseteq> objs"
    using wf obj by (auto simp: heap_wf_def)
  have cwf: "context_wf (ms_alloc st)" using core by (simp add: mark_core_def)
  have "alloc_need ?sz \<le> ctx_room (ms_alloc st)" using room by linarith
  from ctx.alloc_fits[OF cwf ok(2) this] obtain al' d i where
    al: "alloc_from_page_table (ms_alloc st) ?sz = Inr (al', Some (d, i))" .
  note a = ctx.alloc_some[OF cwf ok(2) al]
  have "d \<in> ctx_used al'" using a(2) obj_size_ge[OF ok(1)] by simp
  then have d: "hi_to_space hi \<le> d"
    using ctx.used_above[OF a(1)] a(7) core by (auto simp: mark_core_def)
  have nm: "\<not> obj_marked t (ms_memory st) obj" using core obj new by (auto simp: mark_core_def)
  have hs: "hi_start hi \<le> obj" using above obj by blast
  have asc: "small_frontier al' \<and> ascending (placed ops tm m0 (order @ [(obj, d)]))"
    if small: "small_heap ops tm m0 objs"
  proof -
    have "?sz < max_object_size Small" using small obj by (simp add: small_heap_def)
    from small_alloc_ascends[OF cwf _ ok(2) this al] mark_coreD(14)[OF core small]
    have fr: "small_frontier al'" "\<forall>x \<in> ctx_used (ms_alloc st). x < d" by auto
    have "e + k \<le> d" if e: "(e, k) \<in> set (placed ops tm m0 order)" for e k
    proof -
      obtain y where y: "(y, e) \<in> set order" "k = obj_size ops tm m0 y" using e by (auto simp: placed_def)
      then have "y \<in> objs" using mark_coreD(4)[OF core] by force
      then have "16 \<le> k" using wf obj_size_ge y(2) by (auto simp: heap_wf_def)
      moreover have "block e k \<subseteq> ctx_used (ms_alloc st)"
        using placed_block[OF y(1), of ops tm m0] mark_coreD(11)[OF core] y(2) by simp
      ultimately have "e + k - 1 \<in> ctx_used (ms_alloc st)" by fastforce
      with fr(2) \<open>16 \<le> k\<close> show ?thesis by fastforce
    qed
    with mark_coreD(14)[OF core small] fr(1) show ?thesis
      by (auto simp: ascending_def sorted_wrt_append)
  qed
  let ?st = "st\<lparr>ms_memory := (ms_memory st)(obj := mark_word t (ms_memory st) obj),
      ms_total := ms_total st + 1, ms_live := ms_live st + 1, ms_alloc := al',
      ms_registry := builder_insert (ms_registry st) (reloc_of ops tm m0 hi (obj, d)),
      ms_stack := rev (obj_pointers ops tm m0 obj) @ rest\<rparr>"
  have "mark_one ops tm hi t obj (st\<lparr>ms_stack := rest\<rparr>) = Inr ?st"
    using mark_one_eq[of m0 objs "st\<lparr>ms_stack := rest\<rparr>" obj hi t al' d i] wf v obj hs nm al d by simp
  moreover have "mark_core ops tm m0 objs hi t reg0 (order @ [(obj, d)]) ?st"
    by (rule mark_core_snoc[OF core st new obj ok(3)])
      (use a marked_variant_mark[OF v obj] asc in \<open>simp_all add: obj_marked_mark\<close>)
  moreover have "ms_stack ?st = rev (obj_pointers ops tm m0 obj) @ rest" by simp
  moreover have "k \<le> ctx_room (ms_alloc ?st)" using room a(6) by simp
  ultimately show thesis by (rule that) simp
qed

lemma mark_one_fresh:
  assumes wf: "heap_wf ops tm known m0 objs" and above: "\<forall>x \<in> objs. hi_start hi \<le> x"
    and inv: "mark_inv ops tm m0 objs hi t reg0 roots order st" and st: "ms_stack st = obj # rest"
    and new: "obj \<notin> fst ` set order" and fin: "finite {obj. reaches ops tm m0 roots obj}"
    and room: "room_left ops tm m0 roots order + k \<le> ctx_room (ms_alloc st)"
  obtains d st' where "mark_one ops tm hi t obj (st\<lparr>ms_stack := rest\<rparr>) = Inr st'"
    "mark_inv ops tm m0 objs hi t reg0 roots (order @ [(obj, d)]) st'"
    "ms_stack st' = rev (obj_pointers ops tm m0 obj) @ rest"
    "room_left ops tm m0 roots (order @ [(obj, d)]) + k \<le> ctx_room (ms_alloc st')"
proof -
  have r: "\<forall>x \<in> fst ` set order \<union> set (obj # rest). reaches ops tm m0 roots x"
    and cl: "\<forall>x \<in> fst ` set order. set (obj_pointers ops tm m0 x) \<subseteq> fst ` set order \<union> set (obj # rest)"
    using inv st unfolding mark_inv_def by simp_all
  then have live: "obj \<in> {obj. reaches ops tm m0 roots obj}" by simp
  have pages: "room_left ops tm m0 roots order =
      alloc_need (obj_size ops tm m0 obj) + room_left ops tm m0 roots (order @ [(obj, d)])" for d
    using sum_unmarked[OF fin live new] by (simp add: room_left_def)
  have left: "room_left ops tm m0 roots (order @ [(obj, d)]) = room_left ops tm m0 roots (order @ [(obj, 0)])" for d
    by (simp add: room_left_def)
  have "alloc_need (obj_size ops tm m0 obj) + (room_left ops tm m0 roots (order @ [(obj, 0)]) + k) \<le> ctx_room (ms_alloc st)"
    using room pages[of 0] by simp
  from wf above mark_inv_core[OF inv] st new this obtain d st' where
    c: "mark_one ops tm hi t obj (st\<lparr>ms_stack := rest\<rparr>) = Inr st'"
      "mark_core ops tm m0 objs hi t reg0 (order @ [(obj, d)]) st'"
      "ms_stack st' = rev (obj_pointers ops tm m0 obj) @ rest"
      "room_left ops tm m0 roots (order @ [(obj, 0)]) + k \<le> ctx_room (ms_alloc st')"
    by (rule mark_core_fresh)
  have "\<forall>x \<in> fst ` set (order @ [(obj, d)]) \<union> set (ms_stack st'). reaches ops tm m0 roots x"
    using r c(3) by (auto intro: reaches.step)
  moreover have "\<forall>x \<in> fst ` set (order @ [(obj, d)]).
      set (obj_pointers ops tm m0 x) \<subseteq> fst ` set (order @ [(obj, d)]) \<union> set (ms_stack st')"
    using cl c(3) by fastforce
  ultimately have "mark_inv ops tm m0 objs hi t reg0 roots (order @ [(obj, d)]) st'"
    using c(2) by (simp add: mark_inv_def)
  with c show thesis using left[of d] by (intro that[of st' d]) simp_all
qed

lemma mark_loop_total:
  assumes wf: "heap_wf ops tm known m0 objs" and above: "\<forall>x \<in> objs. hi_start hi \<le> x"
    and live: "finite {obj. reaches ops tm m0 roots obj}"
  shows "\<lbrakk>mark_inv ops tm m0 objs hi t reg0 roots order st;
      room_left ops tm m0 roots order + k \<le> ctx_room (ms_alloc st)\<rbrakk> \<Longrightarrow>
    \<exists>order' st'. mark_loop ops tm hi t st = Some (Inr st') \<and> ms_stack st' = [] \<and>
      mark_inv ops tm m0 objs hi t reg0 roots order' st' \<and> set order \<subseteq> set order' \<and>
      set (ms_stack st) \<subseteq> fst ` set order' \<and>
      room_left ops tm m0 roots order' + k \<le> ctx_room (ms_alloc st')"
proof (induction "work_left ops tm m0 objs order st" arbitrary: order st rule: less_induct)
  case less
  have fin: "finite objs" using wf by (simp add: heap_wf_def)
  show ?case
  proof (cases "ms_stack st")
    case Nil
    with less.prems show ?thesis
      by (intro exI[of _ order] exI[of _ st]) (simp add: mark_loop.simps)
  next
    case (Cons obj rest)
    show ?thesis
    proof (cases "obj \<in> fst ` set order")
      case True
      from less.prems(1) Cons True obtain st' where
        st': "mark_one ops tm hi t obj (st\<lparr>ms_stack := rest\<rparr>) = Inr st'"
          "mark_inv ops tm m0 objs hi t reg0 roots order st'" "ms_stack st' = rest"
          "ms_alloc st' = ms_alloc st" by (rule mark_one_marked)
      have "work_left ops tm m0 objs order st' < work_left ops tm m0 objs order st"
        using st'(3) Cons by simp
      from less.hyps[OF this st'(2)] less.prems(2) st'(4) obtain order' st'' where
        l: "mark_loop ops tm hi t st' = Some (Inr st'')" "ms_stack st'' = []"
          "mark_inv ops tm m0 objs hi t reg0 roots order' st''" "set order \<subseteq> set order'"
          "set (ms_stack st') \<subseteq> fst ` set order'"
          "room_left ops tm m0 roots order' + k \<le> ctx_room (ms_alloc st'')" by auto
      have "obj \<in> fst ` set order'" using True image_mono[OF l(4), of fst] by (rule rev_subsetD)
      with l Cons st'(1,3) show ?thesis
        by (intro exI[of _ order'] exI[of _ st'']) (simp add: mark_loop.simps[of ops tm hi t st])
    next
      case False
      from wf above less.prems(1) Cons False live less.prems(2) obtain d st' where
        st': "mark_one ops tm hi t obj (st\<lparr>ms_stack := rest\<rparr>) = Inr st'"
          "mark_inv ops tm m0 objs hi t reg0 roots (order @ [(obj, d)]) st'"
          "ms_stack st' = rev (obj_pointers ops tm m0 obj) @ rest"
          "room_left ops tm m0 roots (order @ [(obj, d)]) + k \<le> ctx_room (ms_alloc st')"
        by (rule mark_one_fresh)
      have "obj \<in> objs" using mark_invD(5)[OF less.prems(1)] Cons by simp
      from sum_unmarked[OF fin this False, of "\<lambda>x. 1 + length (obj_pointers ops tm m0 x)"]
      have "work_left ops tm m0 objs (order @ [(obj, d)]) st' < work_left ops tm m0 objs order st"
        using st'(3) Cons by simp
      from less.hyps[OF this st'(2,4)] obtain order' st'' where
        l: "mark_loop ops tm hi t st' = Some (Inr st'')" "ms_stack st'' = []"
          "mark_inv ops tm m0 objs hi t reg0 roots order' st''" "set (order @ [(obj, d)]) \<subseteq> set order'"
          "set (ms_stack st') \<subseteq> fst ` set order'"
          "room_left ops tm m0 roots order' + k \<le> ctx_room (ms_alloc st'')" by auto
      have "obj \<in> fst ` set order'" using image_mono[OF l(4), of fst] by simp
      with l Cons st'(1,3) show ?thesis
        by (intro exI[of _ order'] exI[of _ st'']) (simp add: mark_loop.simps[of ops tm hi t st])
    qed
  qed
qed

lemma mark_roots_total:
  assumes wf: "heap_wf ops tm known m0 objs" and above: "\<forall>x \<in> objs. hi_start hi \<le> x"
    and live: "finite {obj. reaches ops tm m0 roots obj}"
  shows "\<lbrakk>mark_inv ops tm m0 objs hi t reg0 roots order st; ms_stack st = [];
      room_left ops tm m0 roots order + k \<le> ctx_room (ms_alloc st); set rs \<subseteq> set roots;
      set rs \<subseteq> objs\<rbrakk> \<Longrightarrow>
    \<exists>order' st'. mark_roots ops tm hi t rs st = Some (Inr st') \<and> ms_stack st' = [] \<and>
      mark_inv ops tm m0 objs hi t reg0 roots order' st' \<and> set order \<union> {} \<subseteq> set order' \<and>
      set rs \<subseteq> fst ` set order' \<and> k \<le> ctx_room (ms_alloc st')"
proof (induction rs arbitrary: order st)
  case Nil
  then show ?case by auto
next
  case (Cons r rs)
  let ?st = "st\<lparr>ms_stack := r # ms_stack st\<rparr>"
  have "mark_inv ops tm m0 objs hi t reg0 roots order ?st"
    using Cons.prems unfolding mark_inv_def mark_core_def by (auto intro: reaches.root)
  from mark_loop_total[where k = k, OF wf above live this] Cons.prems(3) obtain order1 st1 where
    l: "mark_loop ops tm hi t ?st = Some (Inr st1)" "ms_stack st1 = []"
      "mark_inv ops tm m0 objs hi t reg0 roots order1 st1" "set order \<subseteq> set order1"
      "set (ms_stack ?st) \<subseteq> fst ` set order1"
      "room_left ops tm m0 roots order1 + k \<le> ctx_room (ms_alloc st1)" by auto
  from Cons.IH[OF l(3,2,6)] Cons.prems(4,5) obtain order2 st2 where
    "mark_roots ops tm hi t rs st1 = Some (Inr st2)" "ms_stack st2 = []"
    "mark_inv ops tm m0 objs hi t reg0 roots order2 st2" "set order1 \<union> {} \<subseteq> set order2"
    "set rs \<subseteq> fst ` set order2" "k \<le> ctx_room (ms_alloc st2)" by auto
  with l(1,4,5) show ?case by (intro exI[of _ order2] exI[of _ st2]) auto
qed

lemma mark_inv_start:
  assumes "\<forall>obj \<in> objs. \<not> obj_marked t m obj" "page_table_wf pt" "used_addrs pt = {}"
    "base_addr pt = hi_to_space hi" "current_base_page pt = 0"
  shows "mark_inv ops tm m objs hi t registry roots []
    \<lparr>ms_stack = [], ms_memory = m, ms_alloc = (mm_context_new, pt), ms_registry = registry,
     ms_live = 0, ms_total = 0\<rparr>"
  using assms
  by (simp add: mark_inv_def mark_core_def placed_def insert_all_def context_wf_fresh ctx_simps small_frontier_def
      ascending_def blocks_def)

text \<open>
  The marker returns, and the objects it marked are the ones reachable from the roots; each has one
  block in the other space and one record.
\<close>

lemma marker_start_total:
  assumes wf: "heap_wf ops tm known m objs" and above: "\<forall>x \<in> objs. hi_start hi \<le> x"
    and roots: "set (concat roots) \<subseteq> objs" and fresh: "\<forall>obj \<in> objs. \<not> obj_marked t m obj"
    and pt: "space_ok pt" "base_addr pt = hi_to_space hi" and used: "hi_start hi \<le> hi_used_end hi"
    and room: "(\<Sum>obj \<in> {obj. reaches ops tm m (concat roots) obj}. alloc_need (obj_size ops tm m obj))
      \<le> fresh_room (pt_nr_pages pt)"
    and mk: "mk_stack mk = []"
  obtains order st' where
    "marker_start ops tm m mk roots pt registry hi t = Some (Inr st')"
    "mark_inv ops tm m objs hi t registry (concat roots) order st'" "ms_stack st' = []"
    "fst ` set order = {obj. reaches ops tm m (concat roots) obj}"
    "fresh_room (pt_nr_pages pt) \<le> ctx_room (ms_alloc st') +
      (\<Sum>obj \<in> {obj. reaches ops tm m (concat roots) obj}. alloc_need (obj_size ops tm m obj))"
proof -
  let ?pt = "page_table_clear pt"
  let ?st = "\<lparr>ms_stack = [], ms_memory = m, ms_alloc = (mm_context_new, ?pt), ms_registry = registry,
     ms_live = 0, ms_total = 0\<rparr>"
  have clear: "page_table_wf ?pt" "used_addrs ?pt = {}" "base_addr ?pt = hi_to_space hi"
    "pt_nr_pages ?pt = pt_nr_pages pt" "current_base_page ?pt = 0" "medium_buffer_page ?pt = None"
    using page_table_clear_wf[OF pt(1)] pt(2) by (simp_all add: page_table_clear_def)
  from mark_inv_start[OF fresh clear(1,2,3,5)]
  have i0: "mark_inv ops tm m objs hi t registry (concat roots) [] ?st" .
  let ?k = "fresh_room (pt_nr_pages pt) -
    (\<Sum>obj \<in> {obj. reaches ops tm m (concat roots) obj}. alloc_need (obj_size ops tm m obj))"
  have "room_left ops tm m (concat roots) [] + ?k \<le> ctx_room (ms_alloc ?st)"
    using room clear(4) ctx_room_fresh[OF clear(5,6)] by (simp add: room_left_def)
  moreover have "{obj. reaches ops tm m (concat roots) obj} \<subseteq> objs"
    using reaches_in_heap[OF wf roots] by blast
  ultimately have "room_left ops tm m (concat roots) [] + ?k \<le> ctx_room (ms_alloc ?st)"
    "finite {obj. reaches ops tm m (concat roots) obj}"
    using wf finite_subset unfolding heap_wf_def by blast+
  note live = this
  from mark_roots_total[where k = ?k, OF wf above live(2) i0 _ live(1) subset_refl roots] obtain order st' where
    l: "mark_roots ops tm hi t (concat roots) ?st = Some (Inr st')" "ms_stack st' = []"
      "mark_inv ops tm m objs hi t registry (concat roots) order st'"
      "set (concat roots) \<subseteq> fst ` set order" "?k \<le> ctx_room (ms_alloc st')" by auto
  have i: "\<forall>x \<in> fst ` set order. reaches ops tm m (concat roots) x"
    "\<forall>x \<in> fst ` set order. set (obj_pointers ops tm m x) \<subseteq> fst ` set order"
    using l(3) unfolding mark_inv_def l(2) by simp_all
  have "fst ` set order = {obj. reaches ops tm m (concat roots) obj}"
  proof (intro equalityI subsetI CollectI)
    fix x assume "x \<in> {obj. reaches ops tm m (concat roots) obj}"
    then have "reaches ops tm m (concat roots) x" by simp
    from reaches_closed[OF this l(4)] i(2) show "x \<in> fst ` set order" by blast
  next
    fix x assume "x \<in> fst ` set order"
    with i(1) show "reaches ops tm m (concat roots) x" by (rule bspec)
  qed
  moreover have "marker_start ops tm m mk roots pt registry hi t = Some (Inr st')"
    using l(1) used mk by (simp add: marker_start_def get_top_addr_def get_base_addr_def)
  moreover have "fresh_room (pt_nr_pages pt) \<le> ctx_room (ms_alloc st') +
      (\<Sum>obj \<in> {obj. reaches ops tm m (concat roots) obj}. alloc_need (obj_size ops tm m obj))"
    using l(5) by linarith
  ultimately show thesis using that l(2,3) by blast
qed

end

section \<open>From the marker's records to forwarding addresses\<close>

text \<open>Disjoint objects and disjoint new places give a registry with disjoint ranges.\<close>

lemma disjoint_blocks_iff:
  "disjoint_blocks bs \<longleftrightarrow> sorted_wrt (\<lambda>(a, n) (b, k). block a n \<inter> block b k = {}) bs"
proof (induction bs)
  case (Cons x bs)
  obtain a n where "x = (a, n)" by (cases x)
  with Cons show ?case by (fastforce simp: blocks_def)
qed simp

lemma block_shift_overlaps:
  assumes "base \<le> x" "base \<le> y" "block x n \<inter> block y k = {}" "0 < n" "0 < k"
  shows "\<not> overlaps (x - base, x - base + n) (y - base, y - base + k)"
proof
  assume "overlaps (x - base, x - base + n) (y - base, y - base + k)"
  then have "max x y \<in> block x n \<inter> block y k" using assms(1,2,4,5) by (auto simp: overlaps_def)
  with assms(3) show False by blast
qed

lemma distinct_map_fst_sorted: "distinct (map fst ps) \<longleftrightarrow> sorted_wrt (\<lambda>(x, _) (y, _). x \<noteq> y) ps"
  by (induction ps) (force simp: case_prod_beta)+

lemma sorted_wrt_pairs:
  assumes "sorted_wrt P xs" "\<And>x y. P x y \<Longrightarrow> P y x"
  shows "\<forall>x \<in> set xs. \<forall>y \<in> set xs. x \<noteq> y \<longrightarrow> P x y"
  by (metis assms in_set_conv_nth linorder_neqE_nat sorted_wrt_nth_less)

context field_layout
begin

lemma mark_inv_records:
  assumes wf: "heap_wf ops tm known m objs" and above: "\<forall>x \<in> objs. hi_start hi \<le> x"
    and inv: "mark_inv ops tm m objs hi t registry roots order st"
  shows "disjoint_records get_src_range (map (reloc_of ops tm m hi) order)"
    and "disjoint_records get_dest_range (map (reloc_of ops tm m hi) order)"
proof -
  have objs: "obj \<in> objs" if "(obj, d) \<in> set order" for obj d
    using mark_invD(4)[OF inv] that by force
  have sz: "16 \<le> obj_size ops tm m obj" if "(obj, d) \<in> set order" for obj d
    using wf objs[OF that] obj_size_ge by (auto simp: heap_wf_def)
  have to: "hi_to_space hi \<le> d" if "(obj, d) \<in> set order" for obj d
  proof -
    have "d \<in> block d (obj_size ops tm m obj)" using sz[OF that] by simp
    then have "d \<in> blocks (placed ops tm m order)" using placed_block[OF that, of ops tm m] by blast
    then show ?thesis using mark_inv_used_above[OF inv] mark_invD(11)[OF inv] by simp
  qed
  have "sorted_wrt (\<lambda>(x, _) (y, _). x \<noteq> y) order"
    using mark_invD(3)[OF inv] by (simp add: distinct_map_fst_sorted)
  then have "sorted_wrt (\<lambda>p q. \<not> overlaps (get_src_range (reloc_of ops tm m hi p))
      (get_src_range (reloc_of ops tm m hi q))) order"
  proof (rule sorted_wrt_mono_rel[rotated], clarify)
    fix x d y e
    assume p: "(x, d) \<in> set order" "(y, e) \<in> set order" "x \<noteq> y"
      and o: "overlaps (get_src_range (reloc_of ops tm m hi (x, d))) (get_src_range (reloc_of ops tm m hi (y, e)))"
    have "block x (obj_size ops tm m x) \<inter> block y (obj_size ops tm m y) = {}"
      using wf objs[OF p(1)] objs[OF p(2)] p(3) by (simp add: heap_wf_def)
    from block_shift_overlaps[OF _ _ this, of "hi_start hi"] above objs[OF p(1)] objs[OF p(2)] o
      sz[OF p(1)] sz[OF p(2)]
    show False by (simp add: reloc_of_def get_src_range_def)
  qed
  moreover have "\<forall>p \<in> set order. fst (get_src_range (reloc_of ops tm m hi p)) < snd (get_src_range (reloc_of ops tm m hi p))"
    using sz by (fastforce simp: reloc_of_def get_src_range_def)
  ultimately show "disjoint_records get_src_range (map (reloc_of ops tm m hi) order)"
    by (simp add: disjoint_records_def sorted_wrt_map)
  have "sorted_wrt (\<lambda>(x, d) (y, e). block d (obj_size ops tm m x) \<inter> block e (obj_size ops tm m y) = {}) order"
    using mark_invD(12)[OF inv] by (simp add: disjoint_blocks_iff placed_def sorted_wrt_map split_def)
  then have "sorted_wrt (\<lambda>p q. \<not> overlaps (get_dest_range (reloc_of ops tm m hi p))
      (get_dest_range (reloc_of ops tm m hi q))) order"
  proof (rule sorted_wrt_mono_rel[rotated], clarify)
    fix x d y e
    assume p: "(x, d) \<in> set order" "(y, e) \<in> set order"
      and dj: "block d (obj_size ops tm m x) \<inter> block e (obj_size ops tm m y) = {}"
      and o: "overlaps (get_dest_range (reloc_of ops tm m hi (x, d))) (get_dest_range (reloc_of ops tm m hi (y, e)))"
    from block_shift_overlaps[OF to[OF p(1)] to[OF p(2)] dj] o sz[OF p(1)] sz[OF p(2)]
    show False by (simp add: reloc_of_def get_dest_range_def)
  qed
  moreover have "\<forall>p \<in> set order. fst (get_dest_range (reloc_of ops tm m hi p)) < snd (get_dest_range (reloc_of ops tm m hi p))"
    using sz by (fastforce simp: reloc_of_def get_dest_range_def)
  ultimately show "disjoint_records get_dest_range (map (reloc_of ops tm m hi) order)"
    by (simp add: disjoint_records_def sorted_wrt_map)
qed

text \<open>Every live object has a forwarding address, and the frozen registry knows it.\<close>

lemma marker_forwards:
  assumes wf: "heap_wf ops tm known m objs" and above: "\<forall>x \<in> objs. hi_start hi \<le> x"
    and inv: "mark_inv ops tm m objs hi t builder_new roots order st"
  defines "f \<equiv> \<lambda>obj. the (map_of order obj)" and "frozen \<equiv> builder_freeze (ms_registry st)"
  shows "obj \<in> fst ` set order \<Longrightarrow> i < obj_size ops tm m obj \<Longrightarrow>
      map_src_to_dest frozen (obj + i - hi_start hi) = Inr (Some (f obj - hi_to_space hi + i))"
    and "obj \<in> fst ` set order \<Longrightarrow> 8 dvd f obj \<and> f obj \<noteq> 0 \<and> hi_to_space hi \<le> f obj"
    and "obj \<in> fst ` set order \<Longrightarrow> block (f obj) (obj_size ops tm m obj) \<subseteq> ctx_used (ms_alloc st)"
    and "x \<in> fst ` set order \<Longrightarrow> y \<in> fst ` set order \<Longrightarrow> x \<noteq> y \<Longrightarrow>
      block (f x) (obj_size ops tm m x) \<inter> block (f y) (obj_size ops tm m y) = {}"
    and "\<forall>obj \<in> fst ` set order. hi_start hi + p \<notin> block obj (obj_size ops tm m obj) \<Longrightarrow>
      map_src_to_dest frozen p = Inr None"
proof -
  let ?rs = "map (reloc_of ops tm m hi) order"
  have dist: "distinct (map fst order)" and sub: "fst ` set order \<subseteq> objs"
    and reg: "ms_registry st = insert_all builder_new ?rs"
    using mark_invD(3,4,7)[OF inv] by simp_all
  have f: "(obj, f obj) \<in> set order" if "obj \<in> fst ` set order" for obj
    using that dist by (auto simp: f_def)
  have inj: "d = f obj" if "(obj, d) \<in> set order" for obj d
    using that dist by (simp add: f_def)
  have frozen: "set (records_sorted_by_src frozen) = set ?rs"
    "chain get_src_range (records_sorted_by_src frozen)"
    using sort_src_chain[OF mark_inv_records(1)[OF wf above inv]] reg
    by (simp_all add: frozen_def freeze_records)
  have ge: "hi_start hi \<le> obj" if "obj \<in> fst ` set order" for obj using above sub that by blast
  have sz: "16 \<le> obj_size ops tm m obj" if "obj \<in> fst ` set order" for obj
    using wf sub that obj_size_ge by (auto simp: heap_wf_def)
  show used: "block (f obj) (obj_size ops tm m obj) \<subseteq> ctx_used (ms_alloc st)" if "obj \<in> fst ` set order" for obj
    using placed_block[OF f[OF that], of ops tm m] mark_invD(11)[OF inv] by simp
  show "8 dvd f obj \<and> f obj \<noteq> 0 \<and> hi_to_space hi \<le> f obj" if "obj \<in> fst ` set order"
  proof -
    have "f obj \<in> block (f obj) (obj_size ops tm m obj)" using sz[OF that] by simp
    with used[OF that] have "hi_to_space hi \<le> f obj" using mark_inv_used_above[OF inv] by blast
    then show ?thesis using f[OF that] mark_invD(6)[OF inv] by fastforce
  qed
  show "map_src_to_dest frozen (obj + i - hi_start hi) = Inr (Some (f obj - hi_to_space hi + i))"
    if obj: "obj \<in> fst ` set order" and i: "i < obj_size ops tm m obj"
  proof -
    have "in_range (get_src_range (reloc_of ops tm m hi (obj, f obj))) (obj + i - hi_start hi)"
      using i ge[OF obj] by (auto simp: in_range_def get_src_range_def reloc_of_def)
    moreover have "reloc_of ops tm m hi (obj, f obj) \<in> set (records_sorted_by_src frozen)"
      using f[OF obj] frozen(1) by simp
    ultimately have "map_src_to_dest frozen (obj + i - hi_start hi) =
        Inr (Some (f obj - hi_to_space hi + (obj + i - hi_start hi - (obj - hi_start hi))))"
      using map_src_to_dest_hit[OF frozen(2)] by (fastforce simp: reloc_of_def)
    then show ?thesis using ge[OF obj] by simp
  qed
  show "block (f x) (obj_size ops tm m x) \<inter> block (f y) (obj_size ops tm m y) = {}"
    if xy: "x \<in> fst ` set order" "y \<in> fst ` set order" "x \<noteq> y"
  proof -
    have "sorted_wrt (\<lambda>p q. block (snd p) (obj_size ops tm m (fst p)) \<inter>
        block (snd q) (obj_size ops tm m (fst q)) = {}) order"
      using mark_invD(12)[OF inv] by (simp add: disjoint_blocks_iff placed_def sorted_wrt_map split_def)
    then have "\<forall>p \<in> set order. \<forall>q \<in> set order. p \<noteq> q \<longrightarrow>
        block (snd p) (obj_size ops tm m (fst p)) \<inter> block (snd q) (obj_size ops tm m (fst q)) = {}"
      by (rule sorted_wrt_pairs) blast
    with f[OF xy(1)] f[OF xy(2)] xy(3) show ?thesis by force
  qed
  show "map_src_to_dest frozen p = Inr None"
    if out: "\<forall>obj \<in> fst ` set order. hi_start hi + p \<notin> block obj (obj_size ops tm m obj)"
  proof (rule map_src_to_dest_miss[OF frozen(2)], unfold frozen(1), clarify)
    fix r assume "r \<in> set ?rs" "in_range (get_src_range r) p"
    then obtain obj d where o: "(obj, d) \<in> set order"
      "in_range (get_src_range (reloc_of ops tm m hi (obj, d))) p" by auto
    then have obj: "obj \<in> fst ` set order" by force
    with o(2) ge[OF obj] have "hi_start hi + p \<in> block obj (obj_size ops tm m obj)"
      by (auto simp: in_range_def get_src_range_def reloc_of_def)
    with out obj show False by blast
  qed
qed

end

end
