(* ===== verification/GC_Controller.thy ===== *)
theory GC_Controller
  imports Prelude
begin

text \<open>
  \<open>uwugc/src/gc_controller.rs\<close>: the state behind the mutex and the protocol of its two condition
  variables. Each critical section is one step of a transition system over the state and the
  program points of the looper thread and of the client threads. A thread that waits on a condition
  variable is \<open>asleep\<close> until it is notified (there are no spurious wake-ups in \<open>parking_lot\<close>) and
  then evaluates the \<open>wait_while\<close> condition again. \<open>run_exclusive\<close> runs its closure with the mutex
  held, so while a client is in it no other thread takes a step. \<open>shutdown\<close> sets its flag under the mutex
  and notifies after it; here both are one step.
\<close>

section \<open>State\<close>

record controller_state =
  is_running :: bool
  is_requested :: bool
  is_shutting_down :: bool
  finished_count :: nat

definition controller_new :: controller_state where
  "controller_new = \<lparr>is_running = False, is_requested = False, is_shutting_down = False, finished_count = 0\<rparr>"

datatype looper_pc =
    Looper_Started      \<comment> \<open>spawned, about to take the mutex\<close>
  | Looper_Woken        \<comment> \<open>notified, about to test \<open>!is_requested\<close> again\<close>
  | Looper_Asleep       \<comment> \<open>in \<open>condvar.wait_while\<close>\<close>
  | Looper_Cycle        \<comment> \<open>running \<open>on_cycle\<close>, mutex released\<close>
  | Looper_Exited

datatype client_pc =
    Client_Idle
  | Cycle_Asleep nat    \<comment> \<open>\<open>start_and_wait_cycle\<close>, waiting for the count to change\<close>
  | Cycle_Woken nat
  | Excl_Asleep         \<comment> \<open>\<open>run_exclusive\<close>, waiting while a cycle runs\<close>
  | Excl_Woken
  | Excl_Inside         \<comment> \<open>running the closure, mutex held\<close>

record controller =
  c_state :: controller_state
  c_looper :: looper_pc
  c_clients :: "nat \<Rightarrow> client_pc"

section \<open>Critical sections\<close>

text \<open>\<open>condvar.notify_all()\<close> and \<open>cycle_done_condvar.notify_all()\<close>.\<close>

definition notify_condvar :: "controller \<Rightarrow> controller" where
  "notify_condvar c =
     c\<lparr>c_looper := (if c_looper c = Looper_Asleep then Looper_Woken else c_looper c),
       c_clients := (\<lambda>i. if c_clients c i = Excl_Asleep then Excl_Woken else c_clients c i)\<rparr>"

definition notify_cycle_done :: "controller \<Rightarrow> controller" where
  "notify_cycle_done c =
     c\<lparr>c_clients := (\<lambda>i. case c_clients c i of Cycle_Asleep n \<Rightarrow> Cycle_Woken n | pc \<Rightarrow> pc)\<rparr>"

definition shutdown :: "controller \<Rightarrow> controller" where
  "shutdown c = notify_condvar (c\<lparr>c_state := (c_state c)\<lparr>is_shutting_down := True\<rparr>\<rparr>)"

definition clear_request :: "controller_state \<Rightarrow> controller_state" where
  "clear_request s = s\<lparr>is_requested := False\<rparr>"

text \<open>\<open>wait_while(|x| cur_count == x.finished_count)\<close>: sleep again or return.\<close>

definition wait_cycle :: "nat \<Rightarrow> nat \<Rightarrow> controller \<Rightarrow> controller" where
  "wait_cycle i cur_count c =
     c\<lparr>c_clients := (c_clients c)(i :=
       (if cur_count = finished_count (c_state c) then Cycle_Asleep cur_count else Client_Idle))\<rparr>"

definition start_and_wait_cycle :: "nat \<Rightarrow> controller \<Rightarrow> controller" where
  "start_and_wait_cycle i c =
     (let cur_count = finished_count (c_state c);
          c = c\<lparr>c_state := (c_state c)\<lparr>is_requested := True\<rparr>\<rparr>;
          c = notify_condvar c
      in wait_cycle i cur_count c)"

definition run_exclusive_wait :: "nat \<Rightarrow> controller \<Rightarrow> controller" where
  "run_exclusive_wait i c =
     c\<lparr>c_clients := (c_clients c)(i := (if is_running (c_state c) then Excl_Asleep else Excl_Inside))\<rparr>"

text \<open>
  The looper holding the mutex: \<open>wait_while(|x| !x.is_requested)\<close> and what follows it, and the loop
  condition in front.
\<close>

definition looper_wait :: "controller \<Rightarrow> controller" where
  "looper_wait c =
     (if \<not> is_requested (c_state c) then c\<lparr>c_looper := Looper_Asleep\<rparr>
      else c\<lparr>c_state := (c_state c)\<lparr>is_running := True, is_requested := False\<rparr>, c_looper := Looper_Cycle\<rparr>)"

definition looper_head :: "controller \<Rightarrow> controller" where
  "looper_head c =
     (if is_shutting_down (c_state c) then c\<lparr>c_looper := Looper_Exited\<rparr> else looper_wait c)"

definition looper_finish :: "controller \<Rightarrow> controller" where
  "looper_finish c =
     (let c = c\<lparr>c_state := (c_state c)\<lparr>finished_count := finished_count (c_state c) + 1, is_running := False\<rparr>\<rparr>;
          c = notify_cycle_done c
      in looper_head c)"

definition controller_start :: controller where
  "controller_start =
     \<lparr>c_state = controller_new, c_looper = Looper_Started, c_clients = (\<lambda>_. Client_Idle)\<rparr>"

section \<open>The transition system\<close>

definition unlocked :: "controller \<Rightarrow> bool" where
  "unlocked c \<longleftrightarrow> (\<forall>i. c_clients c i \<noteq> Excl_Inside)"

datatype controller_event =
    Shutdown | Request nat | Enter nat | Clear | Start | Wake | Finish | Rewait nat | Leave nat

inductive controller_step :: "controller \<Rightarrow> controller_event \<Rightarrow> controller \<Rightarrow> bool" where
  step_shutdown: "unlocked c \<Longrightarrow> controller_step c Shutdown (shutdown c)"
| step_request: "unlocked c \<Longrightarrow> c_clients c i = Client_Idle \<Longrightarrow>
    controller_step c (Request i) (start_and_wait_cycle i c)"
| step_enter: "unlocked c \<Longrightarrow> c_clients c i = Client_Idle \<Longrightarrow>
    controller_step c (Enter i) (run_exclusive_wait i c)"
| step_clear: "unlocked c \<Longrightarrow> c_looper c = Looper_Cycle \<Longrightarrow>
    controller_step c Clear (c\<lparr>c_state := clear_request (c_state c)\<rparr>)"
| step_start: "unlocked c \<Longrightarrow> c_looper c = Looper_Started \<Longrightarrow> controller_step c Start (looper_head c)"
| step_wake: "unlocked c \<Longrightarrow> c_looper c = Looper_Woken \<Longrightarrow> controller_step c Wake (looper_wait c)"
| step_finish: "unlocked c \<Longrightarrow> c_looper c = Looper_Cycle \<Longrightarrow> controller_step c Finish (looper_finish c)"
| step_rewait_cycle: "unlocked c \<Longrightarrow> c_clients c i = Cycle_Woken n \<Longrightarrow>
    controller_step c (Rewait i) (wait_cycle i n c)"
| step_rewait_excl: "unlocked c \<Longrightarrow> c_clients c i = Excl_Woken \<Longrightarrow>
    controller_step c (Rewait i) (run_exclusive_wait i c)"
| step_leave: "c_clients c i = Excl_Inside \<Longrightarrow>
    controller_step c (Leave i) (c\<lparr>c_clients := (c_clients c)(i := Client_Idle)\<rparr>)"

inductive_cases controller_stepE: "controller_step c e c'"

inductive controller_steps :: "controller \<Rightarrow> controller_event list \<Rightarrow> controller \<Rightarrow> bool" where
  steps_nil: "controller_steps c [] c"
| steps_snoc: "controller_steps c es c' \<Longrightarrow> controller_step c' e c'' \<Longrightarrow> controller_steps c (es @ [e]) c''"

definition reachable :: "controller \<Rightarrow> bool" where
  "reachable c \<longleftrightarrow> (\<exists>es. controller_steps controller_start es c)"

lemmas controller_defs = notify_condvar_def notify_cycle_done_def shutdown_def clear_request_def
  wait_cycle_def start_and_wait_cycle_def run_exclusive_wait_def looper_wait_def looper_head_def
  looper_finish_def Let_def

section \<open>The invariant\<close>

definition controller_inv :: "controller \<Rightarrow> bool" where
  "controller_inv c \<longleftrightarrow>
     (is_running (c_state c) \<longleftrightarrow> c_looper c = Looper_Cycle) \<and>
     (c_looper c = Looper_Asleep \<longrightarrow> \<not> is_requested (c_state c)) \<and>
     (c_looper c = Looper_Exited \<longrightarrow> is_shutting_down (c_state c)) \<and>
     (\<forall>i n. c_clients c i = Cycle_Asleep n \<longrightarrow>
        n = finished_count (c_state c) \<and>
        (is_requested (c_state c) \<or> is_running (c_state c) \<or> c_looper c = Looper_Exited)) \<and>
     (\<forall>i n. c_clients c i = Cycle_Woken n \<longrightarrow> n < finished_count (c_state c)) \<and>
     (\<forall>i. c_clients c i = Excl_Inside \<longrightarrow>
        \<not> is_running (c_state c) \<and> (\<forall>j. c_clients c j = Excl_Inside \<longrightarrow> j = i))"

lemma controller_inv_head:
  assumes "controller_inv (c\<lparr>c_looper := Looper_Woken\<rparr>)" "unlocked c"
    "\<not> is_running (c_state c)" "\<And>i n. c_clients c i = Cycle_Asleep n \<Longrightarrow> is_requested (c_state c)"
  shows "controller_inv (looper_head c)" "controller_inv (looper_wait c)"
  using assms by (auto simp: controller_inv_def looper_head_def looper_wait_def unlocked_def)

lemma controller_inv_start: "controller_inv controller_start"
  by (simp add: controller_start_def controller_inv_def controller_defs controller_new_def)

lemma controller_inv_request:
  "controller_inv c \<Longrightarrow> unlocked c \<Longrightarrow> controller_inv (start_and_wait_cycle i c)"
  by (auto simp: controller_inv_def controller_defs unlocked_def split: if_splits)

lemma controller_inv_excl:
  "controller_inv c \<Longrightarrow> unlocked c \<Longrightarrow> controller_inv (run_exclusive_wait i c)"
  by (auto simp: controller_inv_def controller_defs unlocked_def split: if_splits)

lemma controller_inv_finish:
  assumes "controller_inv c" "unlocked c" "c_looper c = Looper_Cycle"
  shows "controller_inv (looper_finish c)"
proof -
  let ?c = "notify_cycle_done (c\<lparr>c_state := (c_state c)\<lparr>finished_count := finished_count (c_state c) + 1,
    is_running := False\<rparr>\<rparr>)"
  have "controller_inv (?c\<lparr>c_looper := Looper_Woken\<rparr>)" "unlocked ?c"
    "\<And>i n. c_clients ?c i \<noteq> Cycle_Asleep n"
    using assms by (auto simp: controller_inv_def notify_cycle_done_def unlocked_def less_Suc_eq
        split: client_pc.splits)
  then have "controller_inv (looper_head ?c)"
    by (intro controller_inv_head(1)) (auto simp: notify_cycle_done_def)
  then show ?thesis by (simp add: looper_finish_def)
qed

lemma controller_inv_step: "controller_step c e c' \<Longrightarrow> controller_inv c \<Longrightarrow> controller_inv c'"
proof (induction rule: controller_step.induct)
  case (step_shutdown c)
  then show ?case by (auto simp: controller_inv_def shutdown_def notify_condvar_def split: if_splits)
next
  case (step_start c)
  then show ?case
    by (intro controller_inv_head(1)) (auto simp: controller_inv_def)
next
  case (step_wake c)
  then show ?case
    by (intro controller_inv_head(2)) (auto simp: controller_inv_def)
next
  case (step_rewait_cycle c i n)
  then have "n \<noteq> finished_count (c_state c)" by (auto simp: controller_inv_def)
  with step_rewait_cycle show ?case by (auto simp: controller_inv_def wait_cycle_def)
next
  case (step_clear c)
  then show ?case by (auto simp: controller_inv_def clear_request_def)
next
  case (step_leave c i)
  then show ?case by (auto simp: controller_inv_def)
qed (auto intro: controller_inv_request controller_inv_excl controller_inv_finish)

lemma controller_inv_steps: "controller_steps c es c' \<Longrightarrow> controller_inv c \<Longrightarrow> controller_inv c'"
  by (induction rule: controller_steps.induct) (auto intro: controller_inv_step)

lemma reachable_inv: "reachable c \<Longrightarrow> controller_inv c"
  using controller_inv_steps[OF _ controller_inv_start] by (auto simp: reachable_def)

section \<open>Properties\<close>

text \<open>
  C29: \<open>run_exclusive\<close> excludes the collector: in every reachable state, while a thread runs its
  closure no cycle is running, no other thread is in a closure, and the only possible step of the
  whole system is that the closure ends.
\<close>

theorem run_exclusive_excludes:
  assumes "reachable c" "c_clients c i = Excl_Inside"
  shows "c_looper c \<noteq> Looper_Cycle \<and> (\<forall>j. c_clients c j = Excl_Inside \<longrightarrow> j = i) \<and>
    (\<forall>e c'. controller_step c e c' \<longrightarrow> e = Leave i)"
proof -
  have inv: "controller_inv c" using assms(1) by (rule reachable_inv)
  have lock: "\<not> unlocked c" using assms(2) by (auto simp: unlocked_def)
  have "e = Leave i" if "controller_step c e c'" for e c'
    using that
  proof (cases rule: controller_step.cases)
    case (step_leave j)
    with inv assms(2) show ?thesis by (auto simp: controller_inv_def)
  qed (use lock in simp_all)
  with inv assms(2) show ?thesis by (auto simp: controller_inv_def)
qed

lemma reachable_start: "reachable controller_start"
  unfolding reachable_def by (rule exI) (rule steps_nil)

lemma reachable_step: "reachable c \<Longrightarrow> controller_step c e c' \<Longrightarrow> reachable c'"
  unfolding reachable_def by (blast intro: steps_snoc)

lemma start_unlocked: "unlocked controller_start"
  by (simp add: unlocked_def controller_start_def controller_defs controller_new_def)

theorem run_exclusive_excludes_witness:
  "c_looper (run_exclusive_wait 7 controller_start) \<noteq> Looper_Cycle"
proof -
  have "reachable (run_exclusive_wait 7 controller_start)"
    by (rule reachable_step[OF reachable_start step_enter[OF start_unlocked]])
      (simp add: controller_start_def controller_defs controller_new_def)
  moreover have "c_clients (run_exclusive_wait 7 controller_start) 7 = Excl_Inside"
    by (simp add: controller_start_def controller_defs controller_new_def)
  ultimately show ?thesis using run_exclusive_excludes by blast
qed

text \<open>
  C30: A cycle request is not lost: in every reachable state a thread waiting in
  \<open>start_and_wait_cycle\<close> has a cycle requested or running for it (unless the looper has exited), and
  when the looper waits for a request while one is there it has been notified; when the cycle
  finishes every waiting thread is woken and its \<open>wait_while\<close> condition is false.
\<close>

theorem cycle_request_served:
  assumes "reachable c" "c_clients c i = Cycle_Asleep n"
  shows "((is_requested (c_state c) \<and> c_looper c \<noteq> Looper_Asleep) \<or> c_looper c = Looper_Cycle \<or>
      c_looper c = Looper_Exited) \<and>
    c_clients (looper_finish c) i = Cycle_Woken n \<and> n < finished_count (c_state (looper_finish c))"
proof (intro conjI)
  have inv: "controller_inv c" using assms(1) by (rule reachable_inv)
  then show "(is_requested (c_state c) \<and> c_looper c \<noteq> Looper_Asleep) \<or> c_looper c = Looper_Cycle \<or>
      c_looper c = Looper_Exited" using assms(2) by (auto simp: controller_inv_def)
  show "c_clients (looper_finish c) i = Cycle_Woken n"
    using assms(2) by (auto simp: controller_defs)
  show "n < finished_count (c_state (looper_finish c))"
    using inv assms(2) by (auto simp: controller_inv_def controller_defs)
qed

lemma request_reachable: "reachable (start_and_wait_cycle 7 controller_start)"
  by (rule reachable_step[OF reachable_start step_request[OF start_unlocked]])
    (simp add: controller_start_def controller_defs controller_new_def)

theorem cycle_request_served_witness:
  "c_clients (looper_finish (start_and_wait_cycle 7 controller_start)) 7 = Cycle_Woken 0"
proof -
  have "c_clients (start_and_wait_cycle 7 controller_start) 7 = Cycle_Asleep 0"
    by (simp add: controller_start_def controller_defs controller_new_def)
  from cycle_request_served[OF request_reachable this] show ?thesis by simp
qed

text \<open>
  C40: Shutdown hangs. Once the looper waits for a request in \<open>wait_while\<close> and none is pending,
  \<open>shutdown\<close> does not end it: \<open>wait_while\<close> tests \<open>is_requested\<close> only, so in no continuation without a
  new cycle request, whatever shutdowns and wake-ups it has, does the looper exit. (\<open>UwUGC::drop\<close>,
  which shuts down and joins the looper's thread, blocks.)
\<close>

theorem shutdown_hangs:
  assumes "controller_steps c es c'" "c_looper c = Looper_Asleep" "\<not> is_requested (c_state c)"
    and "\<forall>i. Request i \<notin> set es"
  shows "c_looper c' \<noteq> Looper_Exited \<and> c_looper c' \<noteq> Looper_Cycle"
proof -
  have "(c_looper c' = Looper_Asleep \<or> c_looper c' = Looper_Woken) \<and> \<not> is_requested (c_state c')"
    using assms
  proof (induction rule: controller_steps.induct)
    case (steps_snoc c es c' e c'')
    then have "(c_looper c' = Looper_Asleep \<or> c_looper c' = Looper_Woken) \<and> \<not> is_requested (c_state c')"
      by auto
    with steps_snoc.hyps(2) steps_snoc.prems(3) show ?case
      by (cases rule: controller_step.cases) (auto simp: controller_defs)
  qed auto
  then show ?thesis by auto
qed

theorem shutdown_hangs_witness:
  "reachable (looper_head controller_start) \<and>
   controller_steps (looper_head controller_start) ([] @ [Shutdown] @ []) (shutdown (looper_head controller_start)) \<and>
   c_looper (shutdown (looper_head controller_start)) \<noteq> Looper_Exited"
proof -
  let ?c = "looper_head controller_start"
  have started: "reachable ?c"
    by (rule reachable_step[OF reachable_start step_start[OF start_unlocked]]) (simp add: controller_start_def)
  have "controller_steps ?c ([] @ [Shutdown]) (shutdown ?c)"
    by (rule steps_snoc[OF steps_nil step_shutdown])
      (simp add: unlocked_def controller_start_def controller_defs controller_new_def)
  moreover from shutdown_hangs[OF this] have "c_looper (shutdown ?c) \<noteq> Looper_Exited"
    by (simp add: controller_start_def controller_defs controller_new_def)
  ultimately show ?thesis using started by simp
qed

text \<open>
  A thread that waits in \<open>run_exclusive\<close> for a running cycle is not woken when the cycle ends,
  because the looper notifies the other condition variable only: whatever else happens, it sleeps
  until someone requests a cycle or shuts down.
\<close>

theorem run_exclusive_missed_wakeup:
  assumes "controller_steps c es c'" "c_clients c i = Excl_Asleep"
    and "Shutdown \<notin> set es" "\<forall>j. Request j \<notin> set es"
  shows "c_clients c' i = Excl_Asleep"
  using assms
proof (induction rule: controller_steps.induct)
  case (steps_snoc c es c' e c'')
  then have "c_clients c' i = Excl_Asleep" by auto
  with steps_snoc.hyps(2) steps_snoc.prems(2,3) show ?case
    by (cases rule: controller_step.cases) (auto simp: controller_defs)
qed

lemma entered_reachable:
  "reachable (run_exclusive_wait 5 (looper_head (start_and_wait_cycle 7 controller_start)))"
  by (rule reachable_step[OF reachable_step[OF request_reachable step_start] step_enter])
    (simp_all add: unlocked_def controller_start_def controller_defs controller_new_def)

theorem run_exclusive_missed_wakeup_witness:
  "\<exists>c c'. reachable c \<and> controller_steps c ([] @ [Finish]) c' \<and>
     \<not> is_running (c_state c') \<and> c_clients c' 5 = Excl_Asleep"
proof -
  let ?c = "run_exclusive_wait 5 (looper_head (start_and_wait_cycle 7 controller_start))"
  note d = controller_start_def controller_defs controller_new_def unlocked_def
  have steps: "controller_steps ?c ([] @ [Finish]) (looper_finish ?c)"
    by (rule steps_snoc[OF steps_nil step_finish]) (simp_all add: d)
  from run_exclusive_missed_wakeup[OF steps, of 5]
  have "c_clients (looper_finish ?c) 5 = Excl_Asleep" by (simp add: d)
  moreover have "\<not> is_running (c_state (looper_finish ?c))" by (simp add: d)
  ultimately show ?thesis using steps entered_reachable by fastforce
qed

end
