(* ===== verification/Shared_State.thy ===== *)
theory Shared_State
  imports Marker GC_Controller "HOL-Library.AList"
begin

text \<open>
  \<open>uwugc/src/state.rs\<close>, \<open>state/context.rs\<close> and \<open>root_set.rs\<close>: the state behind \<open>GCSync\<close> and the
  operations of a mutator's context. A root set is the list of pointers it visits, in order. The
  contexts are an association list by thread id, in the order the map iterates. The memory of the
  two spaces is one \<open>memory\<close> beside the state; \<open>madvise\<close> with \<open>DontNeed\<close> on a private anonymous
  mapping makes it read as zeros.
\<close>

section \<open>Root sets\<close>

text \<open>\<open>map_pointers\<close> with a visitor that may panic, \<open>iter_pointers\<close> and \<open>clone_boxed\<close>.\<close>

type_synonym root_set = "object_ptr list"

fun root_map_pointers :: "(object_ptr \<Rightarrow> object_ptr res) \<Rightarrow> root_set \<Rightarrow> root_set res" where
  "root_map_pointers visitor [] = Inr []"
| "root_map_pointers visitor (x # xs) =
     bind_res (visitor x) (\<lambda>y. bind_res (root_map_pointers visitor xs) (\<lambda>ys. Inr (y # ys)))"

definition root_clone_boxed :: "root_set \<Rightarrow> root_set" where
  "root_clone_boxed roots = roots"

lemma root_map_pointers_total:
  "\<forall>x \<in> set roots. visitor x = Inr (f x) \<Longrightarrow> root_map_pointers visitor roots = Inr (map f roots)"
  by (induction roots) auto

lemma root_map_pointers_panics:
  "x \<in> set roots \<Longrightarrow> visitor x = Inl e \<Longrightarrow> \<not> ok (root_map_pointers visitor roots)"
  by (induction roots) (auto simp: bind_res_def split: sum.splits)

section \<open>State\<close>

record context_shared =
  cs_mm_context :: mm_context
  cs_root_set :: root_set

record 'tm shared_state =
  ss_mm :: heap_mm
  ss_second_mm :: "heap_mm list"        \<comment> \<open>the channel of cleared spaces, oldest first\<close>
  ss_contexts :: "(nat \<times> context_shared) list"
  ss_mark_true_bit :: bit2
  ss_type_manager :: 'tm

record 'tm world =
  w_shared :: "'tm shared_state"
  w_controller :: controller_state
  w_memory :: memory

text \<open>
  \<open>UwUGC::new\<close>: the second space is mapped first. \<open>os_map0\<close> and \<open>os_map1\<close> are the kernel at the first
  and at the second of the two calls.
\<close>

definition shared_state_new ::
    "(nat \<Rightarrow> nat option \<Rightarrow> 'e + nat) \<Rightarrow> (nat \<Rightarrow> nat option \<Rightarrow> 'e + nat) \<Rightarrow> nat \<Rightarrow> nat option \<Rightarrow> nat option \<Rightarrow> 'tm \<Rightarrow> 'e + 'tm shared_state" where
  "shared_state_new os_map0 os_map1 sz preferred_primary_base preferred_second_space manager =
     (case mm_new os_map0 sz preferred_second_space of
        Inl e \<Rightarrow> Inl e
      | Inr second \<Rightarrow>
          (case mm_new os_map1 sz preferred_primary_base of
             Inl e \<Rightarrow> Inl e
           | Inr primary \<Rightarrow>
               Inr \<lparr>ss_mm = primary, ss_second_mm = [second], ss_contexts = [], ss_mark_true_bit = Bit1,
                    ss_type_manager = manager\<rparr>))"

definition set_type_manager :: "'tm \<Rightarrow> 'tm shared_state \<Rightarrow> 'tm shared_state \<times> 'tm" where
  "set_type_manager new ss = (ss\<lparr>ss_type_manager := new\<rparr>, ss_type_manager ss)"

definition new_context :: "nat \<Rightarrow> root_set \<Rightarrow> 'tm shared_state \<Rightarrow> 'tm shared_state" where
  "new_context thread roots ss =
     ss\<lparr>ss_contexts := AList.update thread \<lparr>cs_mm_context = mm_context_new, cs_root_set = roots\<rparr> (ss_contexts ss)\<rparr>"

text \<open>\<open>recv\<close> on an empty channel waits for a sender; the collector itself is the only one.\<close>

definition deque_cleared_mm :: "'tm shared_state \<Rightarrow> ('tm shared_state \<times> heap_mm) res" where
  "deque_cleared_mm ss =
     (case ss_second_mm ss of
        [] \<Rightarrow> Inl Blocked
      | mm # rest \<Rightarrow> Inr (ss\<lparr>ss_second_mm := rest\<rparr>, mm))"

definition zero_range :: "memory \<Rightarrow> nat \<Rightarrow> nat \<Rightarrow> memory" where
  "zero_range m a n = (\<lambda>x. if x \<in> block a n then 0 else m x)"

definition mm_clear :: "heap_mm \<Rightarrow> memory \<Rightarrow> memory" where
  "mm_clear mm m = zero_range m (map_ptr (mm_mapping mm)) (map_len (mm_mapping mm))"

definition enqueue_to_be_cleared_mm ::
    "heap_mm \<Rightarrow> 'tm shared_state \<Rightarrow> memory \<Rightarrow> 'tm shared_state \<times> memory" where
  "enqueue_to_be_cleared_mm mm ss m = (ss\<lparr>ss_second_mm := ss_second_mm ss @ [mm]\<rparr>, mm_clear mm m)"

text \<open>The first half of the closure of \<open>gc_thread\<close>.\<close>

definition flush_contexts :: "'tm shared_state \<Rightarrow> 'tm shared_state" where
  "flush_contexts ss =
     ss\<lparr>ss_contexts := map (\<lambda>(thread, cs).
       (thread, cs\<lparr>cs_mm_context := flush_local_buf (cs_mm_context cs)\<rparr>)) (ss_contexts ss)\<rparr>"

section \<open>Allocation by a mutator\<close>

datatype alloc_type = Typed "64 word" | Plain nat

fun to_obj_kind :: "alloc_type \<Rightarrow> metadata_enum" where
  "to_obj_kind (Plain x) = PlainOldData (word_of_nat x)"
| "to_obj_kind (Typed x) = NotPlainOldData x"

fun get_size_of_alloc :: "bool \<Rightarrow> 'tm type_manager_ops \<Rightarrow> 'tm \<Rightarrow> alloc_type \<Rightarrow> nat res" where
  "get_size_of_alloc checks ops tm (Plain x) = usize_in checks (x + METADATA_SIZE)"
| "get_size_of_alloc checks ops tm (Typed x) =
     bind_res (tm_static_size ops tm x) (\<lambda>r. bind_res (unwrap r) (\<lambda>n. usize_in checks (n + METADATA_SIZE)))"

definition init_object :: "bit2 \<Rightarrow> memory \<Rightarrow> nat \<Rightarrow> metadata_enum \<Rightarrow> (memory \<times> object_ptr) res" where
  "init_object mark_true_bit m ptr kind =
     (let meta = \<lparr>is_marked = bit_not mark_true_bit, write_barrier_activated = False, payload = kind\<rparr>;
          m = write_metadata m ptr (metadata_new meta) in
      bind_res (unwrap (object_from_raw ptr)) (\<lambda>obj. Inr (m, obj)))"

text \<open>The context of the calling thread, and \<open>alloc_fast\<close>.\<close>

definition alloc_fast ::
    "bool \<Rightarrow> 'tm type_manager_ops \<Rightarrow> nat \<Rightarrow> alloc_type \<Rightarrow> nat \<Rightarrow> 'tm world \<Rightarrow> ('tm world \<times> object_ptr option) res" where
  "alloc_fast checks ops thread ty extra_bytes w =
     (let ss = w_shared w; kind = to_obj_kind ty in
      bind_res (unwrap (map_of (ss_contexts ss) thread)) (\<lambda>cs.
      bind_res (get_size_of_alloc checks ops (ss_type_manager ss) ty) (\<lambda>sz.
      bind_res (usize_in checks (sz + extra_bytes)) (\<lambda>bytes.
      bind_res (mm_alloc (cs_mm_context cs) (ss_mm ss) bytes) (\<lambda>((ctx, mm), ret).
        let w = w\<lparr>w_shared := ss\<lparr>ss_mm := mm,
          ss_contexts := AList.update thread (cs\<lparr>cs_mm_context := ctx\<rparr>) (ss_contexts ss)\<rparr>\<rparr> in
        case ret of
          None \<Rightarrow> Inr (w, None)
        | Some (ptr, _) \<Rightarrow>
            bind_res (init_object (ss_mark_true_bit ss) (w_memory w) ptr kind) (\<lambda>(m, obj).
              Inr (w\<lparr>w_memory := m\<rparr>, Some obj)))))))"

text \<open>
  \<open>alloc_slow\<close>: three attempts with a collection after each failure; \<open>start_and_wait_cycle\<close> runs
  unguarded and is the parameter \<open>cycle\<close> on the world.
\<close>

fun alloc_slow_loop ::
    "bool \<Rightarrow> 'tm type_manager_ops \<Rightarrow> ('tm world \<Rightarrow> 'tm world res) \<Rightarrow> nat \<Rightarrow> nat \<Rightarrow> alloc_type \<Rightarrow> nat \<Rightarrow> 'tm world
     \<Rightarrow> ('tm world \<times> object_ptr option) res" where
  "alloc_slow_loop checks ops cycle 0 thread ty extra_bytes w = Inr (w, None)"
| "alloc_slow_loop checks ops cycle (Suc k) thread ty extra_bytes w =
     bind_res (alloc_fast checks ops thread ty extra_bytes w) (\<lambda>(w, ret).
       case ret of
         Some obj \<Rightarrow> Inr (w, Some obj)
       | None \<Rightarrow> bind_res (cycle w) (\<lambda>w. alloc_slow_loop checks ops cycle k thread ty extra_bytes w))"

definition alloc_slow ::
    "bool \<Rightarrow> 'tm type_manager_ops \<Rightarrow> ('tm world \<Rightarrow> 'tm world res) \<Rightarrow> nat \<Rightarrow> alloc_type \<Rightarrow> nat \<Rightarrow> 'tm world
     \<Rightarrow> ('tm world \<times> object_ptr option) res" where
  "alloc_slow checks ops cycle thread ty extra_bytes w = alloc_slow_loop checks ops cycle 3 thread ty extra_bytes w"

text \<open>The size of a request that fits, with overflow checks, is its size without them.\<close>

lemma alloc_size_in: "get_size_of_alloc True ops tm ty = Inr sz \<Longrightarrow> get_size_of_alloc checks ops tm ty = Inr sz"
  by (cases ty) (auto simp: usize_in_True res_eq_simps)

lemma alloc_size_ge: "get_size_of_alloc True ops tm ty = Inr sz \<Longrightarrow> 16 \<le> sz + extra"
  by (cases ty) (auto simp: METADATA_SIZE_def usize_in_True res_eq_simps)

text \<open>
  Without overflow checks the size of a request wraps: a plain object of \<open>2 ^ 64 - 16 + k\<close> bytes gets \<open>k\<close>
  bytes, fewer than its header has.
\<close>

lemma plain_size_wraps:
  assumes "k < 16"
  shows "get_size_of_alloc False ops tm (Plain (2 ^ 64 - 16 + k)) = Inr k"
    "get_size_of_alloc True ops tm (Plain (2 ^ 64 - 16 + k)) = Inl Arith_Overflow"
  using assms by (simp_all add: usize_in_def METADATA_SIZE_def)

end
