(* ===== verification/Bitmap.thy ===== *)
theory Bitmap
  imports Prelude
begin

text \<open>
  \<open>uwugc/src/bitmap.rs\<close>: a bitmap over atomic 64-bit words. Every update is one atomic
  read-modify-write of a word, so concurrent updates are a sequence of these steps in some order.
  \<open>bits_of\<close>, the list of flags, is the abstraction; the operations refine list indexing and update.
\<close>

unbundle bit_operations_syntax

section \<open>The bitmap\<close>

record atomic_bitmap =
  bm_mem :: "64 word list"
  bm_len :: nat

datatype memory_order = Acquire | Release | AcqRel | SeqCst | Relaxed

definition bitmap_new :: "nat \<Rightarrow> atomic_bitmap" where
  "bitmap_new len = \<lparr>bm_mem = replicate (div_ceil len 64) 0, bm_len = len\<rparr>"

definition calc_bit_pos :: "nat \<Rightarrow> nat \<times> 64 word" where
  "calc_bit_pos idx = (idx div 64, push_bit (idx mod 64) 1)"

fun make_fetch_store_order :: "memory_order \<Rightarrow> memory_order \<times> memory_order" where
  "make_fetch_store_order Acquire = (Acquire, Relaxed)"
| "make_fetch_store_order Release = (Relaxed, Release)"
| "make_fetch_store_order AcqRel = (Acquire, Release)"
| "make_fetch_store_order SeqCst = (SeqCst, SeqCst)"
| "make_fetch_store_order Relaxed = (Relaxed, Relaxed)"

text \<open>
  \<open>AtomicUsize::update\<close> panics when its load order has release semantics or its store order is the
  acquire one, whatever the word holds.
\<close>

definition valid_orders :: "memory_order \<Rightarrow> memory_order \<Rightarrow> bool" where
  "valid_orders set_order fetch_order \<longleftrightarrow> fetch_order \<noteq> Release \<and> fetch_order \<noteq> AcqRel"

definition bitmap_update ::
    "atomic_bitmap \<Rightarrow> memory_order \<Rightarrow> memory_order \<Rightarrow> nat \<Rightarrow> (bool \<Rightarrow> bool) \<Rightarrow> (atomic_bitmap \<times> bool) res" where
  "bitmap_update bm set_order fetch_order idx func =
     (if bm_len bm \<le> idx then Inl Explicit_Panic
      else
        let (word, mask) = calc_bit_pos idx in
        bind_res (index (bm_mem bm) word) (\<lambda>x.
          if valid_orders set_order fetch_order then
            (let x' = (if func (x AND mask \<noteq> 0) then x OR mask else x AND NOT mask) in
             Inr (bm\<lparr>bm_mem := (bm_mem bm)[word := x']\<rparr>, x AND mask \<noteq> 0))
          else Inl Explicit_Panic))"

definition bitmap_set :: "atomic_bitmap \<Rightarrow> nat \<Rightarrow> bool \<Rightarrow> memory_order \<Rightarrow> (atomic_bitmap \<times> bool) res" where
  "bitmap_set bm idx value order =
     (let (fetch_order, set_order) = make_fetch_store_order order in
      bitmap_update bm set_order fetch_order idx (\<lambda>_. value))"

section \<open>The abstraction\<close>

definition bitmap_wf :: "atomic_bitmap \<Rightarrow> bool" where
  "bitmap_wf bm \<longleftrightarrow> length (bm_mem bm) = div_ceil (bm_len bm) 64"

definition bit_at :: "atomic_bitmap \<Rightarrow> nat \<Rightarrow> bool" where
  "bit_at bm i = bit (bm_mem bm ! (i div 64)) (i mod 64)"

definition bits_of :: "atomic_bitmap \<Rightarrow> bool list" where
  "bits_of bm = map (bit_at bm) [0..<bm_len bm]"

lemma length_bits_of [simp]: "length (bits_of bm) = bm_len bm"
  by (simp add: bits_of_def)

lemma bits_of_nth [simp]: "i < bm_len bm \<Longrightarrow> bits_of bm ! i = bit_at bm i"
  by (simp add: bits_of_def)

lemma word_in_range: "bitmap_wf bm \<Longrightarrow> i < bm_len bm \<Longrightarrow> i div 64 < length (bm_mem bm)"
  using div_ceil_mult_ge[of 64 "bm_len bm"] by (simp add: bitmap_wf_def div_less_iff_less_mult)

lemma orders_valid:
  "make_fetch_store_order ord = (f, s) \<Longrightarrow> valid_orders s f"
  by (cases ord) (auto simp: valid_orders_def)

lemma and_mask: "x AND push_bit n 1 \<noteq> 0 \<longleftrightarrow> bit x n" if "n < 64" for x :: "64 word"
proof -
  have "x AND push_bit n 1 = (if bit x n then push_bit n 1 else 0)"
    by (rule bit_eqI) (auto simp: bit_simps)
  with that show ?thesis by simp
qed

lemma bit_set_clear:
  fixes x :: "64 word"
  assumes "k < 64" "n < 64"
  shows "bit (if v then x OR push_bit n 1 else x AND NOT (push_bit n 1)) k = (if k = n then v else bit x k)"
  using assms by (auto simp: bit_simps)

lemma bitmap_set_eq:
  assumes wf: "bitmap_wf bm" and i: "i < bm_len bm"
  obtains bm' where "bitmap_set bm i v ord = Inr (bm', bit_at bm i)" "bitmap_wf bm'"
    "bm_len bm' = bm_len bm" "\<forall>j < bm_len bm. bit_at bm' j = (if j = i then v else bit_at bm j)"
proof -
  let ?w = "i div 64" and ?m = "push_bit (i mod 64) (1 :: 64 word)"
  let ?x = "bm_mem bm ! ?w"
  let ?bm = "bm\<lparr>bm_mem := (bm_mem bm)[?w := if v then ?x OR ?m else ?x AND NOT ?m]\<rparr>"
  obtain f s where fs: "make_fetch_store_order ord = (f, s)" by (cases "make_fetch_store_order ord")
  have w: "?w < length (bm_mem bm)" using wf i by (rule word_in_range)
  have "bitmap_set bm i v ord = Inr (?bm, bit_at bm i)"
    using i w orders_valid[OF fs] and_mask[of "i mod 64" ?x]
    by (simp add: bitmap_set_def fs bitmap_update_def calc_bit_pos_def bit_at_def Let_def)
  moreover have "bit_at ?bm j = (if j = i then v else bit_at bm j)" if "j < bm_len bm" for j
  proof (cases "j div 64 = ?w")
    case True
    then have "j = i \<longleftrightarrow> j mod 64 = i mod 64" by (metis div_mult_mod_eq)
    with True w bit_set_clear[of "j mod 64" "i mod 64" v ?x] show ?thesis
      by (simp add: bit_at_def)
  next
    case False
    then have "j \<noteq> i" by auto
    with False show ?thesis by (simp add: bit_at_def)
  qed
  ultimately show thesis
    using wf by (intro that[of ?bm]) (auto simp: bitmap_wf_def)
qed

lemma bitmap_set_bits:
  assumes "bitmap_wf bm" "i < bm_len bm"
  obtains bm' where "bitmap_set bm i v ord = Inr (bm', bits_of bm ! i)" "bitmap_wf bm'"
    "bits_of bm' = (bits_of bm)[i := v]"
proof -
  from assms obtain bm' where bm': "bitmap_set bm i v ord = Inr (bm', bit_at bm i)" "bitmap_wf bm'"
    "bm_len bm' = bm_len bm" "\<forall>j < bm_len bm. bit_at bm' j = (if j = i then v else bit_at bm j)"
    by (rule bitmap_set_eq[of _ _ v ord])
  have "bits_of bm' = (bits_of bm)[i := v]"
    using assms(2) bm'(3,4) by (intro nth_equalityI) (auto simp: nth_list_update)
  with bm' assms(2) show thesis by (intro that) auto
qed

lemma bitmap_new_bits: "bitmap_wf (bitmap_new n)" "bits_of (bitmap_new n) = replicate n False"
proof -
  show wf: "bitmap_wf (bitmap_new n)" by (simp add: bitmap_wf_def bitmap_new_def)
  have "bit_at (bitmap_new n) i = False" if "i < n" for i
    using word_in_range[OF wf, of i] that by (simp add: bit_at_def bitmap_new_def)
  then show "bits_of (bitmap_new n) = replicate n False"
    by (intro nth_equalityI) (auto simp: bitmap_new_def)
qed

section \<open>Claiming work: a sequence of atomic \<open>set(i, true)\<close>\<close>

fun claim_all :: "atomic_bitmap \<Rightarrow> nat list \<Rightarrow> (atomic_bitmap \<times> bool list) res" where
  "claim_all bm [] = Inr (bm, [])"
| "claim_all bm (i # is) =
     bind_res (bitmap_set bm i True Relaxed) (\<lambda>(bm, was).
     bind_res (claim_all bm is) (\<lambda>(bm, ws). Inr (bm, was # ws)))"

lemma claim_all_results:
  assumes "bitmap_wf bm" "\<forall>i \<in> set is. i < bm_len bm"
  shows "\<exists>bm' ws. claim_all bm is = Inr (bm', ws) \<and> length ws = length is \<and>
    (\<forall>k < length is. ws ! k = (bits_of bm ! (is ! k) \<or> is ! k \<in> set (take k is)))"
  using assms
proof (induction "is" arbitrary: bm)
  case Nil
  then show ?case by simp
next
  case (Cons i "is")
  have "i < bm_len bm" using Cons.prems by simp
  with Cons.prems(1) obtain bm1 where bm1: "bitmap_set bm i True Relaxed = Inr (bm1, bits_of bm ! i)"
    "bitmap_wf bm1" "bits_of bm1 = (bits_of bm)[i := True]" by (rule bitmap_set_bits[of _ _ True Relaxed])
  have len: "bm_len bm1 = bm_len bm" using bm1(3) by (metis length_bits_of length_list_update)
  then obtain bm' ws where ih: "claim_all bm1 is = Inr (bm', ws)" "length ws = length is"
    "\<forall>k < length is. ws ! k = (bits_of bm1 ! (is ! k) \<or> is ! k \<in> set (take k is))"
    using Cons.IH[OF bm1(2)] Cons.prems(2) by auto
  have "(bits_of bm ! i # ws) ! k = (bits_of bm ! ((i # is) ! k) \<or> (i # is) ! k \<in> set (take k (i # is)))"
    if "k < length (i # is)" for k
    using that ih(3) bm1(3) Cons.prems(2) by (cases k) (auto simp: nth_list_update simp del: bits_of_nth)
  with bm1(1) ih(1,2) show ?case by simp
qed

lemma first_occurrence:
  assumes "i \<in> set is"
  shows "\<exists>!k. k < length is \<and> is ! k = i \<and> is ! k \<notin> set (take k is)"
  using assms
proof (induction "is" rule: rev_induct)
  case (snoc x xs)
  show ?case
  proof (cases "i \<in> set xs")
    case True
    with snoc.IH obtain k where k: "k < length xs" "xs ! k = i" "i \<notin> set (take k xs)"
      "\<And>j. j < length xs \<Longrightarrow> xs ! j = i \<Longrightarrow> i \<notin> set (take j xs) \<Longrightarrow> j = k" by metis
    show ?thesis
    proof (rule ex1I[of _ k])
      show "k < length (xs @ [x]) \<and> (xs @ [x]) ! k = i \<and> (xs @ [x]) ! k \<notin> set (take k (xs @ [x]))"
        using k(1-3) by (simp add: nth_append)
      fix j assume "j < length (xs @ [x]) \<and> (xs @ [x]) ! j = i \<and> (xs @ [x]) ! j \<notin> set (take j (xs @ [x]))"
      with True k(4)[of j] show "j = k" by (cases "j = length xs") (auto simp: nth_append)
    qed
  next
    case False
    with snoc.prems have "x = i" by simp
    have "j = length xs" if "j < length (xs @ [x])" "(xs @ [x]) ! j = i" for j
      using that False by (auto simp: nth_append less_Suc_eq)
    with False \<open>x = i\<close> show ?thesis by (intro ex1I[of _ "length xs"]) auto
  qed
qed simp

section \<open>Properties\<close>

text \<open>
  C28: The bitmap is a list of flags: a new one is all \<open>False\<close>; \<open>set\<close> at an index inside it, with
  any of the five memory orders, never panics, returns the old flag and updates exactly that flag
  (in particular not the neighbours in the same word), and at any index outside it panics.
\<close>

theorem bitmap_refines_list:
  assumes "bitmap_wf bm"
  shows "bits_of (bitmap_new n) = replicate n False \<and>
    (bm_len bm \<le> idx \<longrightarrow> bitmap_set bm idx v ord = Inl Explicit_Panic) \<and>
    (idx < bm_len bm \<longrightarrow>
      (\<exists>bm'. bitmap_set bm idx v ord = Inr (bm', bits_of bm ! idx) \<and> bitmap_wf bm' \<and>
         bits_of bm' = (bits_of bm)[idx := v]))"
proof (intro conjI impI)
  show "bits_of (bitmap_new n) = replicate n False" by (rule bitmap_new_bits(2))
  show "bm_len bm \<le> idx \<Longrightarrow> bitmap_set bm idx v ord = Inl Explicit_Panic"
    by (simp add: bitmap_set_def bitmap_update_def split: prod.splits)
  show "\<exists>bm'. bitmap_set bm idx v ord = Inr (bm', bits_of bm ! idx) \<and> bitmap_wf bm' \<and>
      bits_of bm' = (bits_of bm)[idx := v]" if "idx < bm_len bm"
    using bitmap_set_bits[OF assms that, of v ord] by blast
qed

theorem bitmap_refines_list_witness:
  "\<exists>bm'. bitmap_set (bitmap_new 130) 129 True AcqRel = Inr (bm', False) \<and>
     bits_of bm' = (replicate 130 False)[129 := True]"
proof -
  have "bm_len (bitmap_new 130) = 130" by (simp add: bitmap_new_def)
  then show ?thesis
    using bitmap_refines_list[OF bitmap_new_bits(1)[of 130], of 130 129 True AcqRel]
    by (auto simp del: bits_of_nth)
qed

text \<open>
  Claims are exclusive. When workers claim indices of a new bitmap with \<open>set(i, true)\<close>, in
  whatever order the atomic updates happen and with repetitions, a claim is answered \<open>false\<close> (do the
  work) exactly when it is the first one of its index: no page is processed twice, none is skipped.
\<close>

theorem claim_exactly_once:
  assumes "\<forall>i \<in> set is. i < n"
  shows "\<exists>bm ws. claim_all (bitmap_new n) is = Inr (bm, ws) \<and> length ws = length is \<and>
    (\<forall>k < length is. ws ! k \<longleftrightarrow> is ! k \<in> set (take k is)) \<and>
    (\<forall>i \<in> set is. \<exists>!k. k < length is \<and> is ! k = i \<and> \<not> ws ! k)"
proof -
  have len: "bm_len (bitmap_new n) = n" by (simp add: bitmap_new_def)
  from claim_all_results[OF bitmap_new_bits(1), of "is" n] assms obtain bm ws where
    c: "claim_all (bitmap_new n) is = Inr (bm, ws)" "length ws = length is"
      "\<forall>k < length is. ws ! k = (bits_of (bitmap_new n) ! (is ! k) \<or> is ! k \<in> set (take k is))"
    unfolding len by blast
  have ws: "\<forall>k < length is. ws ! k \<longleftrightarrow> is ! k \<in> set (take k is)"
    using c(3) assms by (simp add: bitmap_new_bits(2) del: bits_of_nth)
  have "\<exists>!k. k < length is \<and> is ! k = i \<and> \<not> ws ! k" if "i \<in> set is" for i
    using first_occurrence[OF that] ws by metis
  with c(1,2) ws show ?thesis by blast
qed

theorem claim_exactly_once_witness:
  "\<exists>bm ws. claim_all (bitmap_new 70) [3, 65, 3] = Inr (bm, ws) \<and> length ws = 3 \<and> ws ! 2"
  using claim_exactly_once[of "[3, 65, 3]" 70] by (fastforce simp: numeral_2_eq_2)

end
