(* ===== verification/Quirks.thy ===== *)
theory Quirks
  imports Object_Metadata
begin

text \<open>
  \<open>uwugc/src/quirks/mod.rs\<close> and the loop of \<open>copier.rs\<close> around \<open>UFFDIO_MOVE\<close>: moving a buffer of
  pages to its final place when the kernel moves only part of it per call, and under-reports how
  much. The kernel's truth is kept apart from what it reports: a partial answer carries both the count
  that the call returns and the number of bytes that were really moved. Moving takes the pages out
  of the buffer, which reads as zeros from then on, and makes them present at the destination; that is
  what \<open>mincore\<close> sees. A loop that is never answered is \<open>Blocked\<close>.
\<close>

section \<open>The kernel's answers\<close>

text \<open>\<open>Partially_Copied reported moved\<close>: what the call returns, and what it did.\<close>

datatype move_answer = Move_Ok nat | Partially_Copied nat nat | Move_Error

type_synonym residency = "nat \<Rightarrow> bool"

record os_kernel =
  os_page_size :: nat
  os_mincore :: "residency \<Rightarrow> nat \<Rightarrow> nat \<Rightarrow> bool list option"  \<comment> \<open>address and length: which pages are present\<close>
  os_buffer :: "nat \<Rightarrow> nat option"                       \<comment> \<open>a fresh zeroed mapping of a length\<close>
  os_move :: "nat \<Rightarrow> nat \<Rightarrow> move_answer list"            \<comment> \<open>the answers for a destination and length\<close>

section \<open>The fix-up\<close>

definition next_multiple_of :: "nat \<Rightarrow> nat \<Rightarrow> nat" where
  "next_multiple_of a b = (if a mod b = 0 then a else a + (b - a mod b))"

definition uffd_try_fix_moved :: "os_kernel \<Rightarrow> residency \<Rightarrow> nat \<Rightarrow> nat \<Rightarrow> nat \<Rightarrow> nat res" where
  "uffd_try_fix_moved os present dest moved_reported moved_intended =
     assert_then (moved_intended mod os_page_size os = 0)
      (assert_then (dest mod os_page_size os = 0)
        (if moved_intended = moved_reported then Inr moved_reported
         else
           let moved = next_multiple_of moved_reported (os_page_size os) in
           bind_res (usub moved_intended moved) (\<lambda>nr_to_check.
           bind_res (unwrap (os_mincore os present (wrapping_byte_add dest moved) nr_to_check)) (\<lambda>flags.
             let vector = take nr_to_check (flags @ replicate nr_to_check False) in
             Inr (moved + length (takeWhile (\<lambda>is_present. is_present) vector) * os_page_size os)))))"

section \<open>The move loop\<close>

definition move_bytes :: "memory \<Rightarrow> nat \<Rightarrow> nat \<Rightarrow> nat \<Rightarrow> memory \<Rightarrow> memory" where
  "move_bytes b src dest n m = (\<lambda>a. if a \<in> block dest n then b (src + (a - dest)) else m a)"

text \<open>The buffer without the moved pages, and the pages at the destination.\<close>

definition vacate :: "nat \<Rightarrow> nat \<Rightarrow> memory \<Rightarrow> memory" where
  "vacate src n b = (\<lambda>a. if a \<in> block src n then 0 else b a)"

definition arrive :: "nat \<Rightarrow> nat \<Rightarrow> residency \<Rightarrow> residency" where
  "arrive dest n present = (\<lambda>a. a \<in> block dest n \<or> present a)"

fun move_loop ::
    "os_kernel \<Rightarrow> move_answer list \<Rightarrow> residency \<Rightarrow> memory \<Rightarrow> nat \<Rightarrow> nat \<Rightarrow> nat \<Rightarrow> memory \<Rightarrow> memory res" where
  "move_loop os [] present b src dest len m = Inl Blocked"
| "move_loop os (Move_Ok moved # answers) present b src dest len m =
     assert_then (len = moved) (Inr (move_bytes b src dest moved m))"
| "move_loop os (Partially_Copied reported k # answers) present b src dest len m =
     (let m = move_bytes b src dest k m; b = vacate src k b; present = arrive dest k present in
      bind_res (uffd_try_fix_moved os present dest reported len) (\<lambda>moved.
        if moved = len then Inr m
        else
          bind_res (usub len moved) (\<lambda>len'.
            move_loop os answers present b (src + moved) (dest + moved) len' m)))"
| "move_loop os (Move_Error # answers) present b src dest len m = Inl Explicit_Panic"

text \<open>
  What is documented of the kernel. \<open>mincore\<close> tells for each page of a range whether it is present.
  \<open>UFFDIO_MOVE\<close> moves whole pages from the front of the range, never reports more than it moved, gives
  a partial answer only for page-aligned requests, and gets to the end at last.
\<close>

definition mincore_ok :: "os_kernel \<Rightarrow> bool" where
  "mincore_ok os \<longleftrightarrow> 0 < os_page_size os \<and>
     (\<forall>present a n. os_page_size os dvd a \<longrightarrow> os_mincore os present a n =
        Some (map (\<lambda>i. present (a + i * os_page_size os)) [0..<div_ceil n (os_page_size os)]))"

fun answers_ok :: "nat \<Rightarrow> nat \<Rightarrow> nat \<Rightarrow> move_answer list \<Rightarrow> bool" where
  "answers_ok ps dest len [] = False"
| "answers_ok ps dest len (Move_Ok moved # answers) = (moved = len)"
| "answers_ok ps dest len (Partially_Copied reported k # answers) =
     (ps dvd dest \<and> ps dvd len \<and> ps dvd k \<and> reported \<le> k \<and> k \<le> len \<and>
      (k = len \<or> answers_ok ps (dest + k) (len - k) answers))"
| "answers_ok ps dest len (Move_Error # answers) = False"

lemma next_multiple_up:
  assumes "0 < (b :: nat)"
  shows "a + (b - a mod b) = (a div b + 1) * b"
  using mod_less_divisor[OF assms, of a] div_mult_mod_eq[of a b] by (simp only: add_mult_distrib mult_1)

lemma next_multiple_of_dvd: "0 < b \<Longrightarrow> b dvd next_multiple_of a b"
  using next_multiple_up[of b a] by (auto simp: next_multiple_of_def)

lemma next_multiple_of_ge: "a \<le> next_multiple_of a b"
  by (simp add: next_multiple_of_def)

lemma next_multiple_of_least:
  assumes "b dvd c" "a \<le> c" "0 < b"
  shows "next_multiple_of a b \<le> c"
proof (cases "a mod b = 0")
  case False
  obtain k where c: "c = b * k" using assms(1) by blast
  have a: "a = a div b * b + a mod b" by simp
  with c assms(2) False have "a div b < k"
    by (metis add_lessD1 le_neq_implies_less mod_mult_self1_is_0 mult.commute mult_less_cancel2 order_less_le_trans
        less_add_same_cancel1 neq0_conv not_le)
  then have "(a div b + 1) * b \<le> c" unfolding c by (metis Suc_eq_plus1 Suc_leI mult.commute mult_le_mono1)
  then show ?thesis using next_multiple_up[OF assms(3), of a] False by (simp only: next_multiple_of_def if_False)
qed (use assms(2) in \<open>simp add: next_multiple_of_def\<close>)

text \<open>With an honest \<open>mincore\<close> the fix-up finds out how much was moved.\<close>

lemma takeWhile_map_less:
  assumes "j \<le> n"
  shows "takeWhile (\<lambda>x. x) (map (\<lambda>i. i < j) [0..<n]) = replicate j True"
proof -
  have "[0..<n] = [0..<j] @ [j..<n]" using assms by (metis le_add_diff_inverse upt_add_eq_append zero_le)
  moreover have "map (\<lambda>i. i < j) [0..<j] = replicate j True" by (simp add: map_replicate_trivial list_eq_iff_nth_eq)
  moreover have "takeWhile (\<lambda>x. x) (map (\<lambda>i. i < j) [j..<n]) = []" by (cases "j < n") (simp_all add: upt_conv_Cons)
  ultimately show ?thesis by (simp add: takeWhile_append)
qed

lemma takeWhile_pad: "takeWhile (\<lambda>x. x) (xs @ replicate k False) = takeWhile (\<lambda>x. x) xs"
  by (induction xs) (cases k, auto)

lemma fix_moved_exact:
  assumes os: "mincore_ok os" and al: "os_page_size os dvd dest" "os_page_size os dvd intended" "os_page_size os dvd k"
    and k: "reported \<le> k" "k \<le> intended" "dest + intended < 2 ^ 64"
    and present: "\<And>a. a \<in> block dest intended \<Longrightarrow> present a \<longleftrightarrow> a < dest + k"
  shows "uffd_try_fix_moved os present dest reported intended = Inr k"
proof (cases "intended = reported")
  case True
  with k al show ?thesis by (simp add: uffd_try_fix_moved_def)
next
  case False
  let ?ps = "os_page_size os" and ?r = "next_multiple_of reported (os_page_size os)"
  have ps: "0 < ?ps" using os by (simp add: mincore_ok_def)
  note r = next_multiple_of_dvd[OF ps, of reported] next_multiple_of_least[OF al(3) k(1) ps]
  let ?n = "(intended - ?r) div ?ps" and ?j = "(k - ?r) div ?ps"
  have dvd: "?ps dvd intended - ?r" "?ps dvd k - ?r" "?ps dvd dest + ?r" using r al by (auto intro: dvd_diff_nat)
  then have n: "div_ceil (intended - ?r) ?ps = ?n" "?n * ?ps = intended - ?r" "?j * ?ps = k - ?r"
    by (simp_all add: div_ceil_def dvd_imp_mod_0)
  have "?n \<le> intended - ?r" by simp
  have "present (dest + ?r + i * ?ps) \<longleftrightarrow> i < ?j" if "i < ?n" for i
  proof -
    have "i * ?ps < ?n * ?ps" using that ps by simp
    then have "dest + ?r + i * ?ps \<in> block dest intended" using n(2) by simp
    then have "present (dest + ?r + i * ?ps) \<longleftrightarrow> i * ?ps < ?j * ?ps" using present r(2) n(3) by auto
    then show ?thesis using ps by simp
  qed
  then have "map (\<lambda>i. present (dest + ?r + i * ?ps)) [0..<?n] = map (\<lambda>i. i < ?j) [0..<?n]" by simp
  moreover have "?j \<le> ?n" using k(2) by (simp add: diff_le_mono div_le_mono)
  ultimately have "takeWhile (\<lambda>x. x) (map (\<lambda>i. present (dest + ?r + i * ?ps)) [0..<?n]) = replicate ?j True"
    by (simp only: takeWhile_map_less)
  moreover have "wrapping_byte_add dest ?r = dest + ?r" using r(2) k by simp
  moreover have "os_mincore os present (dest + ?r) (intended - ?r) = Some (map (\<lambda>i. present (dest + ?r + i * ?ps)) [0..<?n])"
    using os dvd(3) n(1) by (simp add: mincore_ok_def)
  ultimately show ?thesis
    using False al dvd r k n(3) \<open>?n \<le> intended - ?r\<close>
    by (simp add: uffd_try_fix_moved_def Let_def dvd_imp_mod_0 takeWhile_pad)
qed

lemma move_loop_moves:
  assumes "mincore_ok os" "answers_ok (os_page_size os) dest len answers" "dest + len < 2 ^ 64"
    and "\<And>a. a \<in> block dest len \<Longrightarrow> \<not> present a"
  shows "move_loop os answers present b src dest len m = Inr (move_bytes b src dest len m)"
  using assms
proof (induction os answers present b src dest len m rule: move_loop.induct)
  case (3 os reported k answers present b src dest len m)
  note pr = "3.prems"(2)
  have up: "uffd_try_fix_moved os (arrive dest k present) dest reported len = Inr k"
    using "3.prems"(1) pr "3.prems"(3,4) by (intro fix_moved_exact) (auto simp: arrive_def)
  show ?case
  proof (cases "k = len")
    case True
    with up show ?thesis by (simp add: Let_def)
  next
    case False
    with pr have "move_loop os answers (arrive dest k present) (vacate src k b) (src + k) (dest + k) (len - k) (move_bytes b src dest k m) =
        Inr (move_bytes (vacate src k b) (src + k) (dest + k) (len - k) (move_bytes b src dest k m))"
      using up "3.prems" by (intro "3.IH") (auto simp: arrive_def)
    moreover have "move_bytes (vacate src k b) (src + k) (dest + k) (len - k) (move_bytes b src dest k m) = move_bytes b src dest len m"
      using pr by (auto simp: move_bytes_def vacate_def fun_eq_iff)
    ultimately show ?thesis using False up pr by (simp add: Let_def)
  qed
qed (auto simp: assert_then_eq_Inr)

section \<open>Properties\<close>

text \<open>
  C34: However the kernel splits the work and under-reports it, the loop moves all of it. Let every call
  move some whole pages from the front of what it was asked for, report no more than it moved, at
  worst nothing, and the last one get to the end; let \<open>mincore\<close> tell the truth, and none of the pages be
  present at the start. Then the loop ends without a panic, each of the \<open>len\<close> bytes has been moved from its
  place in the source buffer, once, and no other byte of memory has changed.
\<close>

theorem move_loop_complete:
  assumes "mincore_ok os" "answers_ok (os_page_size os) dest len answers" "dest + len < 2 ^ 64"
    and "\<forall>a \<in> block dest len. \<not> present a"
  shows "\<exists>m'. move_loop os answers present b src dest len m = Inr m' \<and>
    (\<forall>i < len. m' (dest + i) = b (src + i)) \<and> (\<forall>a. a < dest \<or> dest + len \<le> a \<longrightarrow> m' a = m a)"
  using move_loop_moves[OF assms(1-3)] assms(4) by (simp add: move_bytes_def del: in_block) (simp add: block_def)

definition honest_kernel :: os_kernel where
  "honest_kernel =
     \<lparr>os_page_size = 4096, os_mincore = \<lambda>present a n. Some (map (\<lambda>i. present (a + i * 4096)) [0..<div_ceil n 4096]),
      os_buffer = \<lambda>_. Some 8, os_move = \<lambda>_ len. [Move_Ok len]\<rparr>"

lemma honest_mincore: "mincore_ok honest_kernel"
  by (simp add: mincore_ok_def honest_kernel_def)

text \<open>Two pages are moved and 100 bytes reported; then nothing; then the last page, with nothing reported.\<close>

theorem move_loop_complete_witness:
  "\<exists>m'. move_loop honest_kernel [Partially_Copied 100 8192, Partially_Copied 0 0, Partially_Copied 0 4096]
      (\<lambda>_. False) (\<lambda>_. 7) 4096 8192 12288 (\<lambda>_. 0) = Inr m' \<and> m' 8200 = 7 \<and> m' 0 = 0"
  (is "\<exists>m'. move_loop _ ?answers _ ?b _ _ _ ?m = Inr m' \<and> _")
proof -
  have "answers_ok (os_page_size honest_kernel) 8192 12288 ?answers" by (simp add: honest_kernel_def)
  from move_loop_complete[OF honest_mincore this, of "\<lambda>_. False" ?b 4096 ?m] obtain m' where
    m': "move_loop honest_kernel ?answers (\<lambda>_. False) ?b 4096 8192 12288 ?m = Inr m'" "\<forall>i < 12288. m' (8192 + i) = 7"
      "\<forall>a. a < 8192 \<or> 8192 + 12288 \<le> a \<longrightarrow> m' a = 0" by auto
  from m'(2)[rule_format, of 8] m'(3)[rule_format, of 0] m'(1) show ?thesis by auto
qed

text \<open>
  The fix-up never claims more than was asked for and only whole pages: when \<open>mincore\<close> gives one
  flag per page of the unreported rest, the corrected count is a multiple of the page size between
  the rounded-up report and the intended length.
\<close>

theorem fix_moved_bounds:
  assumes "uffd_try_fix_moved os present dest reported intended = Inr moved" "0 < os_page_size os"
    and "\<And>a n flags. os_mincore os present a n = Some flags \<Longrightarrow> length flags = div_ceil n (os_page_size os)"
  shows "reported \<le> moved \<and> moved \<le> intended \<and> moved mod os_page_size os = 0"
proof (cases "intended = reported")
  case True
  with assms(1) show ?thesis by (auto simp: uffd_try_fix_moved_def assert_then_eq_Inr)
next
  case False
  let ?ps = "os_page_size os" and ?r = "next_multiple_of reported (os_page_size os)"
  note r = next_multiple_of_dvd[OF assms(2), of reported] next_multiple_of_ge[of reported ?ps]
  obtain flags where fl: "?r \<le> intended" "intended mod ?ps = 0"
      "os_mincore os present (wrapping_byte_add dest ?r) (intended - ?r) = Some flags"
      "moved = ?r + length (takeWhile (\<lambda>x. x) (take (intended - ?r) (flags @ replicate (intended - ?r) False))) * ?ps"
    using assms(1) False
    by (auto simp: uffd_try_fix_moved_def assert_then_eq_Inr bind_res_eq_Inr Let_def usub_eq_Inr unwrap_eq_Inr)
  have dvd: "?ps dvd intended - ?r" using fl(1,2) r(1) by (simp add: dvd_diff_nat mod_0_imp_dvd)
  have len: "length flags = (intended - ?r) div ?ps"
    using assms(3)[OF fl(3)] dvd by (simp add: div_ceil_def dvd_imp_mod_0)
  have "takeWhile (\<lambda>x. x) (take n (flags @ replicate k False)) = takeWhile (\<lambda>x. x) (take n flags)" for n k
    by (simp add: takeWhile_pad)
  then have "length (takeWhile (\<lambda>x. x) (take (intended - ?r) (flags @ replicate (intended - ?r) False)))
      \<le> length flags"
    by (metis le_trans length_take length_takeWhile_le min.cobounded1)
  then have "moved \<le> ?r + (intended - ?r) div ?ps * ?ps" using fl(4) len by simp
  also have "\<dots> = intended" using dvd fl(1) by simp
  finally show ?thesis using r fl(4) by auto
qed

theorem fix_moved_bounds_witness:
  "\<exists>moved. uffd_try_fix_moved honest_kernel (\<lambda>a. a < 12288) 8192 100 12288 = Inr moved \<and> moved \<le> 12288"
proof -
  have "\<exists>moved. uffd_try_fix_moved honest_kernel (\<lambda>a. a < 12288) 8192 100 12288 = Inr moved"
    by (simp add: uffd_try_fix_moved_def next_multiple_of_def Let_def honest_kernel_def)
  then obtain moved where m: "uffd_try_fix_moved honest_kernel (\<lambda>a. a < 12288) 8192 100 12288 = Inr moved" ..
  from fix_moved_bounds[OF m] have "moved \<le> 12288" by (auto simp: honest_kernel_def)
  with m show ?thesis by blast
qed

end
