(* ===== verification/Copier.thy ===== *)
theory Copier
  imports Shared_State Bitmap Quirks
begin

text \<open>
  \<open>uwugc/src/gc/copier.rs\<close>: the relocation of the marked objects into the other space, page by page.
  Each page of the other space is filled once, by whoever claims it first in the bitmap: the eager
  jobs for all pages, or a page fault. A job reads the old space and the registry only and writes
  its own page only, so the jobs are modelled one after the other, in any order. A temporary buffer
  is a fresh mapping that nobody else sees: a memory of its own. \<open>obj_image\<close> is what a word of a copied
  object must become; the lemmas show that every object ends up as its image.
\<close>

section \<open>State\<close>

text \<open>The worker pools, the \<open>userfaultfd\<close> and the pipe: no state that the relocation depends on.\<close>

datatype copier = Copier_Pools

record heap_info_later =
  hl_start :: nat
  hl_to_space :: nat
  hl_size :: nat

record copier_active =
  ca_registry :: frozen_registry
  ca_heap :: heap_info_later
  ca_from_mm :: heap_mm
  ca_work_done :: atomic_bitmap
  ca_zero_page_start :: nat
  ca_page_table :: page_table

definition copier_start :: "heap_info_later \<Rightarrow> frozen_registry \<Rightarrow> heap_mm \<Rightarrow> page_table \<Rightarrow> copier_active" where
  "copier_start heap reloc_registry from_mm compacted_page_table =
     \<lparr>ca_registry = reloc_registry, ca_heap = heap, ca_from_mm = from_mm,
      ca_work_done = bitmap_new (pt_nr_pages compacted_page_table),
      ca_zero_page_start = get_used_end_page compacted_page_table,
      ca_page_table = compacted_page_table\<rparr>"

section \<open>Filling a page\<close>

definition copy_nonoverlapping :: "memory \<Rightarrow> nat \<Rightarrow> memory \<Rightarrow> nat \<Rightarrow> nat \<Rightarrow> memory" where
  "copy_nonoverlapping m src b dest n = (\<lambda>a. if a \<in> block dest n then m (src + (a - dest)) else b a)"

definition do_zeropage :: "copier_active \<Rightarrow> memory \<Rightarrow> nat \<Rightarrow> (copier_active \<times> memory) res" where
  "do_zeropage ca m page_id =
     bind_res (bitmap_set (ca_work_done ca) page_id True Relaxed) (\<lambda>(bm, was).
       let ca = ca\<lparr>ca_work_done := bm\<rparr> in
       if was then Inr (ca, m)
       else
         Inr (ca, zero_range m
           (wrapping_byte_add (get_base_addr (ca_page_table ca)) (page_id * BASE_PAGE_SIZE)) BASE_PAGE_SIZE))"

text \<open>The \<open>updater\<close> closure: the new address of a pointer into the old space.\<close>

definition forward :: "copier_active \<Rightarrow> object_ptr \<Rightarrow> object_ptr res" where
  "forward ca x =
     bind_res (usub x (hl_start (ca_heap ca))) (\<lambda>off.
     bind_res (map_src_to_dest (ca_registry ca) off) (\<lambda>found.
     bind_res (unwrap found) (\<lambda>mapped.
       unwrap (object_from_raw (wrapping_byte_add (hl_to_space (ca_heap ca)) mapped)))))"

text \<open>One record: \<open>buf\<close> is the buffer's address and \<open>b\<close> its contents.\<close>

definition relocate_record ::
    "'tm type_manager_ops \<Rightarrow> 'tm \<Rightarrow> copier_active \<Rightarrow> memory \<Rightarrow> nat \<Rightarrow> range \<Rightarrow> reloc_record \<Rightarrow> memory
     \<Rightarrow> memory res" where
  "relocate_record ops tm ca m buf page_range rec b =
     assert_then (in_range page_range (fst (get_dest_range rec)))
       (bind_res (usub (snd (get_dest_range rec)) 1) (\<lambda>last.
        assert_then (in_range page_range last)
          (bind_res (usub (rr_dest rec) (fst page_range)) (\<lambda>off.
           let src_ptr = wrapping_byte_add (map_ptr (mm_mapping (ca_from_mm ca))) (rr_src rec);
               dest = wrapping_byte_add buf off;
               b = copy_nonoverlapping m src_ptr b dest (rr_size rec) in
           bind_res (unwrap (object_from_raw dest)) (\<lambda>object.
             concrete_update_gc_pointers ops tm b object (forward ca))))))"

fun relocate_records ::
    "'tm type_manager_ops \<Rightarrow> 'tm \<Rightarrow> copier_active \<Rightarrow> memory \<Rightarrow> nat \<Rightarrow> range \<Rightarrow> reloc_record list \<Rightarrow> memory
     \<Rightarrow> memory res" where
  "relocate_records ops tm ca m buf page_range [] b = Inr b"
| "relocate_records ops tm ca m buf page_range (rec # recs) b =
     bind_res (relocate_record ops tm ca m buf page_range rec b) (\<lambda>b.
       relocate_records ops tm ca m buf page_range recs b)"

definition do_relocate ::
    "'tm type_manager_ops \<Rightarrow> 'tm \<Rightarrow> os_kernel \<Rightarrow> copier_active \<Rightarrow> memory \<Rightarrow> nat \<Rightarrow> flex_page
     \<Rightarrow> (copier_active \<times> memory) res" where
  "do_relocate ops tm os ca m page_id page =
     bind_res (bitmap_set (ca_work_done ca) page_id True Relaxed) (\<lambda>(bm, was).
       let ca = ca\<lparr>ca_work_done := bm\<rparr> in
       if was then Inr (ca, m)
       else
         bind_res (unwrap (os_buffer os (fp_size page))) (\<lambda>buf.
         let start = fp_start page; stop = wrapping_byte_add start (fp_size page) in
         bind_res (usub start (hl_to_space (ca_heap ca))) (\<lambda>start_offset.
         bind_res (usub stop (hl_to_space (ca_heap ca))) (\<lambda>end_offset.
         bind_res (iterate_records_in_dest_range (ca_registry ca) (start_offset, end_offset)) (\<lambda>recs.
         bind_res (relocate_records ops tm ca m buf (start_offset, end_offset) recs (\<lambda>_. 0)) (\<lambda>b.
         bind_res (usub start (get_base_addr (ca_page_table ca))) (\<lambda>off.
         let dest = wrapping_byte_add (hl_to_space (ca_heap ca)) off in
         bind_res (move_loop os (os_move os dest (fp_size page)) (\<lambda>_. False) b buf dest (fp_size page) m) (\<lambda>m.
           Inr (ca, m)))))))))"

definition resolve_fault ::
    "'tm type_manager_ops \<Rightarrow> 'tm \<Rightarrow> os_kernel \<Rightarrow> copier_active \<Rightarrow> memory \<Rightarrow> nat
     \<Rightarrow> (copier_active \<times> memory) res" where
  "resolve_fault ops tm os ca m addr =
     bind_res (usub addr (hl_to_space (ca_heap ca))) (\<lambda>off.
       let page_id = off div 2 ^ BASE_PAGE_SHIFT in
       if ca_zero_page_start ca \<le> page_id then do_zeropage ca m page_id
       else
         bind_res (resolve_to_page (ca_page_table ca) addr) (\<lambda>r.
           case r of
             None \<Rightarrow> do_zeropage ca m page_id
           | Some page_id \<Rightarrow>
               bind_res (get_page (ca_page_table ca) page_id) (\<lambda>slot.
               bind_res (unwrap slot) (\<lambda>page.
                 do_relocate ops tm os ca m page_id page))))"

section \<open>Finishing\<close>

text \<open>
  The jobs run by \<open>finish\<close>: one per present page, at the page's start, and one per page fault. The
  thread pools run them in some order, which the schedule gives.
\<close>

definition eager_jobs :: "page_table \<Rightarrow> nat list" where
  "eager_jobs pt = concat (map (\<lambda>slot. case slot of None \<Rightarrow> [] | Some page \<Rightarrow> [fp_start page]) (slots pt))"

definition schedule_ok :: "copier_active \<Rightarrow> nat list \<Rightarrow> bool" where
  "schedule_ok ca schedule \<longleftrightarrow>
     set (eager_jobs (ca_page_table ca)) \<subseteq> set schedule \<and>
     (\<forall>addr \<in> set schedule.
        addr \<in> block (base_addr (ca_page_table ca)) (pt_nr_pages (ca_page_table ca) * BASE_PAGE_SIZE))"

fun run_jobs ::
    "'tm type_manager_ops \<Rightarrow> 'tm \<Rightarrow> os_kernel \<Rightarrow> nat list \<Rightarrow> copier_active \<Rightarrow> memory
     \<Rightarrow> (copier_active \<times> memory) res" where
  "run_jobs ops tm os [] ca m = Inr (ca, m)"
| "run_jobs ops tm os (addr # addrs) ca m =
     bind_res (resolve_fault ops tm os ca m addr) (\<lambda>(ca, m). run_jobs ops tm os addrs ca m)"

definition copier_finish ::
    "'tm type_manager_ops \<Rightarrow> 'tm \<Rightarrow> os_kernel \<Rightarrow> nat list \<Rightarrow> copier_active \<Rightarrow> memory
     \<Rightarrow> (frozen_registry \<times> heap_mm \<times> memory) res" where
  "copier_finish ops tm os schedule ca m =
     bind_res (run_jobs ops tm os schedule ca m) (\<lambda>(ca, m).
       Inr (ca_registry ca, ca_from_mm ca, m))"

section \<open>Copying one object\<close>

text \<open>The word at offset \<open>i\<close> of the copy of \<open>obj\<close>: pointers forwarded by \<open>f\<close>, everything else as it was.\<close>

definition obj_image ::
    "(memory \<Rightarrow> 64 word \<Rightarrow> object_ptr \<Rightarrow> nat list) \<Rightarrow> memory \<Rightarrow> (object_ptr \<Rightarrow> nat) \<Rightarrow> object_ptr \<Rightarrow> nat \<Rightarrow> 64 word" where
  "obj_image offs m f obj i =
     (if obj + i \<in> set (field_addrs offs m obj) \<and> m (obj + i) \<noteq> 0
      then word_of_nat (f (unat (m (obj + i)))) else m (obj + i))"

text \<open>What the records of a page must satisfy, for objects \<open>ps\<close> with their new places.\<close>

definition page_ready ::
    "'tm type_manager_ops \<Rightarrow> 'tm \<Rightarrow> (memory \<Rightarrow> 64 word \<Rightarrow> object_ptr \<Rightarrow> nat list) \<Rightarrow> (64 word \<Rightarrow> bool)
     \<Rightarrow> memory \<Rightarrow> copier_active \<Rightarrow> heap_info \<Rightarrow> (object_ptr \<Rightarrow> nat) \<Rightarrow> nat \<Rightarrow> nat \<Rightarrow> (object_ptr \<times> nat) list \<Rightarrow> bool" where
  "page_ready ops tm offs known m ca hi f lo stop ps \<longleftrightarrow>
     (\<forall>(obj, d) \<in> set ps. object_wf known m obj \<and> obj < 2 ^ 64 \<and> hi_start hi \<le> obj \<and>
        (\<forall>a \<in> set (field_addrs offs m obj). m a \<noteq> 0 \<longrightarrow>
           forward ca (unat (m a)) = Inr (f (unat (m a)))) \<and>
        8 dvd d \<and> hi_to_space hi + lo \<le> d \<and> d + obj_size ops tm m obj \<le> hi_to_space hi + stop) \<and>
     disjoint_blocks (placed ops tm m ps)"

text \<open>
  What the copier relies on: the registry was made by the marker for the objects \<open>order\<close>, in
  ascending order of their new places, and the old space is apart from the new one.
\<close>

definition space_block :: "page_table \<Rightarrow> nat set" where
  "space_block pt = block (base_addr pt) (pt_nr_pages pt * BASE_PAGE_SIZE)"

definition copy_ready ::
    "'tm type_manager_ops \<Rightarrow> 'tm \<Rightarrow> (64 word \<Rightarrow> bool) \<Rightarrow> memory \<Rightarrow> heap_info \<Rightarrow> (object_ptr \<times> nat) list
     \<Rightarrow> copier_active \<Rightarrow> bool" where
  "copy_ready ops tm known m hi order ca \<longleftrightarrow>
     page_table_wf (ca_page_table ca) \<and> base_addr (ca_page_table ca) = hi_to_space hi \<and>
     hl_to_space (ca_heap ca) = hi_to_space hi \<and> hl_start (ca_heap ca) = hi_start hi \<and>
     map_ptr (mm_mapping (ca_from_mm ca)) = hi_start hi \<and>
     ca_zero_page_start ca = get_used_end_page (ca_page_table ca) \<and>
     records_sorted_by_dest (ca_registry ca) = map (reloc_of ops tm m hi) order \<and>
     ascending (placed ops tm m order) \<and>
     used_addrs (ca_page_table ca) = blocks (placed ops tm m order) \<and>
     (\<forall>(d, n) \<in> set (placed ops tm m order). within_page (ca_page_table ca) d n) \<and>
     distinct (map fst order) \<and>
     (\<forall>(obj, d) \<in> set order. object_wf known m obj \<and> obj < 2 ^ 64 \<and> hi_start hi \<le> obj \<and> 8 dvd d \<and>
        set (obj_pointers ops tm m obj) \<subseteq> fst ` set order \<and>
        block obj (obj_size ops tm m obj) \<inter> space_block (ca_page_table ca) = {} \<and>
        map_src_to_dest (ca_registry ca) (obj - hi_start hi) = Inr (Some (d - hi_to_space hi)))"

lemma copy_readyD:
  assumes "copy_ready ops tm known m hi order ca"
  shows "page_table_wf (ca_page_table ca)" "base_addr (ca_page_table ca) = hi_to_space hi"
    "hl_to_space (ca_heap ca) = hi_to_space hi" "hl_start (ca_heap ca) = hi_start hi"
    "map_ptr (mm_mapping (ca_from_mm ca)) = hi_start hi"
    "ca_zero_page_start ca = get_used_end_page (ca_page_table ca)"
    "records_sorted_by_dest (ca_registry ca) = map (reloc_of ops tm m hi) order"
    "ascending (placed ops tm m order)"
    "used_addrs (ca_page_table ca) = blocks (placed ops tm m order)"
    "(obj, d) \<in> set order \<Longrightarrow> within_page (ca_page_table ca) d (obj_size ops tm m obj)"
    "distinct (map fst order)"
  using assms unfolding copy_ready_def by (auto simp: placed_def)

lemma copy_ready_obj:
  assumes "copy_ready ops tm known m hi order ca" "(obj, d) \<in> set order"
  shows "object_wf known m obj" "obj < 2 ^ 64" "hi_start hi \<le> obj" "8 dvd d"
    "set (obj_pointers ops tm m obj) \<subseteq> fst ` set order"
    "block obj (obj_size ops tm m obj) \<inter> space_block (ca_page_table ca) = {}"
    "map_src_to_dest (ca_registry ca) (obj - hi_start hi) = Inr (Some (d - hi_to_space hi))"
  using assms unfolding copy_ready_def by blast+

lemma ascending_disjoint: "ascending bs \<Longrightarrow> disjoint_blocks bs"
  unfolding ascending_def disjoint_blocks_iff
  by (erule sorted_wrt_mono_rel[rotated]) (auto intro: block_disjoint)

text \<open>The forwarding address of an object.\<close>

definition new_place :: "(object_ptr \<times> nat) list \<Rightarrow> object_ptr \<Rightarrow> nat" where
  "new_place order obj = the (map_of order obj)"

lemma new_place_eq: "distinct (map fst order) \<Longrightarrow> (obj, d) \<in> set order \<Longrightarrow> new_place order obj = d"
  by (simp add: new_place_def)

text \<open>
  The services of the kernel the copier relies on: a buffer for each page, an honest \<open>mincore\<close>, and moves
  that get to the end of the page, in however many parts and however reported.
\<close>

definition kernel_serves :: "os_kernel \<Rightarrow> page_table \<Rightarrow> bool" where
  "kernel_serves os pt \<longleftrightarrow> mincore_ok os \<and>
     (\<forall>i p. page_slot pt i p \<longrightarrow>
        (\<exists>buf. os_buffer os (fp_size p) = Some buf \<and> 8 dvd buf \<and> buf \<noteq> 0 \<and> buf + fp_size p < 2 ^ 64) \<and>
        answers_ok (os_page_size os) (fp_start p) (fp_size p) (os_move os (fp_start p) (fp_size p)))"

text \<open>
  The invariant of the jobs: words outside the new space are untouched, and every object in a
  claimed page is its image.
\<close>

definition page_copied ::
    "'tm type_manager_ops \<Rightarrow> 'tm \<Rightarrow> (memory \<Rightarrow> 64 word \<Rightarrow> object_ptr \<Rightarrow> nat list) \<Rightarrow> memory
     \<Rightarrow> (object_ptr \<times> nat) list \<Rightarrow> flex_page \<Rightarrow> memory \<Rightarrow> bool" where
  "page_copied ops tm offs m order p m' \<longleftrightarrow>
     (\<forall>(obj, d) \<in> set order. d \<in> fp_span p \<longrightarrow>
        (\<forall>j < obj_size ops tm m obj. m' (d + j) = obj_image offs m (new_place order) obj j))"

definition run_inv ::
    "'tm type_manager_ops \<Rightarrow> 'tm \<Rightarrow> (memory \<Rightarrow> 64 word \<Rightarrow> object_ptr \<Rightarrow> nat list) \<Rightarrow> memory
     \<Rightarrow> (object_ptr \<times> nat) list \<Rightarrow> copier_active \<Rightarrow> copier_active \<Rightarrow> memory \<Rightarrow> bool" where
  "run_inv ops tm offs m order ca ca' m' \<longleftrightarrow>
     ca' = ca\<lparr>ca_work_done := ca_work_done ca'\<rparr> \<and> bitmap_wf (ca_work_done ca') \<and>
     bm_len (ca_work_done ca') = pt_nr_pages (ca_page_table ca) \<and>
     (\<forall>a. a \<notin> space_block (ca_page_table ca) \<longrightarrow> m' a = m a) \<and>
     (\<forall>i p. page_slot (ca_page_table ca) i p \<and> bit_at (ca_work_done ca') i \<longrightarrow>
        page_copied ops tm offs m order p m')"

lemma relocate_records_cong:
  assumes "\<And>rec. rec \<in> set recs \<Longrightarrow> \<forall>x \<in> block (wrapping_byte_add
      (map_ptr (mm_mapping (ca_from_mm ca))) (rr_src rec)) (rr_size rec). m' x = m x"
  shows "relocate_records ops tm ca m' buf rng recs b = relocate_records ops tm ca m buf rng recs b"
  using assms
proof (induction recs arbitrary: b)
  case (Cons rec recs)
  have "copy_nonoverlapping m' src b dest (rr_size rec) = copy_nonoverlapping m src b dest (rr_size rec)"
    if "src = wrapping_byte_add (map_ptr (mm_mapping (ca_from_mm ca))) (rr_src rec)" for src dest b
  proof (rule ext)
    fix x
    have "m' (src + (x - dest)) = m (src + (x - dest))" if x: "x \<in> block dest (rr_size rec)"
    proof -
      have "src + (x - dest) \<in> block src (rr_size rec)" using x by auto
      then show ?thesis using Cons.prems[of rec] \<open>src = _\<close> by (simp del: in_block)
    qed
    then show "copy_nonoverlapping m' src b dest (rr_size rec) x = copy_nonoverlapping m src b dest (rr_size rec) x"
      by (simp add: copy_nonoverlapping_def)
  qed
  then have "relocate_record ops tm ca m' buf rng rec b = relocate_record ops tm ca m buf rng rec b"
    by (simp add: relocate_record_def Let_def)
  moreover have "relocate_records ops tm ca m' buf rng recs = relocate_records ops tm ca m buf rng recs"
    by (rule ext, rule Cons.IH, rule Cons.prems) simp
  ultimately show ?case by simp
qed simp

lemma relocate_records_work_done:
  "relocate_records ops tm (ca\<lparr>ca_work_done := bm\<rparr>) m buf rng recs b = relocate_records ops tm ca m buf rng recs b"
proof (induction recs arbitrary: b)
  case (Cons rec recs)
  have "forward (ca\<lparr>ca_work_done := bm\<rparr>) = forward ca" by (rule ext) (simp add: forward_def)
  then have "relocate_record ops tm (ca\<lparr>ca_work_done := bm\<rparr>) m buf rng rec b = relocate_record ops tm ca m buf rng rec b" for b
    by (simp add: relocate_record_def)
  moreover have "relocate_records ops tm (ca\<lparr>ca_work_done := bm\<rparr>) m buf rng recs = relocate_records ops tm ca m buf rng recs"
    by (rule ext) (rule Cons.IH)
  ultimately show ?case by simp
qed simp

lemma page_in_space:
  assumes "page_table_wf pt" "page_slot pt i p"
  shows "fp_span p \<subseteq> space_block pt" "i < pt_nr_pages pt" "i < current_base_page pt"
    "fp_start p + fp_size p < 2 ^ 64" "0 < fp_size p" "base_addr pt \<le> fp_start p"
proof -
  note ok = page_table_wfD(4)[OF assms]
  have le: "current_base_page pt * BASE_PAGE_SIZE \<le> pt_nr_pages pt * BASE_PAGE_SIZE"
    using page_table_wfD(1)[OF assms(1)] by (intro mult_le_mono1) (simp add: space_ok_def)
  show "fp_span p \<subseteq> space_block pt"
  proof
    fix x assume "x \<in> fp_span p"
    then have "base_addr pt \<le> x" "x < base_addr pt + current_base_page pt * BASE_PAGE_SIZE"
      using slot_top[OF assms] by (auto simp: get_top_addr_def)
    then show "x \<in> space_block pt" using le unfolding space_block_def in_block by linarith
  qed
  show "i < current_base_page pt" "i < pt_nr_pages pt" "fp_start p + fp_size p < 2 ^ 64" "0 < fp_size p"
    "base_addr pt \<le> fp_start p"
    using slot_okD(1,3,4)[OF ok] page_table_wfD(1)[OF assms(1)]
    by (auto simp: flex_page_wf_def space_ok_def fp_size_nr_pages)
qed

context field_layout
begin

lemma relocate_record_copies:
  assumes wf: "object_wf known m obj" "obj < 2 ^ 64"
    and fwd: "\<And>a. a \<in> set (field_addrs offs m obj) \<Longrightarrow> m a \<noteq> 0 \<Longrightarrow>
      forward ca (unat (m a)) = Inr (f (unat (m a)))"
    and rec: "rr_src rec = obj - map_ptr (mm_mapping (ca_from_mm ca))" "rr_size rec = obj_size ops tm m obj"
      "map_ptr (mm_mapping (ca_from_mm ca)) \<le> obj"
    and rng: "lo \<le> rr_dest rec" "rr_dest rec + rr_size rec \<le> hi" "8 dvd rr_dest rec - lo"
    and buf: "8 dvd buf" "buf \<noteq> 0" "buf + (hi - lo) < 2 ^ 64"
  shows "\<exists>b'. relocate_record ops tm ca m buf (lo, hi) rec b = Inr b' \<and>
    (\<forall>i < obj_size ops tm m obj. b' (buf + (rr_dest rec - lo) + i) = obj_image offs m f obj i) \<and>
    (\<forall>a. a \<notin> block (buf + (rr_dest rec - lo)) (obj_size ops tm m obj) \<longrightarrow> b' a = b a)"
proof -
  let ?n = "obj_size ops tm m obj" and ?D = "buf + (rr_dest rec - lo)"
  let ?b = "copy_nonoverlapping m obj b ?D ?n"
  have n: "16 \<le> ?n" using wf(1) by (rule obj_size_ge)
  have b: "?b (?D + i) = m (obj + i)" if "i < ?n" for i
    using that by (simp add: copy_nonoverlapping_def)
  have al: "8 dvd ?D" using rng(3) buf(1) by simp
  have lay: "object_wf known ?b ?D" "obj_size ops tm ?b ?D = ?n"
    "field_addrs offs ?b ?D = map (\<lambda>a. ?D + (a - obj)) (field_addrs offs m obj)"
    using same_layout[OF wf(1) al, of ?b] b[of 0] b[of 8] b n by auto
  have fields: "obj + 16 \<le> a \<and> a + 8 \<le> obj + ?n" if "a \<in> set (field_addrs offs m obj)" for a
    using field_addrs_wf(3)[OF wf(1)] that by blast
  have "forward ca (unat (?b a)) = Inr (f (unat (?b a)))"
    if a: "a \<in> set (field_addrs offs ?b ?D)" "?b a \<noteq> 0" for a
  proof -
    from a(1) obtain a0 where a0: "a0 \<in> set (field_addrs offs m obj)" "a = ?D + (a0 - obj)"
      unfolding lay(3) by auto
    have "a0 - obj < ?n" using fields[OF a0(1)] by linarith
    from b[OF this] a0(2) fields[OF a0(1)] have "?b a = m a0" by (simp del: add_diff_assoc)
    with fwd[OF a0(1)] a(2) show ?thesis by simp
  qed
  then have upd: "concrete_update_gc_pointers ops tm ?b ?D (forward ca) =
      Inr (map_fields (set (field_addrs offs ?b ?D)) f ?b)"
    using lay(1) by (intro update_known) auto
  let ?b' = "map_fields (set (field_addrs offs ?b ?D)) f ?b"
  have D: "0 < ?D" "?D < 2 ^ 64" using buf rng n rec(2) by linarith+
  have "rr_dest rec \<le> rr_dest rec + rr_size rec - 1" "rr_dest rec + rr_size rec - 1 < hi"
    "rr_dest rec < hi" "Suc 0 \<le> rr_dest rec + rr_size rec"
    using rng(2) rec(2) n by linarith+
  then have "relocate_record ops tm ca m buf (lo, hi) rec b = Inr ?b'"
    using rng(1) rec wf(2) D upd
    by (simp add: relocate_record_def in_range_def get_dest_range_def object_from_raw_def Let_def)
  moreover have "?b' (?D + i) = obj_image offs m f obj i" if i: "i < ?n" for i
  proof -
    have "?D + i \<in> set (field_addrs offs ?b ?D) \<longleftrightarrow> obj + i \<in> set (field_addrs offs m obj)"
      using fields unfolding lay(3) by (force simp: image_iff)
    with b[OF i] show ?thesis by (simp add: map_fields_def obj_image_def)
  qed
  moreover have "?b' a = b a" if out: "a \<notin> block ?D ?n" for a
  proof -
    have "a \<notin> set (field_addrs offs ?b ?D)" using out fields unfolding lay(3) by fastforce
    moreover have "?b a = b a" using out by (simp add: copy_nonoverlapping_def del: in_block)
    ultimately show ?thesis by (simp add: map_fields_def)
  qed
  ultimately show ?thesis by blast
qed

lemma relocate_records_copies:
  assumes env: "map_ptr (mm_mapping (ca_from_mm ca)) = hi_start hi" "8 dvd lo" "8 dvd hi_to_space hi"
    and buf: "8 dvd buf" "buf \<noteq> 0" "buf + (stop - lo) < 2 ^ 64"
  shows "page_ready ops tm offs known m ca hi f lo stop ps \<Longrightarrow>
    \<exists>b'. relocate_records ops tm ca m buf (lo, stop) (map (reloc_of ops tm m hi) ps) b = Inr b' \<and>
      (\<forall>(obj, d) \<in> set ps. \<forall>i < obj_size ops tm m obj.
         b' (buf + (d - hi_to_space hi - lo) + i) = obj_image offs m f obj i) \<and>
      (\<forall>a. (\<forall>(obj, d) \<in> set ps. a \<notin> block (buf + (d - hi_to_space hi - lo)) (obj_size ops tm m obj)) \<longrightarrow>
         b' a = b a)"
proof (induction ps arbitrary: b)
  case Nil
  then show ?case by simp
next
  case (Cons p ps)
  obtain obj d where p: "p = (obj, d)" by (cases p)
  let ?rec = "reloc_of ops tm m hi p" and ?D = "\<lambda>d. buf + (d - hi_to_space hi - lo)"
  have o: "object_wf known m obj" "obj < 2 ^ 64" "hi_start hi \<le> obj"
    "\<And>a. a \<in> set (field_addrs offs m obj) \<Longrightarrow> m a \<noteq> 0 \<Longrightarrow> forward ca (unat (m a)) = Inr (f (unat (m a)))"
    "8 dvd d" "hi_to_space hi + lo \<le> d" "d + obj_size ops tm m obj \<le> hi_to_space hi + stop"
    and ready: "page_ready ops tm offs known m ca hi f lo stop ps"
    using Cons.prems by (auto simp: page_ready_def p placed_def)
  have rec: "rr_src ?rec = obj - map_ptr (mm_mapping (ca_from_mm ca))" "rr_size ?rec = obj_size ops tm m obj"
    "rr_dest ?rec = d - hi_to_space hi" using env(1) by (simp_all add: reloc_of_def p)
  have "\<exists>b1. relocate_record ops tm ca m buf (lo, stop) ?rec b = Inr b1 \<and>
    (\<forall>i < obj_size ops tm m obj. b1 (buf + (rr_dest ?rec - lo) + i) = obj_image offs m f obj i) \<and>
    (\<forall>a. a \<notin> block (buf + (rr_dest ?rec - lo)) (obj_size ops tm m obj) \<longrightarrow> b1 a = b a)"
  proof (rule relocate_record_copies[OF o(1,2) _ rec(1,2)])
    show "lo \<le> rr_dest ?rec" "rr_dest ?rec + rr_size ?rec \<le> stop" using o(6,7) rec(2,3) by linarith+
    have "8 dvd d - (hi_to_space hi + lo)" using o(5) env(2,3) by (simp add: dvd_diff_nat)
    then show "8 dvd rr_dest ?rec - lo" using rec(3) by simp
  qed (use o(3,4) env(1) buf in auto)
  then obtain b1 where b1: "relocate_record ops tm ca m buf (lo, stop) ?rec b = Inr b1"
    "\<forall>i < obj_size ops tm m obj. b1 (?D d + i) = obj_image offs m f obj i"
    "\<forall>a. a \<notin> block (?D d) (obj_size ops tm m obj) \<longrightarrow> b1 a = b a" unfolding rec(3) by blast
  from Cons.IH[OF ready, of b1] obtain b2 where
    b2: "relocate_records ops tm ca m buf (lo, stop) (map (reloc_of ops tm m hi) ps) b1 = Inr b2"
      "\<forall>(x, e) \<in> set ps. \<forall>i < obj_size ops tm m x. b2 (?D e + i) = obj_image offs m f x i"
      "\<forall>a. (\<forall>(x, e) \<in> set ps. a \<notin> block (?D e) (obj_size ops tm m x)) \<longrightarrow> b2 a = b1 a" by blast
  have apart: "?D d + i \<notin> block (?D e) (obj_size ops tm m x)"
    if "i < obj_size ops tm m obj" "(x, e) \<in> set ps" for i x e
  proof -
    have "d + i \<in> block d (obj_size ops tm m obj)" using that(1) by simp
    moreover have "block d (obj_size ops tm m obj) \<inter> blocks (placed ops tm m ps) = {}"
      using Cons.prems by (simp add: page_ready_def p placed_def)
    ultimately have "d + i \<notin> block e (obj_size ops tm m x)"
      using placed_block[OF that(2), of ops tm m] by blast
    moreover have "hi_to_space hi + lo \<le> e" using ready that(2) by (auto simp: page_ready_def)
    ultimately show ?thesis using o(6) by auto
  qed
  have "b2 (?D d + i) = obj_image offs m f obj i" if "i < obj_size ops tm m obj" for i
  proof -
    have "\<forall>(x, e) \<in> set ps. ?D d + i \<notin> block (?D e) (obj_size ops tm m x)" using apart[OF that] by blast
    with b2(3) have "b2 (?D d + i) = b1 (?D d + i)" by blast
    with b1(2) that show ?thesis by simp
  qed
  moreover have "b2 a = b a" if "\<forall>(x, e) \<in> set (p # ps). a \<notin> block (?D e) (obj_size ops tm m x)" for a
  proof -
    have "a \<notin> block (?D d) (obj_size ops tm m obj)" using that by (simp add: p del: in_block)
    moreover have "\<forall>(x, e) \<in> set ps. a \<notin> block (?D e) (obj_size ops tm m x)"
      using that by (simp del: in_block)
    ultimately show ?thesis using b2(3) b1(3) by metis
  qed
  moreover have "relocate_records ops tm ca m buf (lo, stop) (map (reloc_of ops tm m hi) (p # ps)) b = Inr b2"
    using b1(1) b2(1) by simp
  ultimately show ?case using b2(2) by (intro exI[of _ b2]) (simp add: p del: in_block)
qed

text \<open>Objects whose new place is in a page.\<close>

lemma placed_above:
  assumes r: "copy_ready ops tm known m hi order ca" and o: "(obj, d) \<in> set order"
  shows "hi_to_space hi \<le> d" "d \<noteq> 0" "d + obj_size ops tm m obj < 2 ^ 64" "16 \<le> obj_size ops tm m obj"
    "block d (obj_size ops tm m obj) \<subseteq> used_addrs (ca_page_table ca)"
proof -
  note d = copy_readyD[OF r]
  show sz: "16 \<le> obj_size ops tm m obj" using copy_ready_obj(1)[OF r o] by (rule obj_size_ge)
  show used: "block d (obj_size ops tm m obj) \<subseteq> used_addrs (ca_page_table ca)"
    using placed_block[OF o, of ops tm m] d(9) by simp
  then have "block d (obj_size ops tm m obj) \<subseteq>
      {base_addr (ca_page_table ca) ..< get_top_addr (ca_page_table ca)}"
    using used_addrs_in_space[OF d(1)] by blast
  moreover have "get_top_addr (ca_page_table ca) < 2 ^ 64" "0 < base_addr (ca_page_table ca)"
    using page_table_wfD(1)[OF d(1)] mult_le_mono1[of "current_base_page (ca_page_table ca)" "pt_nr_pages (ca_page_table ca)" BASE_PAGE_SIZE]
    unfolding space_ok_def get_top_addr_def by linarith+
  moreover have "d \<in> block d (obj_size ops tm m obj)" "d + (obj_size ops tm m obj - 1) \<in> block d (obj_size ops tm m obj)"
    using sz by auto
  ultimately have "base_addr (ca_page_table ca) \<le> d" "0 < base_addr (ca_page_table ca)"
      "d + (obj_size ops tm m obj - 1) < get_top_addr (ca_page_table ca)"
      "get_top_addr (ca_page_table ca) < 2 ^ 64" by (auto simp: subset_eq)
  with sz d(2) show "hi_to_space hi \<le> d" "d \<noteq> 0" "d + obj_size ops tm m obj < 2 ^ 64" by linarith+
qed

lemma forward_live:
  assumes r: "copy_ready ops tm known m hi order ca" and x: "x \<in> fst ` set order"
  shows "forward ca x = Inr (new_place order x)"
proof -
  obtain d where o: "(x, d) \<in> set order" using x by force
  note p = placed_above[OF r o] and c = copy_ready_obj[OF r o] and d = copy_readyD[OF r]
  have "wrapping_byte_add (hi_to_space hi) (d - hi_to_space hi) = d" using p(1,3) by simp
  with c(3,7) d(3,4) p(2) new_place_eq[OF d(11) o] show ?thesis
    by (simp add: forward_def object_from_raw_def)
qed

lemma page_order:
  assumes r: "copy_ready ops tm known m hi order ca" and p: "page_slot (ca_page_table ca) i p"
    and o: "(obj, d) \<in> set order"
  shows "d \<in> fp_span p \<longleftrightarrow> block d (obj_size ops tm m obj) \<subseteq> fp_span p"
    and "d \<in> fp_span p \<longleftrightarrow> block d (obj_size ops tm m obj) \<inter> fp_span p \<noteq> {}"
proof -
  note a = placed_above[OF r o] and d = copy_readyD[OF r]
  obtain j q where q: "page_slot (ca_page_table ca) j q" "block d (obj_size ops tm m obj) \<subseteq> fp_span q"
    using d(10)[OF o] by (auto simp: within_page_def)
  have "d \<in> block d (obj_size ops tm m obj)" using a(4) by simp
  then show "d \<in> fp_span p \<longleftrightarrow> block d (obj_size ops tm m obj) \<subseteq> fp_span p"
    "d \<in> fp_span p \<longleftrightarrow> block d (obj_size ops tm m obj) \<inter> fp_span p \<noteq> {}"
    using span_unique[OF d(1) p q(1)] q(2) by blast+
qed

lemma dest_chain:
  assumes r: "copy_ready ops tm known m hi order ca"
  shows "chain get_dest_range (map (reloc_of ops tm m hi) order)"
proof -
  have "sorted_wrt (\<lambda>p q. snd p + obj_size ops tm m (fst p) \<le> snd q) order"
    using copy_readyD(8)[OF r] by (simp add: ascending_def placed_def sorted_wrt_map split_def)
  then have "sorted_wrt (\<lambda>p q. snd (get_dest_range (reloc_of ops tm m hi p)) \<le>
      fst (get_dest_range (reloc_of ops tm m hi q))) order"
  proof (rule sorted_wrt_mono_rel[rotated])
    fix p q :: "object_ptr \<times> nat"
    assume "p \<in> set order" "snd p + obj_size ops tm m (fst p) \<le> snd q"
    moreover from this have "hi_to_space hi \<le> snd p" using placed_above(1)[OF r, of "fst p" "snd p"] by simp
    ultimately show "snd (get_dest_range (reloc_of ops tm m hi p)) \<le> fst (get_dest_range (reloc_of ops tm m hi q))"
      by (simp add: get_dest_range_def reloc_of_def split_def)
  qed
  moreover have "\<forall>p \<in> set order. fst (get_dest_range (reloc_of ops tm m hi p)) < snd (get_dest_range (reloc_of ops tm m hi p))"
    using placed_above(4)[OF r] by (fastforce simp: get_dest_range_def reloc_of_def)
  ultimately show ?thesis by (simp add: chain_def sorted_wrt_map)
qed

lemma page_query:
  assumes r: "copy_ready ops tm known m hi order ca" and p: "page_slot (ca_page_table ca) i p"
  shows "iterate_records_in_dest_range (ca_registry ca)
      (fp_start p - hi_to_space hi, fp_start p + fp_size p - hi_to_space hi) =
    Inr (map (reloc_of ops tm m hi) (filter (\<lambda>q. snd q \<in> fp_span p) order))"
proof -
  note d = copy_readyD[OF r]
  let ?lo = "fp_start p - hi_to_space hi" and ?hi = "fp_start p + fp_size p - hi_to_space hi"
  let ?rs = "map (reloc_of ops tm m hi) order"
  have ok: "slot_ok (ca_page_table ca) i p" using d(1) p by (rule page_table_wfD(4))
  then have pg: "hi_to_space hi \<le> fp_start p" "0 < fp_size p" using slot_okD(1,3)[OF ok] d(2)
    by (simp_all add: flex_page_wf_def fp_size_nr_pages)
  have ov: "overlaps (get_dest_range (reloc_of ops tm m hi q)) (?lo, ?hi) \<longleftrightarrow> snd q \<in> fp_span p"
    if "q \<in> set order" for q
  proof -
    obtain obj e where q: "q = (obj, e)" by (cases q)
    note a = placed_above[OF r that[unfolded q]] and w = page_order[OF r p that[unfolded q]]
    have "overlaps (get_dest_range (reloc_of ops tm m hi q)) (?lo, ?hi) \<longleftrightarrow>
        e < fp_start p + fp_size p \<and> fp_start p < e + obj_size ops tm m obj"
      using a(1) pg by (auto simp: overlaps_def get_dest_range_def reloc_of_def q)
    also have "\<dots> \<longleftrightarrow> block e (obj_size ops tm m obj) \<inter> fp_span p \<noteq> {}"
    proof
      assume "e < fp_start p + fp_size p \<and> fp_start p < e + obj_size ops tm m obj"
      then have "max e (fp_start p) \<in> block e (obj_size ops tm m obj) \<inter> fp_span p"
        using a(4) pg(2) by (auto simp: fp_span_def max_def)
      then show "block e (obj_size ops tm m obj) \<inter> fp_span p \<noteq> {}" by blast
    qed (auto simp: fp_span_def)
    finally show ?thesis using w(2) by (simp add: q)
  qed
  have flt: "filter (\<lambda>x. overlaps (get_dest_range x) (?lo, ?hi)) ?rs =
      map (reloc_of ops tm m hi) (filter (\<lambda>q. snd q \<in> fp_span p) order)"
    using ov by (simp add: filter_map o_def cong: filter_cong)
  show ?thesis
  proof (cases "\<exists>x \<in> set ?rs. in_range (get_dest_range x) ?lo")
    case True
    then obtain x where x: "x \<in> set ?rs" "in_range (get_dest_range x) ?lo" by blast
    have "?lo < ?hi" using pg by linarith
    from iterate_found[OF dest_chain[OF r] x this] show ?thesis
      by (simp add: iterate_records_in_dest_range_def d(7) flt)
  next
    case False
    have "filter (\<lambda>q. snd q \<in> fp_span p) order = []"
    proof (rule ccontr)
      assume "filter (\<lambda>q. snd q \<in> fp_span p) order \<noteq> []"
      then obtain obj e where q: "(obj, e) \<in> set order" "e \<in> fp_span p" by (auto simp: filter_empty_conv)
      have "e \<in> used_addrs (ca_page_table ca)" using placed_above(4,5)[OF r q(1)] by fastforce
      from used_in_page(2)[OF d(1) p this q(2)] have "fp_start p \<in> blocks (placed ops tm m order)"
        using d(9) by simp
      then obtain obj' e' where q': "(obj', e') \<in> set order" "fp_start p \<in> block e' (obj_size ops tm m obj')"
        by (auto simp: blocks_def placed_def)
      then have "in_range (get_dest_range (reloc_of ops tm m hi (obj', e'))) ?lo"
        using placed_above(1)[OF r q'(1)] pg by (auto simp: in_range_def get_dest_range_def reloc_of_def)
      with False q'(1) show False by force
    qed
    with iterate_missing[OF dest_chain[OF r], of ?lo ?hi] False show ?thesis
      by (simp add: iterate_records_in_dest_range_def d(7))
  qed
qed

lemma page_records_ready:
  assumes r: "copy_ready ops tm known m hi order ca" and p: "page_slot (ca_page_table ca) i p"
    and ca': "ca_registry ca' = ca_registry ca" "ca_heap ca' = ca_heap ca"
  shows "page_ready ops tm offs known m ca' hi (new_place order) (fp_start p - hi_to_space hi)
    (fp_start p + fp_size p - hi_to_space hi) (filter (\<lambda>q. snd q \<in> fp_span p) order)"
proof -
  note d = copy_readyD[OF r]
  have ok: "slot_ok (ca_page_table ca) i p" using d(1) p by (rule page_table_wfD(4))
  then have pg: "hi_to_space hi \<le> fp_start p" using slot_okD(3)[OF ok] d(2) by simp
  have fw: "forward ca' = forward ca" using ca' by (simp add: forward_def fun_eq_iff)
  have "disjoint_blocks (placed ops tm m (filter (\<lambda>q. snd q \<in> fp_span p) order))"
    using d(8) by (intro ascending_disjoint)
      (simp add: ascending_def placed_def sorted_wrt_map sorted_wrt_filter)
  moreover have "forward ca (unat (m a)) = Inr (new_place order (unat (m a)))"
    if o: "(obj, e) \<in> set order" and a: "a \<in> set (field_addrs offs m obj)" "m a \<noteq> 0" for obj e a
  proof -
    note c = copy_ready_obj[OF r o]
    have nz: "unat (m a) \<noteq> 0" using a(2) by (simp add: unsigned_eq_0_iff)
    have "unat (m a) \<in> set (obj_pointers ops tm m obj)"
      using a nz unfolding iterate_known(2)[OF c(1)] by auto
    with c(5) forward_live[OF r] show ?thesis by blast
  qed
  moreover have "hi_to_space hi + (fp_start p - hi_to_space hi) \<le> e \<and>
      e + obj_size ops tm m obj \<le> hi_to_space hi + (fp_start p + fp_size p - hi_to_space hi)"
    if o: "(obj, e) \<in> set order" "e \<in> fp_span p" for obj e
  proof -
    have "block e (obj_size ops tm m obj) \<subseteq> fp_span p" using page_order(1)[OF r p o(1)] o(2) by blast
    moreover have "e + (obj_size ops tm m obj - 1) \<in> block e (obj_size ops tm m obj)"
      using placed_above(4)[OF r o(1)] by auto
    ultimately have "e + (obj_size ops tm m obj - 1) \<in> fp_span p" by blast
    with o(2) pg placed_above(4)[OF r o(1)] show ?thesis by (auto simp: fp_span_def)
  qed
  ultimately show ?thesis
    using copy_ready_obj[OF r] by (auto simp: page_ready_def fw)
qed

lemma page_contents:
  assumes r: "copy_ready ops tm known m hi order ca" and inv: "run_inv ops tm offs m order ca ca' m'"
    and p: "page_slot (ca_page_table ca) i p"
    and buf: "8 dvd buf" "buf \<noteq> 0" "buf + fp_size p < 2 ^ 64"
  defines "lo \<equiv> fp_start p - hi_to_space hi" and "stop \<equiv> fp_start p + fp_size p - hi_to_space hi"
  obtains b where
    "relocate_records ops tm ca' m' buf (lo, stop)
      (map (reloc_of ops tm m hi) (filter (\<lambda>q. snd q \<in> fp_span p) order)) (\<lambda>_. 0) = Inr b"
    "\<forall>(obj, d) \<in> set order. d \<in> fp_span p \<longrightarrow>
      (\<forall>j < obj_size ops tm m obj. b (buf + (d - fp_start p) + j) = obj_image offs m (new_place order) obj j)"
proof -
  note d = copy_readyD[OF r] and s = page_in_space[OF copy_readyD(1)[OF r] p]
  have c: "ca_registry ca' = ca_registry ca" "ca_heap ca' = ca_heap ca" "ca_from_mm ca' = ca_from_mm ca"
  proof -
    have eq: "ca' = ca\<lparr>ca_work_done := ca_work_done ca'\<rparr>" using inv by (simp add: run_inv_def)
    show "ca_registry ca' = ca_registry ca" "ca_heap ca' = ca_heap ca" "ca_from_mm ca' = ca_from_mm ca"
      by (subst eq, simp)+
  qed
  let ?ps = "filter (\<lambda>q. snd q \<in> fp_span p) order"
  have sp: "8 dvd hi_to_space hi" "8 dvd lo"
    using page_table_wfD(1)[OF d(1)] d(2) slot_okD(3)[OF page_table_wfD(4)[OF d(1) p]]
    by (simp_all add: space_ok_def lo_def BASE_PAGE_SIZE_def)
  have len: "stop - lo = fp_size p" using s(6) d(2) by (simp add: lo_def stop_def)
  from relocate_records_copies[of ca' hi lo buf stop m "new_place order" ?ps "\<lambda>_. 0"]
    page_records_ready[OF r p c(1,2)] sp buf len c(3) d(5)
  obtain b where b: "relocate_records ops tm ca' m buf (lo, stop) (map (reloc_of ops tm m hi) ?ps) (\<lambda>_. 0) = Inr b"
    "\<forall>(obj, e) \<in> set ?ps. \<forall>j < obj_size ops tm m obj.
       b (buf + (e - hi_to_space hi - lo) + j) = obj_image offs m (new_place order) obj j"
    by (auto simp: lo_def stop_def)
  have "relocate_records ops tm ca' m' buf (lo, stop) (map (reloc_of ops tm m hi) ?ps) (\<lambda>_. 0) =
      relocate_records ops tm ca' m buf (lo, stop) (map (reloc_of ops tm m hi) ?ps) (\<lambda>_. 0)"
  proof (rule relocate_records_cong)
    fix rec assume "rec \<in> set (map (reloc_of ops tm m hi) ?ps)"
    then obtain obj e where o: "(obj, e) \<in> set order" "rec = reloc_of ops tm m hi (obj, e)" by auto
    note q = copy_ready_obj[OF r o(1)]
    have "wrapping_byte_add (map_ptr (mm_mapping (ca_from_mm ca'))) (rr_src rec) = obj"
      using q(2,3) o(2) d(5) c(3) by (simp add: reloc_of_def)
    moreover have "\<forall>x \<in> block obj (obj_size ops tm m obj). m' x = m x"
      using q(6) inv unfolding run_inv_def by blast
    ultimately show "\<forall>x \<in> block (wrapping_byte_add (map_ptr (mm_mapping (ca_from_mm ca'))) (rr_src rec))
        (rr_size rec). m' x = m x"
      using o(2) by (simp add: reloc_of_def)
  qed
  moreover have "e - hi_to_space hi - lo = e - fp_start p" for e
    using s(6) d(2) by (simp add: lo_def)
  ultimately show thesis using b by (intro that[of b]) auto
qed

lemma page_moved:
  assumes r: "copy_ready ops tm known m hi order ca" and p: "page_slot (ca_page_table ca) i p"
    and b: "\<forall>(obj, d) \<in> set order. d \<in> fp_span p \<longrightarrow> (\<forall>j < obj_size ops tm m obj.
      b (buf + (d - fp_start p) + j) = obj_image offs m (new_place order) obj j)"
  shows "page_copied ops tm offs m order p (move_bytes b buf (fp_start p) (fp_size p) m')"
  unfolding page_copied_def
proof (clarify)
  fix obj d j assume o: "(obj, d) \<in> set order" "d \<in> fp_span p" "j < obj_size ops tm m obj"
  have "d + j \<in> block d (obj_size ops tm m obj)" using o(3) by simp
  then have in_p: "d + j \<in> block (fp_start p) (fp_size p)"
    using page_order(1)[OF r p o(1)] o(2) unfolding fp_span_def by blast
  have "buf + (d + j - fp_start p) = buf + (d - fp_start p) + j" using o(2) by (simp add: fp_span_def)
  moreover have "b (buf + (d - fp_start p) + j) = obj_image offs m (new_place order) obj j"
    using b o by blast
  ultimately have "b (buf + (d + j - fp_start p)) = obj_image offs m (new_place order) obj j" by metis
  then show "move_bytes b buf (fp_start p) (fp_size p) m' (d + j) = obj_image offs m (new_place order) obj j"
    using in_p by (simp add: move_bytes_def del: in_block)
qed

lemma page_kept:
  assumes r: "copy_ready ops tm known m hi order ca" and p: "page_slot (ca_page_table ca) i p"
    and q: "page_slot (ca_page_table ca) j q" "j \<noteq> i" and c: "page_copied ops tm offs m order q m'"
  shows "page_copied ops tm offs m order q (move_bytes b buf (fp_start p) (fp_size p) m')"
  unfolding page_copied_def
proof (clarify)
  fix obj d k assume o: "(obj, d) \<in> set order" "d \<in> fp_span q" "k < obj_size ops tm m obj"
  have "d + k \<in> block d (obj_size ops tm m obj)" using o(3) by simp
  then have "d + k \<in> fp_span q" using page_order(1)[OF r q(1) o(1)] o(2) by blast
  then have "d + k \<notin> block (fp_start p) (fp_size p)"
    using spans_disjoint[OF copy_readyD(1)[OF r] p q(1)] q(2) by (auto simp: fp_span_def)
  then show "move_bytes b buf (fp_start p) (fp_size p) m' (d + k) = obj_image offs m (new_place order) obj k"
    using c o by (auto simp: move_bytes_def page_copied_def simp del: in_block)
qed

lemma do_relocate_page:
  assumes r: "copy_ready ops tm known m hi order ca" and k: "kernel_serves os (ca_page_table ca)"
    and inv: "run_inv ops tm offs m order ca ca' m'" and p: "page_slot (ca_page_table ca) i p"
  obtains ca'' m'' where "do_relocate ops tm os ca' m' i p = Inr (ca'', m'')"
    "run_inv ops tm offs m order ca ca'' m''" "bit_at (ca_work_done ca'') i"
    "\<forall>j < pt_nr_pages (ca_page_table ca). bit_at (ca_work_done ca') j \<longrightarrow> bit_at (ca_work_done ca'') j"
proof -
  note d = copy_readyD[OF r] and s = page_in_space[OF copy_readyD(1)[OF r] p]
  have i: "ca' = ca\<lparr>ca_work_done := ca_work_done ca'\<rparr>" "bitmap_wf (ca_work_done ca')"
    "bm_len (ca_work_done ca') = pt_nr_pages (ca_page_table ca)"
    using inv unfolding run_inv_def by blast+
  have "i < bm_len (ca_work_done ca')" using s(2) i(3) by simp
  from bitmap_set_eq[OF i(2) this, of True Relaxed] obtain bm where
    bm: "bitmap_set (ca_work_done ca') i True Relaxed = Inr (bm, bit_at (ca_work_done ca') i)" "bitmap_wf bm"
      "bm_len bm = bm_len (ca_work_done ca')"
      "\<forall>j < bm_len (ca_work_done ca'). bit_at bm j = (if j = i then True else bit_at (ca_work_done ca') j)"
    by metis
  let ?ca = "ca'\<lparr>ca_work_done := bm\<rparr>"
  have same: "?ca = ca\<lparr>ca_work_done := bm\<rparr>" by (subst i(1)) simp
  show thesis
  proof (cases "bit_at (ca_work_done ca') i")
    case True
    have "bit_at bm j = bit_at (ca_work_done ca') j" if "page_slot (ca_page_table ca) j q" for j q
      using bm(4) True page_in_space(2)[OF d(1) that] i(3) by auto
    then have "run_inv ops tm offs m order ca ?ca m'"
      using inv bm(2,3) i(3) same unfolding run_inv_def by auto
    moreover have "do_relocate ops tm os ca' m' i p = Inr (?ca, m')"
      using bm(1) True by (simp add: do_relocate_def)
    ultimately show thesis using that bm(4) i(3) s(2) by auto
  next
    case False
    obtain buf where buf: "os_buffer os (fp_size p) = Some buf" "8 dvd buf" "buf \<noteq> 0"
      "buf + fp_size p < 2 ^ 64" using k p unfolding kernel_serves_def by blast
    from page_contents[OF r inv p buf(2-4)] obtain b where
      b: "relocate_records ops tm ca' m' buf (fp_start p - hi_to_space hi, fp_start p + fp_size p - hi_to_space hi)
        (map (reloc_of ops tm m hi) (filter (\<lambda>q. snd q \<in> fp_span p) order)) (\<lambda>_. 0) = Inr b"
        "\<forall>(obj, d) \<in> set order. d \<in> fp_span p \<longrightarrow> (\<forall>j < obj_size ops tm m obj.
          b (buf + (d - fp_start p) + j) = obj_image offs m (new_place order) obj j)" .
    define m'' where m'': "m'' = move_bytes b buf (fp_start p) (fp_size p) m'"
    have "answers_ok (os_page_size os) (fp_start p) (fp_size p) (os_move os (fp_start p) (fp_size p))" "mincore_ok os"
      using k p unfolding kernel_serves_def by blast+
    then have mv: "move_loop os (os_move os (fp_start p) (fp_size p)) (\<lambda>_. False) b buf (fp_start p) (fp_size p) m' = Inr m''"
      using s(4,6) unfolding m'' by (intro move_loop_moves) simp_all
    have b': "relocate_records ops tm ?ca m' buf (fp_start p - hi_to_space hi, fp_start p + fp_size p - hi_to_space hi)
        (map (reloc_of ops tm m hi) (filter (\<lambda>q. snd q \<in> fp_span p) order)) (\<lambda>_. 0) = Inr b"
      using b(1) relocate_records_work_done[of ops tm bm ca'] by simp
    have "do_relocate ops tm os ca' m' i p = Inr (?ca, m'')"
      using bm(1) False buf(1) s(4,6) d(2,3) page_query[OF r p] b' mv unfolding same
      by (simp add: do_relocate_def Let_def get_base_addr_def same)
    moreover have "run_inv ops tm offs m order ca ?ca m''"
      unfolding run_inv_def
    proof (intro conjI allI impI)
      show "?ca = ca\<lparr>ca_work_done := ca_work_done ?ca\<rparr>" using same by simp
      show "bitmap_wf (ca_work_done ?ca)" "bm_len (ca_work_done ?ca) = pt_nr_pages (ca_page_table ca)"
        using bm(2,3) i(3) by simp_all
      fix a assume "a \<notin> space_block (ca_page_table ca)"
      moreover from this have "a \<notin> block (fp_start p) (fp_size p)" using s(1) by (auto simp: fp_span_def)
      ultimately show "m'' a = m a" using inv by (simp add: m'' move_bytes_def run_inv_def del: in_block)
    next
      fix j q assume q: "page_slot (ca_page_table ca) j q \<and> bit_at (ca_work_done ?ca) j"
      show "page_copied ops tm offs m order q m''"
      proof (cases "j = i")
        case True
        with q p have "q = p" by (auto dest: page_slot_unique)
        then show ?thesis using page_moved[OF r p b(2)] by (simp add: m'')
      next
        case False
        then have "bit_at (ca_work_done ca') j"
          using q bm(4) page_in_space(2)[OF d(1), of j q] i(3) by simp
        then have "page_copied ops tm offs m order q m'" using q inv by (auto simp: run_inv_def)
        with page_kept[OF r p _ False] q show ?thesis unfolding m'' by blast
      qed
    qed
    ultimately show thesis using that bm(4) i(3) s(2) by auto
  qed
qed

lemma zeropage_page:
  assumes r: "copy_ready ops tm known m hi order ca" and inv: "run_inv ops tm offs m order ca ca' m'"
    and id: "current_base_page (ca_page_table ca) \<le> i" "i < pt_nr_pages (ca_page_table ca)"
  obtains ca'' m'' where "do_zeropage ca' m' i = Inr (ca'', m'')"
    "run_inv ops tm offs m order ca ca'' m''"
    "\<forall>j < pt_nr_pages (ca_page_table ca). bit_at (ca_work_done ca') j \<longrightarrow> bit_at (ca_work_done ca'') j"
proof -
  note d = copy_readyD[OF r]
  have i: "ca' = ca\<lparr>ca_work_done := ca_work_done ca'\<rparr>" "bitmap_wf (ca_work_done ca')"
    "bm_len (ca_work_done ca') = pt_nr_pages (ca_page_table ca)"
    using inv unfolding run_inv_def by blast+
  have "i < bm_len (ca_work_done ca')" using id(2) i(3) by simp
  from bitmap_set_eq[OF i(2) this, of True Relaxed] obtain bm where
    bm: "bitmap_set (ca_work_done ca') i True Relaxed = Inr (bm, bit_at (ca_work_done ca') i)" "bitmap_wf bm"
      "bm_len bm = bm_len (ca_work_done ca')"
      "\<forall>j < bm_len (ca_work_done ca'). bit_at bm j = (if j = i then True else bit_at (ca_work_done ca') j)"
    by metis
  let ?ca = "ca'\<lparr>ca_work_done := bm\<rparr>" and ?a = "base_addr (ca_page_table ca) + i * BASE_PAGE_SIZE"
  have same: "?ca = ca\<lparr>ca_work_done := bm\<rparr>" by (subst i(1)) simp
  have mul: "current_base_page (ca_page_table ca) * BASE_PAGE_SIZE \<le> i * BASE_PAGE_SIZE"
    "(i + 1) * BASE_PAGE_SIZE \<le> pt_nr_pages (ca_page_table ca) * BASE_PAGE_SIZE"
    using id by (intro mult_le_mono1; simp)+
  have wrap: "wrapping_byte_add (base_addr (ca_page_table ca)) (i * BASE_PAGE_SIZE) = ?a"
    using page_table_wfD(1)[OF d(1)] mul(2) by (simp add: space_ok_def)
  have out: "x \<notin> block ?a BASE_PAGE_SIZE" if "x \<notin> space_block (ca_page_table ca) \<or> page_slot (ca_page_table ca) j q \<and> x \<in> fp_span q" for x j q
  proof
    assume x: "x \<in> block ?a BASE_PAGE_SIZE"
    then have "x \<in> space_block (ca_page_table ca)" using mul(2) by (auto simp: space_block_def)
    moreover have "get_top_addr (ca_page_table ca) \<le> x" using x mul(1) unfolding in_block get_top_addr_def by linarith
    ultimately show False using that slot_top[OF d(1), of j q] by fastforce
  qed
  have inv': "run_inv ops tm offs m order ca ?ca m''" if keep: "\<And>x. x \<notin> block ?a BASE_PAGE_SIZE \<Longrightarrow> m'' x = m' x" for m''
    unfolding run_inv_def
  proof (intro conjI allI impI)
    show "?ca = ca\<lparr>ca_work_done := ca_work_done ?ca\<rparr>" using same by simp
    show "bitmap_wf (ca_work_done ?ca)" "bm_len (ca_work_done ?ca) = pt_nr_pages (ca_page_table ca)"
      using bm(2,3) i(3) by simp_all
    show "m'' x = m x" if "x \<notin> space_block (ca_page_table ca)" for x
      using keep[OF out] that inv by (auto simp: run_inv_def)
    fix j q assume q: "page_slot (ca_page_table ca) j q \<and> bit_at (ca_work_done ?ca) j"
    then have "j < current_base_page (ca_page_table ca)" "j < pt_nr_pages (ca_page_table ca)"
      using page_in_space(2,3)[OF d(1), of j q] by auto
    then have "bit_at (ca_work_done ca') j" using q id(1) bm(4) i(3) by simp
    then have c: "page_copied ops tm offs m order q m'" using q inv by (auto simp: run_inv_def)
    show "page_copied ops tm offs m order q m''"
      unfolding page_copied_def
    proof (clarify)
      fix obj e k assume o: "(obj, e) \<in> set order" "e \<in> fp_span q" "k < obj_size ops tm m obj"
      have "e + k \<in> block e (obj_size ops tm m obj)" using o(3) by simp
      then have "e + k \<in> fp_span q" using page_order(1)[OF r _ o(1)] o(2) q by blast
      then have "m'' (e + k) = m' (e + k)" using keep[OF out] q by blast
      with c o show "m'' (e + k) = obj_image offs m (new_place order) obj k"
        by (auto simp: page_copied_def)
    qed
  qed
  have "ca_page_table ?ca = ca_page_table ca" unfolding same by simp
  with wrap have eq: "do_zeropage ca' m' i = Inr (?ca, if bit_at (ca_work_done ca') i then m' else
      zero_range m' ?a BASE_PAGE_SIZE)"
    using bm(1) by (simp add: do_zeropage_def get_base_addr_def)
  show thesis
  proof (rule that[OF eq])
    show "run_inv ops tm offs m order ca ?ca (if bit_at (ca_work_done ca') i then m' else
        zero_range m' ?a BASE_PAGE_SIZE)"
      by (rule inv') (simp add: zero_range_def del: in_block)
  qed (use bm(4) i(3) in auto)
qed

lemma resolve_fault_step:
  assumes r: "copy_ready ops tm known m hi order ca" and k: "kernel_serves os (ca_page_table ca)"
    and inv: "run_inv ops tm offs m order ca ca' m'" and addr: "addr \<in> space_block (ca_page_table ca)"
  shows "\<exists>ca'' m''. resolve_fault ops tm os ca' m' addr = Inr (ca'', m'') \<and>
    run_inv ops tm offs m order ca ca'' m'' \<and>
    (\<forall>j < pt_nr_pages (ca_page_table ca). bit_at (ca_work_done ca') j \<longrightarrow> bit_at (ca_work_done ca'') j) \<and>
    (\<forall>i p. page_slot (ca_page_table ca) i p \<and> addr \<in> fp_span p \<longrightarrow> bit_at (ca_work_done ca'') i)"
proof -
  note d = copy_readyD[OF r]
  let ?pt = "ca_page_table ca"
  let ?id = "(addr - base_addr ?pt) div BASE_PAGE_SIZE"
  have eq: "ca' = ca\<lparr>ca_work_done := ca_work_done ca'\<rparr>" using inv by (simp add: run_inv_def)
  have c: "ca_page_table ca' = ca_page_table ca" "ca_heap ca' = ca_heap ca"
    "ca_zero_page_start ca' = ca_zero_page_start ca" by (subst eq, simp)+
  have a: "base_addr ?pt \<le> addr" "addr - base_addr ?pt < pt_nr_pages ?pt * BASE_PAGE_SIZE"
    using addr by (auto simp: space_block_def)
  have nr: "?id < pt_nr_pages ?pt" using a(2) by (simp add: div_less_iff_less_mult)
  show ?thesis
  proof (cases "current_base_page ?pt \<le> ?id")
    case True
    then have "get_top_addr ?pt \<le> addr"
      using a(1) by (simp add: get_top_addr_def less_eq_div_iff_mult_less_eq)
    then have none: "addr \<notin> fp_span p" if "page_slot ?pt i p" for i p
      using slot_top[OF d(1) that] by fastforce
    have "resolve_fault ops tm os ca' m' addr = do_zeropage ca' m' ?id"
      using True a(1) c d(2,3,6) by (simp add: resolve_fault_def page_shift get_used_end_page_def)
    with zeropage_page[OF r inv True nr] none show ?thesis by metis
  next
    case False
    then have "addr < get_top_addr ?pt"
      using a(1) by (simp add: get_top_addr_def not_le div_less_iff_less_mult)
    with d(1) a(1) obtain i p where p: "page_slot ?pt i p" "addr \<in> fp_span p" by (rule in_space_has_page)
    have "resolve_fault ops tm os ca' m' addr = do_relocate ops tm os ca' m' i p"
      using False a(1) c d(2,3,6) resolve_in_span[OF d(1) p] p(1)
      by (simp add: resolve_fault_def page_shift get_used_end_page_def get_page_def page_slot_def)
    moreover have "j = i" if "page_slot ?pt j q" "addr \<in> fp_span q" for j q
      using span_unique[OF d(1) that(1) p(1) that(2) p(2)] by simp
    ultimately show ?thesis using do_relocate_page[OF r k inv p(1)] by metis
  qed
qed

lemma run_jobs_copies:
  assumes r: "copy_ready ops tm known m hi order ca" and k: "kernel_serves os (ca_page_table ca)"
  shows "\<lbrakk>run_inv ops tm offs m order ca ca' m'; \<forall>addr \<in> set addrs. addr \<in> space_block (ca_page_table ca)\<rbrakk> \<Longrightarrow>
    \<exists>ca'' m''. run_jobs ops tm os addrs ca' m' = Inr (ca'', m'') \<and> run_inv ops tm offs m order ca ca'' m'' \<and>
      (\<forall>j < pt_nr_pages (ca_page_table ca). bit_at (ca_work_done ca') j \<longrightarrow> bit_at (ca_work_done ca'') j) \<and>
      (\<forall>i p. page_slot (ca_page_table ca) i p \<and> set addrs \<inter> fp_span p \<noteq> {} \<longrightarrow> bit_at (ca_work_done ca'') i)"
proof (induction addrs arbitrary: ca' m')
  case Nil
  then show ?case by simp
next
  case (Cons addr addrs)
  from Cons.prems(2) have "addr \<in> space_block (ca_page_table ca)" by simp
  from resolve_fault_step[OF r k Cons.prems(1) this] obtain ca1 m1 where
    1: "resolve_fault ops tm os ca' m' addr = Inr (ca1, m1)" "run_inv ops tm offs m order ca ca1 m1"
      "\<forall>j < pt_nr_pages (ca_page_table ca). bit_at (ca_work_done ca') j \<longrightarrow> bit_at (ca_work_done ca1) j"
      "\<forall>i p. page_slot (ca_page_table ca) i p \<and> addr \<in> fp_span p \<longrightarrow> bit_at (ca_work_done ca1) i" by blast
  from Cons.IH[OF 1(2)] Cons.prems(2) obtain ca2 m2 where
    2: "run_jobs ops tm os addrs ca1 m1 = Inr (ca2, m2)" "run_inv ops tm offs m order ca ca2 m2"
      "\<forall>j < pt_nr_pages (ca_page_table ca). bit_at (ca_work_done ca1) j \<longrightarrow> bit_at (ca_work_done ca2) j"
      "\<forall>i p. page_slot (ca_page_table ca) i p \<and> set addrs \<inter> fp_span p \<noteq> {} \<longrightarrow> bit_at (ca_work_done ca2) i"
    by auto
  have "bit_at (ca_work_done ca2) i"
    if "page_slot (ca_page_table ca) i p" "set (addr # addrs) \<inter> fp_span p \<noteq> {}" for i p
  proof (cases "addr \<in> fp_span p")
    case True
    with 1(4) that(1) have "bit_at (ca_work_done ca1) i" by blast
    with 2(3) page_in_space(2)[OF copy_readyD(1)[OF r] that(1)] show ?thesis by blast
  next
    case False
    with that(2) have "set addrs \<inter> fp_span p \<noteq> {}" by auto
    with 2(4) that(1) show ?thesis by blast
  qed
  then have "\<forall>i p. page_slot (ca_page_table ca) i p \<and> set (addr # addrs) \<inter> fp_span p \<noteq> {} \<longrightarrow>
      bit_at (ca_work_done ca2) i" by blast
  moreover have "run_jobs ops tm os (addr # addrs) ca' m' = Inr (ca2, m2)" using 1(1) 2(1) by simp
  moreover have "\<forall>j < pt_nr_pages (ca_page_table ca). bit_at (ca_work_done ca') j \<longrightarrow> bit_at (ca_work_done ca2) j"
    using 1(3) 2(3) by blast
  ultimately show ?case using 2(2) by blast
qed

text \<open>After \<open>finish\<close> every object is its image at its new place; the old space is untouched.\<close>

lemma copier_copies:
  assumes r: "copy_ready ops tm known m hi order ca" and k: "kernel_serves os (ca_page_table ca)"
    and s: "schedule_ok ca schedule" and w: "ca_work_done ca = bitmap_new (pt_nr_pages (ca_page_table ca))"
  obtains m' where "copier_finish ops tm os schedule ca m = Inr (ca_registry ca, ca_from_mm ca, m')"
    "\<And>a. a \<notin> space_block (ca_page_table ca) \<Longrightarrow> m' a = m a"
    "\<And>obj d j. (obj, d) \<in> set order \<Longrightarrow> j < obj_size ops tm m obj \<Longrightarrow>
      m' (d + j) = obj_image offs m (new_place order) obj j"
proof -
  note d = copy_readyD[OF r]
  let ?pt = "ca_page_table ca"
  have clear: "\<not> bit_at (ca_work_done ca) i" if "page_slot ?pt i p" for i p
  proof -
    have "i < pt_nr_pages ?pt" using page_in_space(2)[OF d(1) that] .
    then have "bits_of (bitmap_new (pt_nr_pages ?pt)) ! i = False" by (simp add: bitmap_new_bits(2) del: bits_of_nth)
    then show ?thesis using \<open>i < pt_nr_pages ?pt\<close> w by (simp add: bitmap_new_def)
  qed
  have len: "bm_len (bitmap_new (pt_nr_pages ?pt)) = pt_nr_pages ?pt" by (simp add: bitmap_new_def)
  have inv: "run_inv ops tm offs m order ca ca m"
    using clear bitmap_new_bits(1)[of "pt_nr_pages ?pt"] len by (auto simp: run_inv_def w)
  have jobs: "fp_start p \<in> set (eager_jobs ?pt)" if "page_slot ?pt i p" for i p
  proof -
    have "Some p \<in> set (slots ?pt)" using that by (metis nth_mem page_slot_def)
    then show ?thesis by (force simp: eager_jobs_def)
  qed
  have "\<forall>addr \<in> set schedule. addr \<in> space_block ?pt"
    using s by (simp add: schedule_ok_def space_block_def del: in_block)
  from run_jobs_copies[OF r k inv this] obtain ca' m' where
    j: "run_jobs ops tm os schedule ca m = Inr (ca', m')" "run_inv ops tm offs m order ca ca' m'"
      "\<forall>i p. page_slot ?pt i p \<and> set schedule \<inter> fp_span p \<noteq> {} \<longrightarrow> bit_at (ca_work_done ca') i" by blast
  have eq: "ca' = ca\<lparr>ca_work_done := ca_work_done ca'\<rparr>" using j(2) by (simp add: run_inv_def)
  have "ca_registry ca' = ca_registry ca" "ca_from_mm ca' = ca_from_mm ca" by (subst eq, simp)+
  with j(1) have "copier_finish ops tm os schedule ca m = Inr (ca_registry ca, ca_from_mm ca, m')"
    by (simp add: copier_finish_def)
  moreover have "m' a = m a" if "a \<notin> space_block ?pt" for a using j(2) that by (simp add: run_inv_def)
  moreover have "m' (e + i) = obj_image offs m (new_place order) obj i"
    if o: "(obj, e) \<in> set order" "i < obj_size ops tm m obj" for obj e i
  proof -
    obtain n p where p: "page_slot ?pt n p" "block e (obj_size ops tm m obj) \<subseteq> fp_span p"
      using d(10)[OF o(1)] by (auto simp: within_page_def)
    have "fp_start p \<in> set schedule" using jobs[OF p(1)] s by (auto simp: schedule_ok_def)
    moreover have "fp_start p \<in> fp_span p" using page_in_space(5)[OF d(1) p(1)] by (simp add: fp_span_def)
    ultimately have "bit_at (ca_work_done ca') n" using j(3) p(1) by blast
    then have "page_copied ops tm offs m order p m'" using j(2) p(1) by (auto simp: run_inv_def)
    moreover have "e \<in> fp_span p" using p(2) placed_above(4)[OF r o(1)] by fastforce
    ultimately show ?thesis using o by (auto simp: page_copied_def)
  qed
  ultimately show thesis using that by blast
qed

text \<open>What the image of an object is, as an object: the same kind, size and layout, pointers forwarded.\<close>

lemma image_object:
  assumes wf: "object_wf known m obj" and al: "8 dvd d"
    and img: "\<And>j. j < obj_size ops tm m obj \<Longrightarrow> m' (d + j) = obj_image offs m f obj j"
    and f: "\<And>p. p \<in> set (obj_pointers ops tm m obj) \<Longrightarrow> f p \<noteq> 0 \<and> f p < 2 ^ 64"
  shows "object_wf known m' d" "obj_size ops tm m' d = obj_size ops tm m obj" "m' d = m obj"
    "obj_kind m' d = obj_kind m obj" "obj_pointers ops tm m' d = map f (obj_pointers ops tm m obj)"
proof -
  let ?F = "set (field_addrs offs m obj)"
  have n: "16 \<le> obj_size ops tm m obj" using wf by (rule obj_size_ge)
  have fields: "obj + 16 \<le> a \<and> a + 8 \<le> obj + obj_size ops tm m obj" if "a \<in> ?F" for a
    using field_addrs_wf(3)[OF wf] that by blast
  have hdr: "m' d = m obj" "m' (d + 8) = m (obj + 8)"
    using img[of 0] img[of 8] n fields by (force simp: obj_image_def)+
  then show "m' d = m obj" "obj_kind m' d = obj_kind m obj" by (simp_all add: obj_kind_def)
  have "m' (d + i) = m (obj + i)" if "i < obj_size ops tm m obj" "obj + i \<notin> ?F" for i
    using img[OF that(1)] that(2) by (simp add: obj_image_def)
  with hdr have lay: "object_wf known m' d" "obj_size ops tm m' d = obj_size ops tm m obj"
    "field_addrs offs m' d = map (\<lambda>a. d + (a - obj)) (field_addrs offs m obj)"
    using same_layout[OF wf al, of m'] by simp_all
  show "object_wf known m' d" "obj_size ops tm m' d = obj_size ops tm m obj" by (fact lay)+
  have word: "m' (d + (a - obj)) = (if m a = 0 then 0 else word_of_nat (f (unat (m a))))" if "a \<in> ?F" for a
  proof -
    have "a - obj < obj_size ops tm m obj" "obj + (a - obj) = a" using fields[OF that] by linarith+
    with img[of "a - obj"] that show ?thesis by (simp add: obj_image_def)
  qed
  have "f (unat (m a)) \<noteq> 0 \<and> f (unat (m a)) < 2 ^ 64" if "a \<in> ?F" "m a \<noteq> 0" for a
    using that unsigned_eq_0_iff[of "m a"] by (intro f) (auto simp: iterate_known(2)[OF wf])
  then have "unat (m' (d + (a - obj))) = (if m a = 0 then 0 else f (unat (m a)))" if "a \<in> ?F" for a
    using word[OF that] that by (simp add: unat_of_nat)
  then have "map (\<lambda>a. unat (m' a)) (field_addrs offs m' d) =
      map (\<lambda>a. if m a = 0 then 0 else f (unat (m a))) (field_addrs offs m obj)"
    by (simp add: lay(3))
  moreover have "filter (\<lambda>v. v \<noteq> 0) (map (\<lambda>a. if m a = 0 then 0 else f (unat (m a))) as) =
      map f (filter (\<lambda>v. v \<noteq> 0) (map (\<lambda>a. unat (m a)) as))" if "set as \<subseteq> ?F" for as
    using that \<open>\<And>a. a \<in> ?F \<Longrightarrow> m a \<noteq> 0 \<Longrightarrow> f (unat (m a)) \<noteq> 0 \<and> f (unat (m a)) < 2 ^ 64\<close>
    by (induction as) (auto simp: unsigned_eq_0_iff)
  ultimately show "obj_pointers ops tm m' d = map f (obj_pointers ops tm m obj)"
    by (simp add: iterate_known(2)[OF wf] iterate_known(2)[OF lay(1)])
qed

end

end
