(* ===== verification/GC_Cycle.thy ===== *)
theory GC_Cycle
  imports Copier
begin

text \<open>
  \<open>uwugc/src/gc.rs\<close>: one collection cycle in its five steps, and the closure that \<open>gc_thread\<close> of
  \<open>state.rs\<close> runs for every cycle. The stop-the-world steps are functions of the world. What the
  mutators do in the concurrent phases is the parameter \<open>env\<close>, which may change the world between
  the steps; the marker and the copier themselves run as one step each. \<open>None\<close> is a marker that
  does not return.
\<close>

section \<open>State passed between the steps\<close>

record persistent_state =
  ps_cached_registry :: "registry_builder option"
  ps_cached_marker :: "marker option"
  ps_copier :: "copier option"

record step2_args =
  s2_gc :: persistent_state
  s2_root :: "root_set list"
  s2_heap :: heap_info
  s2_mark_true_bit :: bit2
  s2_second_mm :: heap_mm

record step3_args =
  s3_gc :: persistent_state
  s3_second_mm :: heap_mm
  s3_relocation_registry :: registry_builder
  s3_heap :: heap_info

record step4_args =
  s4_gc :: persistent_state
  s4_copier :: copier_active

record step5_args =
  s5_gc :: persistent_state
  s5_second_mm :: heap_mm

datatype phase = After_Flush | Marking | Relocating

section \<open>The steps\<close>

definition gc_init :: "persistent_state option \<Rightarrow> persistent_state" where
  "gc_init state =
     (case state of
        Some gc \<Rightarrow> gc
      | None \<Rightarrow> \<lparr>ps_cached_registry = Some builder_new, ps_cached_marker = Some marker_new,
                 ps_copier = Some Copier_Pools\<rparr>)"

definition heap_info_of :: "heap_mm \<Rightarrow> heap_mm \<Rightarrow> heap_info" where
  "heap_info_of mm second_mm =
     \<lparr>hi_start = map_ptr (mm_mapping mm), hi_used_end = get_top_addr (mm_page_table mm),
      hi_size = map_len (mm_mapping mm), hi_used_end_page = get_used_end_page (mm_page_table mm),
      hi_to_space = map_ptr (mm_mapping second_mm)\<rparr>"

definition gc_step1 ::
    "'tm type_manager_ops \<Rightarrow> persistent_state \<Rightarrow> 'tm world \<Rightarrow> (step2_args \<times> 'tm world) res" where
  "gc_step1 ops gc w =
     (let ss = w_shared w;
          mark_true_bit = ss_mark_true_bit ss;
          ss = ss\<lparr>ss_mark_true_bit := bit_not mark_true_bit\<rparr>;
          saved_roots = map (\<lambda>(_, v). root_clone_boxed (cs_root_set v)) (ss_contexts ss);
          w = w\<lparr>w_controller := clear_request (w_controller w)\<rparr>;
          ss = ss\<lparr>ss_type_manager := tm_assume_all_dead ops (ss_type_manager ss)\<rparr> in
      bind_res (deque_cleared_mm ss) (\<lambda>(ss, second_mm).
        Inr (\<lparr>s2_gc = gc, s2_root = saved_roots,
              s2_heap = heap_info_of (ss_mm ss) second_mm,
              s2_mark_true_bit = mark_true_bit, s2_second_mm = second_mm\<rparr>,
             w\<lparr>w_shared := ss\<rparr>)))"

definition gc_step2 ::
    "'tm type_manager_ops \<Rightarrow> step2_args \<Rightarrow> 'tm world \<Rightarrow> (step3_args \<times> 'tm world) res option" where
  "gc_step2 ops args w =
     (case ps_cached_registry (s2_gc args) of
        None \<Rightarrow> Some (Inl Unwrap_None)
      | Some registry \<Rightarrow>
          (case ps_cached_marker (s2_gc args) of
             None \<Rightarrow> Some (Inl Unwrap_None)
           | Some mk \<Rightarrow>
               map_option
                 (\<lambda>r. bind_res r (\<lambda>st.
                    Inr (\<lparr>s3_gc = (s2_gc args)\<lparr>ps_cached_registry := None,
                            ps_cached_marker := Some \<lparr>mk_stack = ms_stack st\<rparr>\<rparr>,
                          s3_second_mm = (s2_second_mm args)\<lparr>mm_page_table := snd (ms_alloc st)\<rparr>,
                          s3_relocation_registry = ms_registry st, s3_heap = s2_heap args\<rparr>,
                         w\<lparr>w_memory := ms_memory st\<rparr>)))
                 (marker_start ops (ss_type_manager (w_shared w)) (w_memory w) mk (s2_root args)
                    (mm_page_table (s2_second_mm args)) registry (s2_heap args) (s2_mark_true_bit args))))"

text \<open>Step 3: the loop that donates pages, and the closure that fixes a root.\<close>

fun donate_pages :: "bool \<Rightarrow> page_table \<Rightarrow> nat list \<Rightarrow> page_table \<Rightarrow> page_table res" where
  "donate_pages checks page_table [] pt = Inr pt"
| "donate_pages checks page_table (page # pages) pt =
     bind_res (get_page page_table page) (\<lambda>slot.
       case slot of
         None \<Rightarrow> donate_pages checks page_table pages pt
       | Some p \<Rightarrow> bind_res (donate_page checks pt p) (\<lambda>pt. donate_pages checks page_table pages pt))"

definition fix_root :: "heap_info \<Rightarrow> frozen_registry \<Rightarrow> object_ptr \<Rightarrow> object_ptr res" where
  "fix_root hi registry_frozen x =
     bind_res (usub x (hi_start hi)) (\<lambda>off.
     bind_res (map_src_to_dest registry_frozen off) (\<lambda>found.
     bind_res (unwrap found) (\<lambda>mapped.
       unwrap (object_from_raw (wrapping_byte_add (hi_to_space hi) mapped)))))"

fun fix_contexts ::
    "(object_ptr \<Rightarrow> object_ptr res) \<Rightarrow> (nat \<times> context_shared) list \<Rightarrow> (nat \<times> context_shared) list res" where
  "fix_contexts visitor [] = Inr []"
| "fix_contexts visitor ((thread, cs) # rest) =
     bind_res (root_map_pointers visitor (cs_root_set cs)) (\<lambda>roots.
     bind_res (fix_contexts visitor rest) (\<lambda>rest.
       Inr ((thread, cs\<lparr>cs_root_set := roots\<rparr>) # rest)))"

definition gc_step3 ::
    "'tm type_manager_ops \<Rightarrow> bool \<Rightarrow> step3_args \<Rightarrow> 'tm world \<Rightarrow> (step4_args \<times> 'tm world) res" where
  "gc_step3 ops checks args w =
     (let ss = w_shared w; hi = s3_heap args;
          later_used_start_page = hi_used_end_page hi;
          later_used_end_page = get_used_end_page (mm_page_table (ss_mm ss)) in
      bind_res (donate_pages checks (mm_page_table (ss_mm ss))
        [later_used_start_page..<later_used_end_page] (mm_page_table (s3_second_mm args))) (\<lambda>pt.
      let second_mm = (s3_second_mm args)\<lparr>mm_page_table := pt\<rparr>;
          registry_frozen = builder_freeze (s3_relocation_registry args) in
      bind_res (fix_contexts (fix_root hi registry_frozen) (ss_contexts ss)) (\<lambda>contexts.
      let ss = ss\<lparr>ss_contexts := contexts\<rparr>;
          ss = ss\<lparr>ss_type_manager := tm_wipe_deads ops (ss_type_manager ss)\<rparr> in
      bind_res (unwrap (ps_copier (s3_gc args))) (\<lambda>_.
      let heap_info = \<lparr>hl_start = hi_start hi, hl_to_space = hi_to_space hi, hl_size = hi_size hi\<rparr>;
          from_space = ss_mm ss;
          ss = ss\<lparr>ss_mm := second_mm\<rparr> in
        Inr (\<lparr>s4_gc = (s3_gc args)\<lparr>ps_copier := None\<rparr>,
              s4_copier = copier_start heap_info registry_frozen from_space
                (page_table_clone (mm_page_table (ss_mm ss)))\<rparr>,
             w\<lparr>w_shared := ss\<rparr>)))))"

definition gc_step4 ::
    "'tm type_manager_ops \<Rightarrow> os_kernel \<Rightarrow> (copier_active \<Rightarrow> nat list) \<Rightarrow> step4_args \<Rightarrow> 'tm world
     \<Rightarrow> (step5_args \<times> 'tm world) res" where
  "gc_step4 ops os schedule args w =
     bind_res (copier_finish ops (ss_type_manager (w_shared w)) os (schedule (s4_copier args))
       (s4_copier args) (w_memory w)) (\<lambda>(registry, second_mm, m).
       Inr (\<lparr>s5_gc = (s4_gc args)\<lparr>ps_cached_registry := Some (registry_unfreeze registry),
               ps_copier := Some Copier_Pools\<rparr>,
             s5_second_mm = second_mm\<rparr>,
            w\<lparr>w_memory := mm_clear second_mm m\<rparr>))"

definition gc_step5 :: "step5_args \<Rightarrow> 'tm world \<Rightarrow> persistent_state \<times> 'tm world" where
  "gc_step5 args w =
     (let (ss, m) = enqueue_to_be_cleared_mm (s5_second_mm args) (w_shared w) (w_memory w) in
      (s5_gc args, w\<lparr>w_shared := ss, w_memory := m\<rparr>))"

section \<open>The cycle\<close>

definition do_cycle ::
    "'tm type_manager_ops \<Rightarrow> bool \<Rightarrow> os_kernel \<Rightarrow> (copier_active \<Rightarrow> nat list)
     \<Rightarrow> (phase \<Rightarrow> 'tm world \<Rightarrow> 'tm world) \<Rightarrow> persistent_state option \<Rightarrow> 'tm world
     \<Rightarrow> (persistent_state \<times> 'tm world) res option" where
  "do_cycle ops checks os schedule env state w =
     (case gc_step1 ops (gc_init state) w of
        Inl e \<Rightarrow> Some (Inl e)
      | Inr (args, w) \<Rightarrow>
          map_option
            (\<lambda>r. bind_res r (\<lambda>(args, w).
               bind_res (gc_step3 ops checks args (env Marking w)) (\<lambda>(args, w).
               bind_res (gc_step4 ops os schedule args w) (\<lambda>(args, w).
                 Inr (gc_step5 args (env Relocating w))))))
            (gc_step2 ops args w))"

text \<open>The closure given to \<open>do_looper\<close>: flush the contexts' buffer pages, then collect.\<close>

definition gc_thread_cycle ::
    "'tm type_manager_ops \<Rightarrow> bool \<Rightarrow> os_kernel \<Rightarrow> (copier_active \<Rightarrow> nat list)
     \<Rightarrow> (phase \<Rightarrow> 'tm world \<Rightarrow> 'tm world) \<Rightarrow> persistent_state option \<Rightarrow> 'tm world
     \<Rightarrow> (persistent_state \<times> 'tm world) res option" where
  "gc_thread_cycle ops checks os schedule env gc_state w =
     do_cycle ops checks os schedule env gc_state
       (env After_Flush (w\<lparr>w_shared := flush_contexts (w_shared w)\<rparr>))"

definition quiet :: "phase \<Rightarrow> 'tm world \<Rightarrow> 'tm world" where
  "quiet phase w = w"

lemma fix_contexts_total:
  "\<forall>(thread, cs) \<in> set ctxs. \<forall>x \<in> set (cs_root_set cs). visitor x = Inr (f x) \<Longrightarrow>
   fix_contexts visitor ctxs = Inr (map (\<lambda>(thread, cs). (thread, cs\<lparr>cs_root_set := map f (cs_root_set cs)\<rparr>)) ctxs)"
proof (induction ctxs)
  case (Cons c ctxs)
  obtain thread cs where c: "c = (thread, cs)" by (cases c)
  have "root_map_pointers visitor (cs_root_set cs) = Inr (map f (cs_root_set cs))"
    using Cons.prems by (intro root_map_pointers_total) (simp add: c)
  with Cons show ?case by (simp add: c)
qed simp

lemma fix_contexts_panics:
  "(thread, cs) \<in> set ctxs \<Longrightarrow> x \<in> set (cs_root_set cs) \<Longrightarrow> visitor x = Inl e \<Longrightarrow> \<not> ok (fix_contexts visitor ctxs)"
  using root_map_pointers_panics[of x "cs_root_set cs" visitor e]
  by (induction ctxs) (auto simp: bind_res_def split: sum.splits)

end
