(* ===== verification/Descriptor.thy ===== *)
theory Descriptor
  imports Prelude
begin

text \<open>
  \<open>uwugc-plus/src/descriptor.rs\<close>: the description of where the GC pointers of a type are, nested as
  the derive macro builds it, and the iterator over the offsets. The iterator is a stack of frames
  (top first here, last in the source). \<open>iter_all\<close> runs it to its end; \<open>frame_offsets\<close> is the closed
  form of what it yields and \<open>pointer_offsets\<close> the offsets at which the pointers really are.
\<close>

section \<open>Descriptors\<close>

datatype 'a cow = Borrowed 'a | Owned 'a

fun cow_get :: "'a cow \<Rightarrow> 'a" where
  "cow_get (Borrowed x) = x"
| "cow_get (Owned x) = x"

datatype descriptor =
  Descriptor (desc_fields: "nat list cow") (desc_unflattened: "(nat \<times> descriptor) list")
    (desc_size: nat) (desc_is_array: bool)

definition descriptor_new :: "nat list cow \<Rightarrow> nat \<Rightarrow> descriptor" where
  "descriptor_new fields sz = Descriptor fields [] sz False"

definition descriptor_new_unflattened :: "nat list cow \<Rightarrow> nat \<Rightarrow> (nat \<times> descriptor) list \<Rightarrow> descriptor" where
  "descriptor_new_unflattened fields sz unflattened = Descriptor fields unflattened sz False"

definition descriptor_to_array :: "descriptor \<Rightarrow> descriptor res" where
  "descriptor_to_array d =
     (case desc_fields d of
        Borrowed x \<Rightarrow> Inr (Descriptor (Borrowed x) (desc_unflattened d) (desc_size d) True)
      | Owned _ \<Rightarrow> Inl Explicit_Panic)"

section \<open>The pointer iterator\<close>

record current_descriptor =
  cd_base :: nat
  cd_fields :: "nat list"
  cd_childs :: "(nat \<times> descriptor) list"

type_synonym pointer_iter = "current_descriptor list"

definition iter_ptrs :: "descriptor \<Rightarrow> pointer_iter" where
  "iter_ptrs d = [\<lparr>cd_base = 0, cd_fields = cow_get (desc_fields d), cd_childs = desc_unflattened d\<rparr>]"

text \<open>Weights: every iteration of the loop of \<open>next\<close> makes the stack lighter.\<close>

fun desc_weight :: "descriptor \<Rightarrow> nat" where
  "desc_weight (Descriptor fs us _ _) =
     2 + length (cow_get fs) + sum_list (map (\<lambda>(_, d). desc_weight d) us)"

definition frame_weight :: "current_descriptor \<Rightarrow> nat" where
  "frame_weight c = 1 + length (cd_fields c) + sum_list (map (\<lambda>(_, d). desc_weight d) (cd_childs c))"

definition iter_weight :: "pointer_iter \<Rightarrow> nat" where
  "iter_weight st = sum_list (map frame_weight st)"

lemma desc_weight_eq:
  "desc_weight d =
     2 + length (cow_get (desc_fields d)) + sum_list (map (\<lambda>(_, d). desc_weight d) (desc_unflattened d))"
  by (cases d) simp

function iter_next :: "pointer_iter \<Rightarrow> nat option \<times> pointer_iter" where
  "iter_next [] = (None, [])"
| "iter_next (current # stack) =
     (case cd_fields current of
        field # fs \<Rightarrow> (Some (cd_base current + field), current\<lparr>cd_fields := fs\<rparr> # stack)
      | [] \<Rightarrow>
          (case cd_childs current of
             [] \<Rightarrow> iter_next stack
           | (offset, child) # cs \<Rightarrow>
               iter_next
                 (\<lparr>cd_base = offset, cd_fields = cow_get (desc_fields child),
                   cd_childs = desc_unflattened child\<rparr> # current\<lparr>cd_childs := cs\<rparr> # stack)))"
  by pat_completeness auto
termination
proof (relation "measure iter_weight")
  fix current :: current_descriptor and stack offset child cs oc
  assume "cd_childs current = oc # cs" "(offset, child) = oc"
  then show "(\<lparr>cd_base = offset, cd_fields = cow_get (desc_fields child),
        cd_childs = desc_unflattened child\<rparr> # current\<lparr>cd_childs := cs\<rparr> # stack, current # stack)
      \<in> measure iter_weight"
    by (auto simp: iter_weight_def frame_weight_def desc_weight_eq[of child])
qed (auto simp: iter_weight_def frame_weight_def)

lemma iter_next_weight: "iter_next st = (Some x, st') \<Longrightarrow> iter_weight st' < iter_weight st"
proof (induction st arbitrary: x st' rule: iter_next.induct)
  case (2 current stack)
  show ?case
  proof (cases "cd_fields current")
    case (Cons f fs)
    with 2(3) show ?thesis by (auto simp: iter_weight_def frame_weight_def)
  next
    case Nil
    show ?thesis
    proof (cases "cd_childs current")
      case Nil
      with \<open>cd_fields current = []\<close> 2 show ?thesis
        by (fastforce simp: iter_weight_def frame_weight_def)
    next
      case (Cons oc cs)
      obtain offset child where oc: "oc = (offset, child)" by (cases oc)
      show ?thesis
        using 2(2)[OF \<open>cd_fields current = []\<close> Cons oc[symmetric], of x st'] 2(3) \<open>cd_fields current = []\<close> Cons oc
        by (auto simp: iter_weight_def frame_weight_def desc_weight_eq[of child])
    qed
  qed
qed simp

text \<open>A \<open>for\<close> loop over the iterator.\<close>

function iter_all :: "pointer_iter \<Rightarrow> nat list" where
  "iter_all st = (case iter_next st of (None, _) \<Rightarrow> [] | (Some x, st') \<Rightarrow> x # iter_all st')"
  by pat_completeness auto
termination
  by (relation "measure iter_weight") (auto intro: iter_next_weight[OF sym])

declare iter_all.simps [simp del]

section \<open>What the iterator yields\<close>

fun yielded_at :: "nat \<Rightarrow> descriptor \<Rightarrow> nat list" where
  "yielded_at base (Descriptor fs us _ _) =
     map (\<lambda>f. base + f) (cow_get fs) @ concat (map (\<lambda>(off, d). yielded_at off d) us)"

fun pointer_offsets_at :: "nat \<Rightarrow> descriptor \<Rightarrow> nat list" where
  "pointer_offsets_at base (Descriptor fs us _ _) =
     map (\<lambda>f. base + f) (cow_get fs) @ concat (map (\<lambda>(off, d). pointer_offsets_at (base + off) d) us)"

definition frame_offsets :: "current_descriptor \<Rightarrow> nat list" where
  "frame_offsets c =
     map (\<lambda>f. cd_base c + f) (cd_fields c) @ concat (map (\<lambda>(off, d). yielded_at off d) (cd_childs c))"

definition iter_offsets :: "pointer_iter \<Rightarrow> nat list" where
  "iter_offsets st = concat (map frame_offsets st)"

lemma yielded_at_eq:
  "yielded_at base d =
     map (\<lambda>f. base + f) (cow_get (desc_fields d)) @
     concat (map (\<lambda>(off, d). yielded_at off d) (desc_unflattened d))"
  by (cases d) simp

lemma iter_next_offsets:
  "iter_next st = (r, st') \<Longrightarrow>
   iter_offsets st = (case r of None \<Rightarrow> [] | Some x \<Rightarrow> x # iter_offsets st')"
proof (induction st arbitrary: r st' rule: iter_next.induct)
  case 1
  then show ?case by (auto simp: iter_offsets_def)
next
  case (2 current stack)
  show ?case
  proof (cases "cd_fields current")
    case (Cons f fs)
    with 2(3) show ?thesis by (auto simp: iter_offsets_def frame_offsets_def)
  next
    case Nil
    show ?thesis
    proof (cases "cd_childs current")
      case Nil
      with \<open>cd_fields current = []\<close> 2 show ?thesis
        by (auto simp: iter_offsets_def frame_offsets_def)
    next
      case (Cons oc cs)
      obtain offset child where oc: "oc = (offset, child)" by (cases oc)
      show ?thesis
        using 2(2)[OF \<open>cd_fields current = []\<close> Cons oc[symmetric], of r st'] 2(3) \<open>cd_fields current = []\<close> Cons oc
        by (simp add: iter_offsets_def frame_offsets_def yielded_at_eq[of offset child])
    qed
  qed
qed

lemma iter_all_offsets: "iter_all st = iter_offsets st"
proof (induction st rule: iter_all.induct)
  case (1 st)
  obtain r st' where n: "iter_next st = (r, st')" by (cases "iter_next st")
  with 1[OF n[symmetric]] iter_next_offsets[OF n] show ?case
    by (subst iter_all.simps) (auto split: option.splits)
qed

lemma iter_all_ptrs: "iter_all (iter_ptrs d) = yielded_at 0 d"
  by (simp add: iter_all_offsets iter_offsets_def iter_ptrs_def frame_offsets_def yielded_at_eq[of 0 d])

text \<open>
  Pointers at most one level below \<open>d\<close>, as in a struct whose fields are boxes, plain data, or structs
  without pointers.
\<close>

definition one_level :: "descriptor \<Rightarrow> bool" where
  "one_level d \<longleftrightarrow> (\<forall>(_, c) \<in> set (desc_unflattened d). desc_unflattened c = [] \<or> pointer_offsets_at 0 c = [])"

lemma yielded_length: "length (yielded_at base d) = length (pointer_offsets_at base' d)"
proof (induction base d arbitrary: base' rule: yielded_at.induct)
  case (1 base fs us sz arr)
  have "length (yielded_at (fst x) (snd x)) = length (pointer_offsets_at (base' + fst x) (snd x))" if "x \<in> set us" for x
    using "1.IH"[of x "fst x" "snd x"] that by simp
  then have "map (\<lambda>x. length (yielded_at (fst x) (snd x))) us = map (\<lambda>x. length (pointer_offsets_at (base' + fst x) (snd x))) us"
    by simp
  from arg_cong[OF this, of sum_list] show ?case by (simp only: yielded_at.simps pointer_offsets_at.simps length_append
        length_map length_concat map_map o_def split_def)
qed

lemma yielded_one_level:
  assumes "one_level d"
  shows "yielded_at 0 d = pointer_offsets_at 0 d"
proof -
  have "yielded_at off c = pointer_offsets_at off c" if "(off, c) \<in> set (desc_unflattened d)" for off c
  proof (cases "desc_unflattened c = []")
    case True
    then show ?thesis by (cases c) simp
  next
    case False
    with that assms have "pointer_offsets_at 0 c = []" by (auto simp: one_level_def)
    with yielded_length[of off c 0] yielded_length[of 0 c off] yielded_length[of 0 c 0] show ?thesis by simp
  qed
  then show ?thesis
    by (cases d) (auto intro!: arg_cong[of _ _ concat])
qed

section \<open>Properties\<close>

text \<open>
  For a descriptor nested at most one level (the top descriptor's own fields and children
  without children) a \<open>for\<close> loop over \<open>iter_ptrs\<close> ends and yields each pointer offset exactly where
  the pointer is: the own fields first, then each child's fields at the child's offset.
\<close>

theorem pointer_iter_one_level:
  assumes "one_level d"
  shows "iter_all (iter_ptrs d) = pointer_offsets_at 0 d"
  using assms by (simp add: iter_all_ptrs yielded_one_level)

theorem pointer_iter_one_level_witness:
  "iter_all (iter_ptrs (Descriptor (Borrowed [0]) [(16, Descriptor (Borrowed [0, 8]) [] 16 False)] 32 False)) =
    [0, 16, 24]"
  by (subst pointer_iter_one_level) (simp_all add: one_level_def)

text \<open>
  One level deeper the iterator is wrong: \<open>next\<close> pushes a child with its own offset as base and
  forgets the base of the frame it is in. For a struct at \<open>o2\<close> inside a struct at \<open>o1\<close> it yields
  \<open>o2 + f\<close> where the pointers are at \<open>o1 + o2 + f\<close>.
\<close>

theorem pointer_iter_forgets_base:
  "iter_all (iter_ptrs (Descriptor (Borrowed []) [(o1, Descriptor (Borrowed [])
      [(o2, Descriptor (Borrowed fs) [] s3 False)] s2 False)] s1 False)) = map (\<lambda>f. o2 + f) fs \<and>
   pointer_offsets_at 0 (Descriptor (Borrowed []) [(o1, Descriptor (Borrowed [])
      [(o2, Descriptor (Borrowed fs) [] s3 False)] s2 False)] s1 False) = map (\<lambda>f. o1 + o2 + f) fs"
  by (simp add: iter_all_ptrs)

end
