(* ===== verification/Types.thy ===== *)
theory Types
  imports GC_Cycle Descriptor
begin

text \<open>
  \<open>uwugc-plus/src/types.rs\<close>, \<open>types/pointer_iterator.rs\<close> and \<open>array_metadata.rs\<close>: the type manager of
  the high-level interface. A type id is a tagged word: a static descriptor's address, an inline
  array of references, or a dynamically registered descriptor. \<open>statics\<close> is the memory of static
  descriptors: the address of each \<open>&'static Descriptor\<close> in the program and what is there; reading
  it elsewhere is undefined behaviour.
\<close>

section \<open>State\<close>

definition TYPE_PAYLOAD_SHIFT :: nat where "TYPE_PAYLOAD_SHIFT = 2"
definition TYPE_TYPE_MASK :: "64 word" where "TYPE_TYPE_MASK = 3"

definition ARRAY_HEADER_SIZE :: nat where "ARRAY_HEADER_SIZE = 8"
definition POINTER_SIZE :: nat where "POINTER_SIZE = 8"

type_synonym static_memory = "64 word \<rightharpoonup> descriptor"

record descriptor_entry =
  marked_dead :: bool
  entry_descriptor :: "descriptor cow"

record types_state =
  latest_id :: "64 word"
  dynamic_types :: "64 word \<rightharpoonup> descriptor_entry"

datatype type_info =
    StaticallyKnown descriptor
  | RefArray nat
  | DynamicallyKnown descriptor

definition types_new :: types_state where
  "types_new = \<lparr>latest_id = 0, dynamic_types = Map.empty\<rparr>"

text \<open>\<open>TypeId::from(&'static Descriptor)\<close>: the address, whose two low bits must be free.\<close>

definition type_id_from_static :: "64 word \<Rightarrow> 64 word res" where
  "type_id_from_static ptr = assert_then (ptr AND TYPE_TYPE_MASK = 0) (Inr ptr)"

definition types_register :: "types_state \<Rightarrow> descriptor cow \<Rightarrow> (types_state \<times> 64 word) res" where
  "types_register ts descriptor =
     (if latest_id ts = - 1 then Inl Unwrap_None
      else
        let ty = latest_id ts; ts = ts\<lparr>latest_id := ty + 1\<rparr> in
        if dynamic_types ts ty \<noteq> None then Inl Unwrap_None
        else
          Inr (ts\<lparr>dynamic_types :=
                 (dynamic_types ts)(ty \<mapsto> \<lparr>marked_dead = True, entry_descriptor = descriptor\<rparr>)\<rparr>,
               ty))"

definition get_type :: "static_memory \<Rightarrow> types_state \<Rightarrow> 64 word \<Rightarrow> type_info option res" where
  "get_type statics ts type_id =
     (let type_type = type_id AND TYPE_TYPE_MASK in
      if type_type = 0 then
        (let ptr = type_id AND NOT TYPE_TYPE_MASK in
         if ptr = 0 then Inl Unwrap_None
         else
           case statics ptr of
             Some desc \<Rightarrow> Inr (Some (StaticallyKnown desc))
           | None \<Rightarrow> Inl Undefined_Behavior)
      else if type_type = 1 then Inr (Some (RefArray (unat (drop_bit TYPE_PAYLOAD_SHIFT type_id))))
      else if type_type = 2 then
        Inr (map_option (\<lambda>e. DynamicallyKnown (cow_get (entry_descriptor e))) (dynamic_types ts type_id))
      else Inl Unimplemented)"

section \<open>Sizes\<close>

fun info_static_size :: "type_info \<Rightarrow> nat" where
  "info_static_size (RefArray len) = len * POINTER_SIZE"
| "info_static_size (DynamicallyKnown desc) =
     (if desc_is_array desc then ARRAY_HEADER_SIZE else desc_size desc)"
| "info_static_size (StaticallyKnown desc) =
     (if desc_is_array desc then ARRAY_HEADER_SIZE else desc_size desc)"

text \<open>The length field of the array header at the start of the object's data.\<close>

definition array_len :: "memory \<Rightarrow> object_ptr \<Rightarrow> nat" where
  "array_len m obj = unat (m (object_data obj))"

fun info_dynamic_size :: "memory \<Rightarrow> type_info \<Rightarrow> object_ptr \<Rightarrow> nat" where
  "info_dynamic_size m (RefArray len) obj = info_static_size (RefArray len)"
| "info_dynamic_size m (DynamicallyKnown desc) obj =
     (if desc_is_array desc
      then info_static_size (DynamicallyKnown desc) + desc_size desc * array_len m obj
      else desc_size desc)"
| "info_dynamic_size m (StaticallyKnown desc) obj =
     (if desc_is_array desc
      then info_static_size (StaticallyKnown desc) + desc_size desc * array_len m obj
      else desc_size desc)"

section \<open>The iterator over the pointer fields of an object\<close>

record array_iter =
  ai_element_desc :: descriptor
  ai_len :: nat
  ai_current :: nat
  ai_current_iter :: pointer_iter

datatype pointer_iterator_data =
    NormalIterator pointer_iter
  | ArrayIterator array_iter
  | RefArrayIterator nat nat      \<comment> \<open>the range \<open>next..len\<close>\<close>

definition from_descriptor :: "memory \<Rightarrow> object_ptr \<Rightarrow> descriptor \<Rightarrow> pointer_iterator_data" where
  "from_descriptor m obj desc =
     (if desc_is_array desc then
        ArrayIterator \<lparr>ai_element_desc = desc, ai_len = array_len m obj, ai_current = 0,
          ai_current_iter = iter_ptrs desc\<rparr>
      else NormalIterator (iter_ptrs desc))"

fun from_type_info :: "memory \<Rightarrow> type_info \<Rightarrow> object_ptr \<Rightarrow> pointer_iterator_data" where
  "from_type_info m (DynamicallyKnown desc) obj = from_descriptor m obj desc"
| "from_type_info m (StaticallyKnown desc) obj = from_descriptor m obj desc"
| "from_type_info m (RefArray len) obj = RefArrayIterator 0 len"

text \<open>The \<open>loop\<close> of the array branch of \<open>next\<close>.\<close>

function array_next :: "array_iter \<Rightarrow> nat option \<times> array_iter" where
  "array_next st =
     (if ai_len st \<le> ai_current st then (None, st)
      else
        case iter_next (ai_current_iter st) of
          (None, it) \<Rightarrow>
            array_next (st\<lparr>ai_current := ai_current st + 1,
              ai_current_iter := iter_ptrs (ai_element_desc st)\<rparr>)
        | (Some offset, it) \<Rightarrow>
            (Some (ai_current st * desc_size (ai_element_desc st) + offset + ARRAY_HEADER_SIZE),
             st\<lparr>ai_current_iter := it\<rparr>))"
  by pat_completeness auto
termination
  by (relation "measure (\<lambda>st. ai_len st - ai_current st)") auto

declare array_next.simps [simp del]

fun offset_next :: "pointer_iterator_data \<Rightarrow> nat option \<times> pointer_iterator_data" where
  "offset_next (NormalIterator it) = (let (r, it) = iter_next it in (r, NormalIterator it))"
| "offset_next (RefArrayIterator i len) =
     (if i < len then (Some i, RefArrayIterator (i + 1) len) else (None, RefArrayIterator i len))"
| "offset_next (ArrayIterator st) = (let (r, st) = array_next st in (r, ArrayIterator st))"

text \<open>The number of items left, for the termination of a \<open>for\<close> loop over the iterator.\<close>

fun offsets_left :: "pointer_iterator_data \<Rightarrow> nat list" where
  "offsets_left (NormalIterator it) = iter_offsets it"
| "offsets_left (RefArrayIterator i len) = [i..<len]"
| "offsets_left (ArrayIterator st) =
     (if ai_len st \<le> ai_current st then []
      else
        map (\<lambda>off. ai_current st * desc_size (ai_element_desc st) + off + ARRAY_HEADER_SIZE)
          (iter_offsets (ai_current_iter st)) @
        concat (map (\<lambda>k. map (\<lambda>off. k * desc_size (ai_element_desc st) + off + ARRAY_HEADER_SIZE)
          (yielded_at 0 (ai_element_desc st))) [ai_current st + 1..<ai_len st]))"

lemma iter_offsets_ptrs [simp]: "iter_offsets (iter_ptrs d) = yielded_at 0 d"
  by (simp flip: iter_all_offsets add: iter_all_ptrs)

lemma array_next_left:
  "array_next st = (r, st') \<Longrightarrow>
   offsets_left (ArrayIterator st) =
     (case r of None \<Rightarrow> [] | Some x \<Rightarrow> x # offsets_left (ArrayIterator st'))"
proof (induction st arbitrary: r st' rule: array_next.induct)
  case (1 st)
  show ?case
  proof (cases "ai_len st \<le> ai_current st")
    case True
    with 1(2) show ?thesis by (auto simp: array_next.simps[of st])
  next
    case False
    obtain o' it where it: "iter_next (ai_current_iter st) = (o', it)"
      by (cases "iter_next (ai_current_iter st)")
    note offs = iter_next_offsets[OF it]
    show ?thesis
    proof (cases o')
      case (Some off)
      with 1(2) False it offs show ?thesis by (auto simp: array_next.simps[of st])
    next
      case None
      define st1 where "st1 = st\<lparr>ai_current := ai_current st + 1,
        ai_current_iter := iter_ptrs (ai_element_desc st)\<rparr>"
      have "array_next st1 = (r, st')"
        using 1(2) False it None by (simp add: array_next.simps[of st] st1_def)
      with 1(1)[OF False it[symmetric] None] have
        "offsets_left (ArrayIterator st1) =
          (case r of None \<Rightarrow> [] | Some x \<Rightarrow> x # offsets_left (ArrayIterator st'))"
        by (simp add: st1_def)
      moreover have "offsets_left (ArrayIterator st) = offsets_left (ArrayIterator st1)"
        using False offs None by (auto simp: st1_def upt_conv_Cons)
      ultimately show ?thesis by (simp del: offsets_left.simps)
    qed
  qed
qed

lemma offset_next_left:
  "offset_next it = (r, it') \<Longrightarrow>
   offsets_left it = (case r of None \<Rightarrow> [] | Some x \<Rightarrow> x # offsets_left it')"
  by (cases it)
    (auto simp: upt_conv_Cons simp del: offsets_left.simps(3) split: prod.splits if_splits option.splits
      dest!: iter_next_offsets array_next_left)

function offsets_all :: "pointer_iterator_data \<Rightarrow> nat list" where
  "offsets_all it = (case offset_next it of (None, _) \<Rightarrow> [] | (Some x, it') \<Rightarrow> x # offsets_all it')"
  by pat_completeness auto
termination
  by (relation "measure (\<lambda>it. length (offsets_left it))") (auto dest!: offset_next_left[OF sym])

declare offsets_all.simps [simp del]

lemma offsets_all_left: "offsets_all it = offsets_left it"
proof (induction it rule: offsets_all.induct)
  case (1 it)
  obtain r it' where n: "offset_next it = (r, it')" by (cases "offset_next it")
  with 1[OF n[symmetric]] offset_next_left[OF n] show ?case
    by (subst offsets_all.simps) (auto split: option.splits)
qed

text \<open>\<open>TypeInfo::iter_pointers\<close> run to its end: the addresses of the pointer fields of \<open>obj\<close>.\<close>

definition info_iter_pointers :: "memory \<Rightarrow> type_info \<Rightarrow> object_ptr \<Rightarrow> nat list" where
  "info_iter_pointers m info obj =
     map (\<lambda>x. object_data obj + x) (offsets_all (from_type_info m info obj))"

section \<open>The \<open>TypeManager\<close> implementation\<close>

definition types_assume_all_dead :: "types_state \<Rightarrow> types_state" where
  "types_assume_all_dead ts =
     ts\<lparr>dynamic_types := (\<lambda>ty. map_option (\<lambda>e. e\<lparr>marked_dead := True\<rparr>) (dynamic_types ts ty))\<rparr>"

definition types_set_alive :: "types_state \<Rightarrow> 64 word \<Rightarrow> types_state \<times> bool" where
  "types_set_alive ts type_id =
     (case dynamic_types ts type_id of
        None \<Rightarrow> (ts, False)
      | Some e \<Rightarrow>
          (ts\<lparr>dynamic_types := (dynamic_types ts)(type_id \<mapsto> e\<lparr>marked_dead := False\<rparr>)\<rparr>, True))"

definition types_wipe_deads :: "types_state \<Rightarrow> types_state" where
  "types_wipe_deads ts =
     ts\<lparr>dynamic_types :=
       (\<lambda>ty. case dynamic_types ts ty of
          None \<Rightarrow> None
        | Some e \<Rightarrow> if marked_dead e then None else Some e)\<rparr>"

definition types_static_size :: "static_memory \<Rightarrow> types_state \<Rightarrow> 64 word \<Rightarrow> nat option res" where
  "types_static_size statics ts type_id =
     bind_res (get_type statics ts type_id) (\<lambda>info. Inr (map_option info_static_size info))"

definition types_dynamic_size ::
    "static_memory \<Rightarrow> types_state \<Rightarrow> memory \<Rightarrow> 64 word \<Rightarrow> object_ptr \<Rightarrow> nat option res" where
  "types_dynamic_size statics ts m type_id obj =
     bind_res (get_type statics ts type_id) (\<lambda>info.
       Inr (map_option (\<lambda>x. info_dynamic_size m x obj) info))"

definition types_iterate_gc_pointers ::
    "static_memory \<Rightarrow> types_state \<Rightarrow> memory \<Rightarrow> 64 word \<Rightarrow> object_ptr \<Rightarrow> object_ptr list option res" where
  "types_iterate_gc_pointers statics ts m type_id obj =
     bind_res (get_type statics ts type_id) (\<lambda>info.
       case info of
         None \<Rightarrow> Inr None
       | Some type_info \<Rightarrow>
           bind_res (visit_fields m (info_iter_pointers m type_info obj)) (\<lambda>vs. Inr (Some vs)))"

definition types_update_gc_pointers ::
    "static_memory \<Rightarrow> types_state \<Rightarrow> memory \<Rightarrow> 64 word \<Rightarrow> object_ptr
     \<Rightarrow> (object_ptr \<Rightarrow> object_ptr res) \<Rightarrow> memory option res" where
  "types_update_gc_pointers statics ts m type_id obj updater =
     bind_res (get_type statics ts type_id) (\<lambda>info.
       case info of
         None \<Rightarrow> Inr None
       | Some type_info \<Rightarrow>
           bind_res (update_fields m (info_iter_pointers m type_info obj) updater)
             (\<lambda>m'. Inr (Some m')))"

definition types_ops :: "static_memory \<Rightarrow> types_state type_manager_ops" where
  "types_ops statics =
     \<lparr>tm_assume_all_dead = types_assume_all_dead,
      tm_set_alive = types_set_alive,
      tm_wipe_deads = types_wipe_deads,
      tm_iterate = types_iterate_gc_pointers statics,
      tm_update = types_update_gc_pointers statics,
      tm_static_size = types_static_size statics,
      tm_dynamic_size = types_dynamic_size statics\<rparr>"

lemma types_ops_simps [simp]:
  "tm_assume_all_dead (types_ops statics) = types_assume_all_dead"
  "tm_set_alive (types_ops statics) = types_set_alive"
  "tm_wipe_deads (types_ops statics) = types_wipe_deads"
  "tm_iterate (types_ops statics) = types_iterate_gc_pointers statics"
  "tm_update (types_ops statics) = types_update_gc_pointers statics"
  "tm_static_size (types_ops statics) = types_static_size statics"
  "tm_dynamic_size (types_ops statics) = types_dynamic_size statics"
  by (simp_all add: types_ops_def)

section \<open>Ids with a sane layout\<close>

definition offsets_fit :: "nat list \<Rightarrow> nat \<Rightarrow> bool" where
  "offsets_fit offs n \<longleftrightarrow> (\<forall>off \<in> set offs. off + 8 \<le> n \<and> 8 dvd off) \<and> distinct offs"

definition descriptor_ok :: "descriptor \<Rightarrow> bool" where
  "descriptor_ok d \<longleftrightarrow>
     offsets_fit (yielded_at 0 d) (desc_size d) \<and> (desc_is_array d \<longrightarrow> 8 dvd desc_size d)"

fun info_ok :: "type_info \<Rightarrow> bool" where
  "info_ok (StaticallyKnown d) = descriptor_ok d"
| "info_ok (DynamicallyKnown d) = descriptor_ok d"
| "info_ok (RefArray len) = (len \<le> 1)"

definition sane_type :: "static_memory \<Rightarrow> types_state \<Rightarrow> 64 word \<Rightarrow> bool" where
  "sane_type statics ts ty \<longleftrightarrow> (\<exists>info. get_type statics ts ty = Inr (Some info) \<and> info_ok info)"

definition types_offsets :: "static_memory \<Rightarrow> types_state \<Rightarrow> memory \<Rightarrow> 64 word \<Rightarrow> object_ptr \<Rightarrow> nat list" where
  "types_offsets statics ts m ty obj =
     (case get_type statics ts ty of
        Inr (Some info) \<Rightarrow> offsets_left (from_type_info m info obj)
      | _ \<Rightarrow> [])"

lemma descriptor_offsets:
  "offsets_left (from_descriptor m obj d) =
     (if desc_is_array d then
        concat (map (\<lambda>k. map (\<lambda>off. k * desc_size d + off + ARRAY_HEADER_SIZE) (yielded_at 0 d))
          [0..<array_len m obj])
      else yielded_at 0 d)"
  by (auto simp: from_descriptor_def upt_conv_Cons)

lemma array_offset_fits:
  assumes "k < len" "off + 8 \<le> (sz :: nat)"
  shows "k * sz + off + 8 \<le> sz * len"
proof -
  have "(k + 1) * sz \<le> len * sz" using assms(1) by (intro mult_le_mono1) simp
  with assms(2) show ?thesis by (simp add: algebra_simps)
qed

lemma array_offsets_distinct:
  assumes "distinct offs" "\<forall>off \<in> set offs. off + 8 \<le> (sz :: nat)"
  shows "distinct (concat (map (\<lambda>k. map (\<lambda>off. k * sz + off + h) offs) [0..<len]))"
proof (induction len)
  case (Suc len)
  have "k * sz + x + h \<noteq> len * sz + y + h" if "k < len" "x \<in> set offs" "y \<in> set offs" for k x y
  proof -
    have "(k + 1) * sz \<le> len * sz" using that(1) by (intro mult_le_mono1) simp
    moreover have "x < sz" using assms(2) that(2) by fastforce
    ultimately show ?thesis by (simp add: algebra_simps)
  qed
  with Suc assms(1) show ?case by (auto simp: distinct_map inj_on_def) metis
qed simp

lemma descriptor_offsets_fit:
  assumes "descriptor_ok d"
  shows "offsets_fit (offsets_left (from_descriptor m obj d))
    (if desc_is_array d then ARRAY_HEADER_SIZE + desc_size d * array_len m obj else desc_size d)"
proof (cases "desc_is_array d")
  case True
  have "k * desc_size d + off + ARRAY_HEADER_SIZE + 8 \<le> ARRAY_HEADER_SIZE + desc_size d * array_len m obj
      \<and> 8 dvd k * desc_size d + off + ARRAY_HEADER_SIZE"
    if "k < array_len m obj" "off \<in> set (yielded_at 0 d)" for k off
    using assms that True array_offset_fits[of k "array_len m obj" off "desc_size d"]
    by (auto simp: descriptor_ok_def offsets_fit_def ARRAY_HEADER_SIZE_def)
  moreover have "distinct (offsets_left (from_descriptor m obj d))"
    using True assms array_offsets_distinct[of "yielded_at 0 d" "desc_size d"]
    by (auto simp: descriptor_offsets descriptor_ok_def offsets_fit_def)
  ultimately show ?thesis using True by (auto simp: descriptor_offsets offsets_fit_def)
next
  case False
  with assms show ?thesis by (simp add: descriptor_offsets descriptor_ok_def)
qed

lemma info_offsets_fit:
  assumes "info_ok info"
  shows "offsets_fit (offsets_left (from_type_info m info obj)) (info_dynamic_size m info obj)"
proof (cases info)
  case (RefArray len)
  then show ?thesis
    using assms by (cases len) (auto simp: offsets_fit_def POINTER_SIZE_def)
next
  case (StaticallyKnown d)
  then show ?thesis using assms descriptor_offsets_fit[of d m obj]
    by (cases "desc_is_array d") simp_all
next
  case (DynamicallyKnown d)
  then show ?thesis using assms descriptor_offsets_fit[of d m obj]
    by (cases "desc_is_array d") simp_all
qed

lemma info_frame:
  assumes "\<And>i. i < info_dynamic_size m info obj \<Longrightarrow> 8 dvd i \<Longrightarrow>
      i \<notin> set (offsets_left (from_type_info m info obj)) \<Longrightarrow> m' (object_data obj' + i) = m (object_data obj + i)"
  shows "info_dynamic_size m' info obj' = info_dynamic_size m info obj"
    "offsets_left (from_type_info m' info obj') = offsets_left (from_type_info m info obj)"
proof -
  have len: "array_len m' obj' = array_len m obj"
    if "info = StaticallyKnown d \<or> info = DynamicallyKnown d" "desc_is_array d" for d
  proof -
    have "offsets_left (from_type_info m info obj) = offsets_left (from_descriptor m obj d)"
      "0 < info_dynamic_size m info obj"
      using that by (auto simp: ARRAY_HEADER_SIZE_def)
    moreover have "0 \<notin> set (offsets_left (from_descriptor m obj d))"
      using that(2) by (auto simp: descriptor_offsets ARRAY_HEADER_SIZE_def)
    ultimately show ?thesis using assms[of 0] by (simp add: array_len_def)
  qed
  show "info_dynamic_size m' info obj' = info_dynamic_size m info obj"
    by (cases info) (use len in auto)
  have "offsets_left (from_descriptor m' obj' d) = offsets_left (from_descriptor m obj d)"
    if "info = StaticallyKnown d \<or> info = DynamicallyKnown d" for d
    using len[OF that] by (cases "desc_is_array d") (simp_all add: descriptor_offsets)
  then show "offsets_left (from_type_info m' info obj') = offsets_left (from_type_info m info obj)"
    by (cases info) simp_all
qed

interpretation types: field_layout "types_ops statics" ts "types_offsets statics ts" "sane_type statics ts"
  for statics ts
proof unfold_locales
  fix ty m obj f
  assume "sane_type statics ts ty"
  then show "tm_iterate (types_ops statics) ts m ty obj =
      bind_res (visit_fields m (map (\<lambda>off. object_data obj + off) (types_offsets statics ts m ty obj)))
        (\<lambda>vs. Inr (Some vs))"
    and "tm_update (types_ops statics) ts m ty obj f =
      bind_res (update_fields m (map (\<lambda>off. object_data obj + off) (types_offsets statics ts m ty obj)) f)
        (\<lambda>m'. Inr (Some m'))"
    by (auto simp: sane_type_def types_iterate_gc_pointers_def types_update_gc_pointers_def
        types_offsets_def info_iter_pointers_def offsets_all_left)
next
  fix ty m obj
  assume "sane_type statics ts ty"
  then obtain info where "get_type statics ts ty = Inr (Some info)" "info_ok info"
    by (auto simp: sane_type_def)
  then show "\<exists>n. tm_dynamic_size (types_ops statics) ts m ty obj = Inr (Some n) \<and>
      (\<forall>off \<in> set (types_offsets statics ts m ty obj). off + 8 \<le> n \<and> 8 dvd off) \<and>
      distinct (types_offsets statics ts m ty obj)"
    using info_offsets_fit[of info m obj]
    by (auto simp: types_dynamic_size_def types_offsets_def offsets_fit_def)
next
  fix ty m obj n m' obj'
  assume "sane_type statics ts ty" "tm_dynamic_size (types_ops statics) ts m ty obj = Inr (Some n)"
    "\<And>i. i < n \<Longrightarrow> 8 dvd i \<Longrightarrow> i \<notin> set (types_offsets statics ts m ty obj) \<Longrightarrow>
      m' (object_data obj' + i) = m (object_data obj + i)"
  then show "tm_dynamic_size (types_ops statics) ts m' ty obj' = Inr (Some n) \<and>
      types_offsets statics ts m' ty obj' = types_offsets statics ts m ty obj"
    using info_frame[of m _ obj m' obj']
    by (auto simp: sane_type_def types_dynamic_size_def types_offsets_def)
qed

section \<open>Registration and aliveness\<close>

fun register_all :: "types_state \<Rightarrow> descriptor cow list \<Rightarrow> (types_state \<times> 64 word list) res" where
  "register_all ts [] = Inr (ts, [])"
| "register_all ts (d # ds) =
     bind_res (types_register ts d) (\<lambda>(ts, ty).
     bind_res (register_all ts ds) (\<lambda>(ts, tys). Inr (ts, ty # tys)))"

text \<open>After the registration of \<open>ds\<close>, in order, and of nothing else.\<close>

definition registered :: "types_state \<Rightarrow> descriptor cow list \<Rightarrow> bool" where
  "registered ts ds \<longleftrightarrow>
     latest_id ts = word_of_nat (length ds) \<and>
     (\<forall>w. dynamic_types ts w =
        (if unat w < length ds then Some \<lparr>marked_dead = True, entry_descriptor = ds ! unat w\<rparr> else None))"

lemma registered_new: "registered types_new []"
  by (simp add: registered_def types_new_def)

lemma register_next:
  assumes "registered ts ds" "length ds < 2 ^ 64 - 1"
  shows "\<exists>ts'. types_register ts d = Inr (ts', word_of_nat (length ds)) \<and> registered ts' (ds @ [d])"
proof -
  let ?n = "length ds"
  have u: "unat (word_of_nat ?n :: 64 word) = ?n" using assms(2) by (simp add: unat_of_nat)
  have ne: "word_of_nat ?n \<noteq> (- 1 :: 64 word)"
  proof
    assume "word_of_nat ?n = (- 1 :: 64 word)"
    then have "?n = unat (- 1 :: 64 word)" using u by metis
    with assms(2) show False by (simp add: unsigned_minus_1_eq_mask mask_eq_exp_minus_1)
  qed
  let ?ts = "ts\<lparr>latest_id := latest_id ts + 1, dynamic_types := (dynamic_types ts)(latest_id ts \<mapsto>
    \<lparr>marked_dead = True, entry_descriptor = d\<rparr>)\<rparr>"
  have "types_register ts d = Inr (?ts, word_of_nat ?n)"
    using assms(1) u ne by (simp add: types_register_def registered_def Let_def)
  moreover have "registered ?ts (ds @ [d])"
    unfolding registered_def
  proof (intro conjI allI)
    show "latest_id ?ts = word_of_nat (length (ds @ [d]))" using assms(1) by (simp add: registered_def)
    fix w :: "64 word"
    have "w = word_of_nat ?n \<longleftrightarrow> unat w = ?n" using u by (simp add: word_unat_eq_iff)
    then show "dynamic_types ?ts w = (if unat w < length (ds @ [d])
        then Some \<lparr>marked_dead = True, entry_descriptor = (ds @ [d]) ! unat w\<rparr> else None)"
      using assms(1) by (auto simp: registered_def nth_append)
  qed
  ultimately show ?thesis by blast
qed

lemma register_all_from:
  assumes "registered ts ds0" "length ds0 + length ds < 2 ^ 64"
  shows "\<exists>ts'. register_all ts ds =
      Inr (ts', map word_of_nat [length ds0..<length ds0 + length ds]) \<and> registered ts' (ds0 @ ds)"
  using assms
proof (induction ds arbitrary: ts ds0)
  case (Cons d ds)
  then obtain ts1 where ts1: "types_register ts d = Inr (ts1, word_of_nat (length ds0))"
    "registered ts1 (ds0 @ [d])" using register_next[of ts ds0 d] by auto
  moreover obtain ts2 where "register_all ts1 ds =
      Inr (ts2, map word_of_nat [Suc (length ds0)..<length ds0 + length (d # ds)])" "registered ts2 (ds0 @ d # ds)"
    using Cons.IH[OF ts1(2)] Cons.prems(2) by auto
  moreover have "[length ds0..<length ds0 + length (d # ds)] =
      length ds0 # [Suc (length ds0)..<length ds0 + length (d # ds)]" by (rule upt_conv_Cons) simp
  ultimately show ?case by (simp del: upt_Suc)
qed simp

lemma low_bits: "w AND TYPE_TYPE_MASK = word_of_nat (unat w mod 4)" for w :: "64 word"
proof -
  have "w AND TYPE_TYPE_MASK = take_bit 2 w" by (simp add: TYPE_TYPE_MASK_def take_bit_eq_mask mask_eq_exp_minus_1)
  then have "w AND TYPE_TYPE_MASK = w mod 4" by (simp add: take_bit_eq_mod)
  also have "\<dots> = word_of_nat (unat (w mod 4))" by simp
  also have "unat (w mod 4) = unat w mod 4" by (simp add: unat_mod)
  finally show ?thesis .
qed

definition set_alive_all :: "types_state \<Rightarrow> 64 word list \<Rightarrow> types_state" where
  "set_alive_all ts tys = foldl (\<lambda>ts ty. fst (types_set_alive ts ty)) ts tys"

lemma set_alive_entry:
  "dynamic_types (fst (types_set_alive ts ty)) w =
     (if w = ty then map_option (\<lambda>e. e\<lparr>marked_dead := False\<rparr>) (dynamic_types ts w) else dynamic_types ts w)"
  by (auto simp: types_set_alive_def split: option.splits)

lemma set_alive_all_entry:
  "dynamic_types (set_alive_all ts tys) w =
     (if w \<in> set tys then map_option (\<lambda>e. e\<lparr>marked_dead := False\<rparr>) (dynamic_types ts w)
      else dynamic_types ts w)"
proof (induction tys arbitrary: ts)
  case Nil
  then show ?case by (simp add: set_alive_all_def)
next
  case (Cons ty tys)
  have "set_alive_all ts (ty # tys) = set_alive_all (fst (types_set_alive ts ty)) tys"
    by (simp add: set_alive_all_def)
  with Cons show ?case by (auto simp: set_alive_entry option.map_comp o_def)
qed

section \<open>Properties\<close>

text \<open>A static descriptor for the witnesses, at address 0x1000: 16 bytes, one pointer at 0.\<close>

definition sample_statics :: static_memory where
  "sample_statics = [4096 \<mapsto> descriptor_new (Borrowed [0]) 16,
     8192 \<mapsto> Descriptor (Borrowed [0]) [] 16 True]"

text \<open>
  C35: The pointer iteration of arrays whose elements have their pointers at most one struct deep
  (\<open>one_level\<close>; \<open>ArrayIterator\<close> is a loop that skips exhausted elements) ends and visits, for every
  element index below the length stored in the object, the element's pointer fields behind the 8-byte
  array header, in order. For elements with pointers deeper than that it is false: the iterator of one
  element then yields wrong offsets (\<open>pointer_iter_forgets_base\<close>).
\<close>

theorem array_pointers_correct:
  assumes "desc_is_array d" "one_level d"
  shows "info_iter_pointers m (StaticallyKnown d) obj =
    concat (map (\<lambda>k. map (\<lambda>off. object_data obj + (8 + k * desc_size d + off)) (pointer_offsets_at 0 d))
      [0..<unat (m (object_data obj))])"
  using assms
  by (simp add: info_iter_pointers_def offsets_all_left descriptor_offsets yielded_one_level array_len_def
      map_concat o_def ARRAY_HEADER_SIZE_def add.assoc add.commute add.left_commute)

theorem array_pointers_correct_witness:
  "info_iter_pointers (\<lambda>_. 2) (StaticallyKnown (Descriptor (Borrowed [0, 8]) [] 24 True)) 32 =
    [56, 64, 80, 88]"
  by (subst array_pointers_correct)
    (simp_all add: one_level_def object_data_def METADATA_SIZE_def upt_rec)

text \<open>
  An inline array of two or more references cannot be traversed: the iterator yields the
  element indices as byte offsets, so the second pointer is read from a misaligned address.
\<close>

theorem ref_array_misaligned:
  assumes "ty AND TYPE_TYPE_MASK = 1" "2 \<le> unat (drop_bit TYPE_PAYLOAD_SHIFT ty)" "8 dvd obj"
  shows "types_iterate_gc_pointers statics ts m ty obj = Inl Undefined_Behavior"
proof -
  let ?len = "unat (drop_bit TYPE_PAYLOAD_SHIFT ty)"
  have "[0..<?len] = 0 # 1 # [2..<?len]" using assms(2) by (simp add: upt_conv_Cons numeral_2_eq_2)
  moreover have "\<not> 8 dvd obj + 16 + 1" using assms(3) by presburger
  moreover have "8 dvd obj + 16" using assms(3) by simp
  ultimately show ?thesis
    using assms(1)
    by (simp add: types_iterate_gc_pointers_def get_type_def info_iter_pointers_def offsets_all_left
        load_pointer_def object_data_def METADATA_SIZE_def)
qed

theorem ref_array_misaligned_witness:
  "types_iterate_gc_pointers Map.empty types_new (\<lambda>_. 0) 13 64 = Inl Undefined_Behavior"
  by (rule ref_array_misaligned) (simp_all add: TYPE_TYPE_MASK_def TYPE_PAYLOAD_SHIFT_def)

text \<open>
  Dynamic registration hands out the plain counter as the type id, without the tag \<open>0b10\<close> that
  \<open>get_type\<close> looks for: registering \<open>ds\<close> gives the ids 0, 1, 2, and so on, and looking such an id
  up finds the registered descriptor exactly for every fourth one. (For the first, the null id, the
  lookup panics.)
\<close>

theorem registered_ids_untagged:
  assumes "length ds < 2 ^ 64"
  shows "\<exists>ts. register_all types_new ds = Inr (ts, map word_of_nat [0..<length ds]) \<and>
    get_type statics types_new 0 = Inl Unwrap_None \<and>
    (\<forall>k < length ds. get_type statics ts (word_of_nat k) =
       Inr (Some (DynamicallyKnown (cow_get (ds ! k)))) \<longleftrightarrow> k mod 4 = 2)"
proof -
  obtain ts where ts: "register_all types_new ds = Inr (ts, map word_of_nat [0..<length ds])"
    "registered ts ds" using register_all_from[OF registered_new, of ds] assms by auto
  have "get_type statics ts (word_of_nat k) = Inr (Some (DynamicallyKnown (cow_get (ds ! k)))) \<longleftrightarrow> k mod 4 = 2"
    if k: "k < length ds" for k
  proof -
    have u: "unat (word_of_nat k :: 64 word) = k" using k assms by (simp add: unat_of_nat)
    have mask: "word_of_nat k AND TYPE_TYPE_MASK = (word_of_nat (k mod 4) :: 64 word)"
      by (simp only: low_bits u)
    consider "k mod 4 = 0" | "k mod 4 = 1" | "k mod 4 = 2" | "k mod 4 = 3" by linarith
    then show ?thesis
      by cases (use mask u k ts(2) in \<open>auto simp: get_type_def registered_def Let_def split: option.splits if_splits\<close>)
  qed
  moreover have "get_type statics types_new 0 = Inl Unwrap_None" by (simp add: get_type_def)
  ultimately show ?thesis using ts(1) by blast
qed

theorem registered_ids_untagged_witness:
  "\<exists>ts. register_all types_new [Borrowed (descriptor_new (Borrowed [0]) 8)] = Inr (ts, [0]) \<and>
    get_type sample_statics ts 0 \<noteq> Inr (Some (DynamicallyKnown (descriptor_new (Borrowed [0]) 8)))"
  using registered_ids_untagged[of "[Borrowed (descriptor_new (Borrowed [0]) 8)]" sample_statics] by auto

text \<open>
  C36: Of the dynamically registered types, exactly those survive a collection whose id was
  \<open>set_alive\<close> between \<open>assume_all_dead\<close> and \<open>wipe_deads\<close>, each with its descriptor unchanged. A
  collection that never calls \<open>set_alive\<close>, as the marker, wipes all of them.
\<close>

theorem wipe_keeps_alive_types:
  "map_option entry_descriptor
     (dynamic_types (types_wipe_deads (set_alive_all (types_assume_all_dead ts) tys)) ty) =
   (if ty \<in> set tys then map_option entry_descriptor (dynamic_types ts ty) else None) \<and>
   dynamic_types (types_wipe_deads (types_assume_all_dead ts)) = Map.empty"
  by (auto simp: types_wipe_deads_def set_alive_all_entry types_assume_all_dead_def
      option.map_comp o_def fun_eq_iff split: option.splits)

end
