(* ===== verification/Collection.thy ===== *)
theory Collection
  imports Types
begin

text \<open>
  The collector run with the high-level type manager: when a heap is ready for marking
  (\<open>mark_ready\<close>) and for a whole cycle (\<open>gc_ready\<close>), and the lemmas that carry the marker's result to
  the copier and the copier's result to the next cycle. The step \<open>wipe_deads\<close> between them removes
  every dynamic type, so a cycle is shown correct for heaps whose types last: the static ones and
  the inline arrays of references.
\<close>

section \<open>Marking\<close>

abbreviation live :: "static_memory \<Rightarrow> types_state \<Rightarrow> memory \<Rightarrow> object_ptr list list \<Rightarrow> object_ptr \<Rightarrow> bool" where
  "live statics ts m roots obj \<equiv> reaches (types_ops statics) ts m (concat roots) obj"

text \<open>What the marker is started with, and the conditions under which it is shown correct.\<close>

definition mark_ready ::
    "static_memory \<Rightarrow> types_state \<Rightarrow> memory \<Rightarrow> object_ptr set \<Rightarrow> object_ptr list list \<Rightarrow> page_table
     \<Rightarrow> heap_info \<Rightarrow> bit2 \<Rightarrow> bool" where
  "mark_ready statics ts m objs roots pt hi t \<longleftrightarrow>
     heap_wf (types_ops statics) ts (sane_type statics ts) m objs \<and>
     (\<forall>x \<in> objs. hi_start hi \<le> x \<and> \<not> obj_marked t m x) \<and> set (concat roots) \<subseteq> objs \<and>
     space_ok pt \<and> base_addr pt = hi_to_space hi \<and> hi_start hi \<le> hi_used_end hi \<and>
     (\<Sum>obj \<in> {obj. live statics ts m roots obj}. alloc_need (obj_size (types_ops statics) ts m obj))
       \<le> fresh_room (pt_nr_pages pt)"

lemma mark_ready_room:
  assumes "mark_ready statics ts m objs roots pt hi t"
  obtains order st where
    "marker_start (types_ops statics) ts m marker_new roots pt builder_new hi t = Some (Inr st)"
    "mark_inv (types_ops statics) ts m objs hi t builder_new (concat roots) order st" "ms_stack st = []"
    "fst ` set order = {obj. live statics ts m roots obj}"
    "fresh_room (pt_nr_pages pt) \<le> ctx_room (ms_alloc st) +
      (\<Sum>obj \<in> {obj. live statics ts m roots obj}. alloc_need (obj_size (types_ops statics) ts m obj))"
  by (rule types.marker_start_total[of statics ts m objs hi roots t pt marker_new builder_new])
    (use assms in \<open>auto simp: mark_ready_def marker_new_def intro: that\<close>)

lemma mark_ready_total:
  assumes "mark_ready statics ts m objs roots pt hi t"
  obtains order st where
    "marker_start (types_ops statics) ts m marker_new roots pt builder_new hi t = Some (Inr st)"
    "mark_inv (types_ops statics) ts m objs hi t builder_new (concat roots) order st" "ms_stack st = []"
    "fst ` set order = {obj. live statics ts m roots obj}"
  using assms by (rule mark_ready_room)

text \<open>The marker leaves the shape of the other space alone.\<close>

lemma alloc_page_nr: "alloc_page pt kind = Inr (pt', r) \<Longrightarrow> pt_nr_pages pt' = pt_nr_pages pt"
  by (auto simp: alloc_page_def res_eq_simps Let_def split: if_splits)

lemma alloc_in_page_nr: "alloc_in_page pt i n = Inr (pt', r) \<Longrightarrow> pt_nr_pages pt' = pt_nr_pages pt"
  by (auto simp: alloc_in_page_def elim!: bind_res_InrE split: prod.splits)

lemma new_medium_buffer_nr: "new_medium_buffer pt = Inr (pt', r) \<Longrightarrow> pt_nr_pages pt' = pt_nr_pages pt"
  by (auto simp: new_medium_buffer_def res_eq_simps split: option.splits dest!: alloc_page_nr)

lemma new_local_buffer_nr:
  "new_local_buffer (ctx, pt) = Inr ((ctx', pt'), r) \<Longrightarrow> pt_nr_pages pt' = pt_nr_pages pt"
  by (auto simp: new_local_buffer_def res_eq_simps split: option.splits dest!: alloc_page_nr)

lemmas nr_intros = alloc_page_nr alloc_in_page_nr new_medium_buffer_nr new_local_buffer_nr

lemma pt_alloc_nr: "pt_alloc pt n = Inr (pt', r) \<Longrightarrow> pt_nr_pages pt' = pt_nr_pages pt"
  unfolding pt_alloc_def
  by (fastforce simp: res_eq_simps split: if_splits option.splits dest: nr_intros)

lemma alloc_nr_pages:
  "alloc_from_page_table (ctx, pt) n = Inr ((ctx', pt'), r) \<Longrightarrow> pt_nr_pages pt' = pt_nr_pages pt"
  unfolding alloc_from_page_table_def
  by (fastforce simp: res_eq_simps split: if_splits option.splits dest: nr_intros pt_alloc_nr)

lemma mark_one_nr_pages:
  assumes "mark_one ops tm hi t obj st = Inr st'"
  shows "pt_nr_pages (snd (ms_alloc st')) = pt_nr_pages (snd (ms_alloc st))"
proof -
  obtain m ret where m: "object_try_update (ms_memory st) obj (set_mark t) = Inr (m, ret)"
    using assms unfolding mark_one_def by (auto elim!: bind_res_InrE)
  show ?thesis
  proof (cases ret)
    case (Inl old)
    with assms m show ?thesis by (auto simp: mark_one_def)
  next
    case (Inr old)
    with assms m obtain sz ctx' pt' r where al: "alloc_from_page_table (ms_alloc st) sz = Inr ((ctx', pt'), r)"
      "ms_alloc st' = (ctx', pt')"
      by (auto simp: mark_one_def Let_def elim!: bind_res_InrE split: prod.splits)
    then show ?thesis using alloc_nr_pages by (cases "ms_alloc st") auto
  qed
qed

lemma mark_loop_nr_pages:
  assumes "mark_loop ops tm hi t st = Some r"
  shows "\<forall>st'. r = Inr st' \<longrightarrow> pt_nr_pages (snd (ms_alloc st')) = pt_nr_pages (snd (ms_alloc st))"
proof (rule mark_loop.raw_induct[OF _ assms], intro allI impI)
  fix loop ops tm hi t st r st'
  assume IH: "\<And>ops tm hi t st r. loop ops tm hi t st = Some r \<Longrightarrow>
      \<forall>st'. r = Inr st' \<longrightarrow> pt_nr_pages (snd (ms_alloc st')) = pt_nr_pages (snd (ms_alloc st))"
    and run: "(case ms_stack st of [] \<Rightarrow> Some (Inr st)
      | obj # rest \<Rightarrow> case mark_one ops tm hi t obj (st\<lparr>ms_stack := rest\<rparr>) of
          Inl e \<Rightarrow> Some (Inl e) | Inr st' \<Rightarrow> loop ops tm hi t st') = Some r"
    and r: "r = Inr st'"
  show "pt_nr_pages (snd (ms_alloc st')) = pt_nr_pages (snd (ms_alloc st))"
  proof (cases "ms_stack st")
    case Nil
    with run r show ?thesis by simp
  next
    case (Cons obj rest)
    with run r obtain st1 where "mark_one ops tm hi t obj (st\<lparr>ms_stack := rest\<rparr>) = Inr st1"
      "loop ops tm hi t st1 = Some (Inr st')" by (auto split: sum.splits)
    with IH mark_one_nr_pages show ?thesis by fastforce
  qed
qed

lemma mark_roots_nr_pages:
  "mark_roots ops tm hi t roots st = Some (Inr st') \<Longrightarrow>
   pt_nr_pages (snd (ms_alloc st')) = pt_nr_pages (snd (ms_alloc st))"
  by (induction roots arbitrary: st)
    (fastforce split: option.splits sum.splits dest: mark_loop_nr_pages)+

lemma marker_start_nr_pages:
  "marker_start ops tm m mk roots pt registry hi t = Some (Inr st) \<Longrightarrow>
   pt_nr_pages (snd (ms_alloc st)) = pt_nr_pages pt"
  by (auto simp: marker_start_def res_eq_simps page_table_clear_def split: option.splits
      dest!: mark_roots_nr_pages)

section \<open>Types that last\<close>

text \<open>A type that is sane before anything has been registered needs no dynamic entry.\<close>

abbreviation lasting :: "static_memory \<Rightarrow> 64 word \<Rightarrow> bool" where
  "lasting statics \<equiv> sane_type statics types_new"

abbreviation size_of :: "static_memory \<Rightarrow> memory \<Rightarrow> object_ptr \<Rightarrow> nat" where
  "size_of statics \<equiv> obj_size (types_ops statics) types_new"

abbreviation pointers_of :: "static_memory \<Rightarrow> memory \<Rightarrow> object_ptr \<Rightarrow> object_ptr list" where
  "pointers_of statics \<equiv> obj_pointers (types_ops statics) types_new"

abbreviation fields_of :: "static_memory \<Rightarrow> memory \<Rightarrow> object_ptr \<Rightarrow> nat list" where
  "fields_of statics \<equiv> field_addrs (types_offsets statics types_new)"

lemma lasting_get_type:
  assumes "lasting statics ty"
  shows "get_type statics ts ty = get_type statics types_new ty"
proof -
  have "\<not> (ty AND TYPE_TYPE_MASK \<noteq> 0 \<and> ty AND TYPE_TYPE_MASK \<noteq> 1 \<and> ty AND TYPE_TYPE_MASK = 2)"
  proof
    assume "ty AND TYPE_TYPE_MASK \<noteq> 0 \<and> ty AND TYPE_TYPE_MASK \<noteq> 1 \<and> ty AND TYPE_TYPE_MASK = 2"
    then have "get_type statics types_new ty = Inr None" by (simp add: get_type_def types_new_def)
    with assms show False by (simp add: sane_type_def)
  qed
  then show ?thesis by (auto simp: get_type_def Let_def)
qed

lemma lasting_sane: "lasting statics ty \<Longrightarrow> sane_type statics ts ty"
  using lasting_get_type[of statics ty ts] by (simp add: sane_type_def)

lemma lasting_object:
  assumes "object_wf (lasting statics) m obj"
  shows "object_wf (sane_type statics ts) m obj"
    "obj_size (types_ops statics) ts m obj = size_of statics m obj"
    "obj_pointers (types_ops statics) ts m obj = pointers_of statics m obj"
    "field_addrs (types_offsets statics ts) m obj = fields_of statics m obj"
proof -
  have ty: "lasting statics ty" if "obj_kind m obj = NotPlainOldData ty" for ty
    using assms that by (simp add: object_wf_def)
  show "object_wf (sane_type statics ts) m obj"
    using assms lasting_sane by (auto simp: object_wf_def split: metadata_enum.splits)
  show "obj_size (types_ops statics) ts m obj = size_of statics m obj"
    using lasting_get_type[OF ty, where ts = ts]
    by (cases "obj_kind m obj") (simp_all add: obj_size_def concrete_get_size_def object_metadata_eq types_dynamic_size_def)
  show "obj_pointers (types_ops statics) ts m obj = pointers_of statics m obj"
    using lasting_get_type[OF ty, where ts = ts]
    by (cases "obj_kind m obj")
      (simp_all add: obj_pointers_def concrete_iterate_gc_pointers_def object_metadata_eq types_iterate_gc_pointers_def)
  show "field_addrs (types_offsets statics ts) m obj = fields_of statics m obj"
    using lasting_get_type[OF ty, where ts = ts]
    by (cases "obj_kind m obj") (simp_all add: field_addrs_def types_offsets_def)
qed

text \<open>So a heap of such objects is the same heap for every state of the type manager.\<close>

abbreviation lasting_heap :: "static_memory \<Rightarrow> memory \<Rightarrow> object_ptr set \<Rightarrow> bool" where
  "lasting_heap statics m objs \<equiv> heap_wf (types_ops statics) types_new (lasting statics) m objs"

lemma lasting_heap_objects: "lasting_heap statics m objs \<Longrightarrow> obj \<in> objs \<Longrightarrow> object_wf (lasting statics) m obj"
  by (simp add: heap_wf_def)

lemma lasting_heap_wf:
  assumes "lasting_heap statics m objs"
  shows "heap_wf (types_ops statics) ts (sane_type statics ts) m objs"
  using assms lasting_object[OF lasting_heap_objects[OF assms], of _ ts] by (simp add: heap_wf_def)

lemma reaches_lasting:
  assumes wf: "lasting_heap statics m objs" and roots: "set roots \<subseteq> objs"
  shows "reaches (types_ops statics) ts m roots obj \<longleftrightarrow> reaches (types_ops statics) types_new m roots obj"
proof
  show "reaches (types_ops statics) types_new m roots obj" if "reaches (types_ops statics) ts m roots obj"
    using that
  proof induction
    case (step x p)
    have "x \<in> objs" using reaches_in_heap[OF lasting_heap_wf[OF wf] roots step.hyps(1)] .
    with step lasting_object(3)[OF lasting_heap_objects[OF wf], of x ts] show ?case by (auto intro: reaches.step)
  qed (rule reaches.root)
  show "reaches (types_ops statics) ts m roots obj" if "reaches (types_ops statics) types_new m roots obj"
    using that
  proof induction
    case (step x p)
    have "x \<in> objs" using reaches_in_heap[OF wf roots step.hyps(1)] .
    with step lasting_object(3)[OF lasting_heap_objects[OF wf], of x ts] show ?case by (auto intro: reaches.step)
  qed (rule reaches.root)
qed

section \<open>From the marker to the copier\<close>

lemma placed_cong:
  assumes "\<And>obj d. (obj, d) \<in> set order \<Longrightarrow> obj_size ops' tm' m' obj = obj_size ops tm m obj"
  shows "placed ops' tm' m' order = placed ops tm m order"
    "map (reloc_of ops' tm' m' hi) order = map (reloc_of ops tm m hi) order"
  using assms by (auto simp: placed_def reloc_of_def)

text \<open>
  The registry and the table that the marker leaves are what the copier relies on, whatever the
  states \<open>ts1\<close> and \<open>ts2\<close> of the type manager are during the two.
\<close>

lemma marker_to_copier:
  assumes wf: "lasting_heap statics m objs" and small: "small_heap (types_ops statics) types_new m objs"
    and space: "\<forall>obj \<in> objs. hi_start hi \<le> obj \<and> obj < 2 ^ 64 \<and>
      block obj (size_of statics m obj) \<inter> space_block (snd (ms_alloc st)) = {}"
    and inv: "mark_inv (types_ops statics) ts1 m objs hi t builder_new roots order st" "ms_stack st = []"
    and ca: "ca_registry ca = builder_freeze (ms_registry st)" "ca_page_table ca = snd (ms_alloc st)"
      "hl_to_space (ca_heap ca) = hi_to_space hi" "hl_start (ca_heap ca) = hi_start hi"
      "map_ptr (mm_mapping (ca_from_mm ca)) = hi_start hi"
      "ca_zero_page_start ca = get_used_end_page (ca_page_table ca)"
  shows "copy_ready (types_ops statics) ts2 (sane_type statics ts2) (ms_memory st) hi order ca"
proof -
  note i = mark_invD[OF inv(1)]
  note wf1 = lasting_heap_wf[OF wf, of ts1]
  have sub: "obj \<in> objs" if "(obj, d) \<in> set order" for obj d using i(4) that by force
  note o = lasting_heap_objects[OF wf sub]
  note v = types.variant_same[OF wf i(1) sub]
  have sz: "obj_size (types_ops statics) ts1 m obj = size_of statics m obj"
    "obj_size (types_ops statics) ts2 (ms_memory st) obj = size_of statics m obj"
    "obj_pointers (types_ops statics) ts1 m obj = pointers_of statics m obj"
    "obj_pointers (types_ops statics) ts2 (ms_memory st) obj = pointers_of statics m obj"
    "object_wf (sane_type statics ts2) (ms_memory st) obj"
    if "(obj, d) \<in> set order" for obj d
    using lasting_object(2,3)[OF o[OF that], of ts1] lasting_object(1-3)[OF v(1)[OF that], of ts2]
      v(2,3)[OF that] by simp_all
  have same: "placed (types_ops statics) ts2 (ms_memory st) order = placed (types_ops statics) ts1 m order"
    "map (reloc_of (types_ops statics) ts2 (ms_memory st) hi) order = map (reloc_of (types_ops statics) ts1 m hi) order"
    using placed_cong[of order "types_ops statics" ts2 "ms_memory st" "types_ops statics" ts1 m] sz(1,2) by simp_all
  have "small_heap (types_ops statics) ts1 m objs"
    using small lasting_object(2)[OF lasting_heap_objects[OF wf], of _ ts1] by (simp add: small_heap_def)
  from i(14)[OF this] have asc: "ascending (placed (types_ops statics) ts1 m order)" ..
  have closed: "set (pointers_of statics m obj) \<subseteq> fst ` set order" if "(obj, d) \<in> set order" for obj d
  proof -
    have "obj \<in> fst ` set order" using that by force
    then have "set (obj_pointers (types_ops statics) ts1 m obj) \<subseteq> fst ` set order"
      using bspec[OF i(15)] inv(2) by auto
    with sz(3)[OF that] show ?thesis by simp
  qed
  have above: "\<forall>x \<in> objs. hi_start hi \<le> x" using space by blast
  have found: "map_src_to_dest (ca_registry ca) (obj - hi_start hi) = Inr (Some (d - hi_to_space hi))"
    if "(obj, d) \<in> set order" for obj d
  proof -
    have "obj \<in> fst ` set order" "the (map_of order obj) = d" using that i(3) by (force, simp)
    moreover have "0 < obj_size (types_ops statics) ts1 m obj"
      using types.obj_size_ge[OF lasting_object(1)[OF o[OF that], of ts1]] by simp
    ultimately show ?thesis using types.marker_forwards(1)[OF wf1 above inv(1), of obj 0] ca(1) by simp
  qed
  have alloc: "page_table_wf (snd (ms_alloc st))" "base_addr (snd (ms_alloc st)) = hi_to_space hi"
    "used_addrs (snd (ms_alloc st)) = blocks (placed (types_ops statics) ts1 m order)"
    "\<forall>(d, n) \<in> set (placed (types_ops statics) ts1 m order). within_page (snd (ms_alloc st)) d n"
    using i(9,10,11,13) by (cases "ms_alloc st", simp add: context_wf_def ctx_simps)+
  have objs: "object_wf (sane_type statics ts2) (ms_memory st) obj \<and> obj < 2 ^ 64 \<and> hi_start hi \<le> obj \<and>
      8 dvd d \<and> set (obj_pointers (types_ops statics) ts2 (ms_memory st) obj) \<subseteq> fst ` set order \<and>
      block obj (obj_size (types_ops statics) ts2 (ms_memory st) obj) \<inter> space_block (ca_page_table ca) = {} \<and>
      map_src_to_dest (ca_registry ca) (obj - hi_start hi) = Inr (Some (d - hi_to_space hi))"
    if "(obj, d) \<in> set order" for obj d
    using sz(2,4,5)[OF that] closed[OF that] found[OF that] space sub[OF that] i(6) that
    by (auto simp: ca(2) simp del: in_block)
  have "records_sorted_by_dest (ca_registry ca) = map (reloc_of (types_ops statics) ts2 (ms_memory st) hi) order"
    by (simp add: ca(1) i(7) freeze_records same)
  with alloc asc i(3) objs show ?thesis
    unfolding copy_ready_def same ca(2-6) by blast
qed

section \<open>A cycle without interference\<close>

definition mm_area :: "heap_mm \<Rightarrow> nat set" where
  "mm_area mm = block (map_ptr (mm_mapping mm)) (map_len (mm_mapping mm))"

definition mm_ok :: "heap_mm \<Rightarrow> bool" where
  "mm_ok mm \<longleftrightarrow>
     space_ok (mm_page_table mm) \<and> base_addr (mm_page_table mm) = map_ptr (mm_mapping mm) \<and>
     map_len (mm_mapping mm) = pt_nr_pages (mm_page_table mm) * BASE_PAGE_SIZE"

definition roots_of :: "'tm world \<Rightarrow> object_ptr list list" where
  "roots_of w = map (\<lambda>(thread, cs). cs_root_set cs) (ss_contexts (w_shared w))"

definition live_objects :: "static_memory \<Rightarrow> 'tm world \<Rightarrow> object_ptr set" where
  "live_objects statics w = {obj. live statics types_new (w_memory w) (roots_of w) obj}"

text \<open>
  A state in which a cycle can run: a heap \<open>objs\<close> of small objects of lasting types in the current
  space, unmarked; roots into it; two spaces of the same size, apart from each other, of which the
  other one is queued; and live objects that take at most half of a space, less five pages.
\<close>

definition gc_ready :: "static_memory \<Rightarrow> object_ptr set \<Rightarrow> persistent_state option \<Rightarrow> types_state world \<Rightarrow> bool" where
  "gc_ready statics objs gc w \<longleftrightarrow>
     (let ss = w_shared w; mm = ss_mm ss; m = w_memory w in
      gc_init gc = gc_init None \<and> mm_ok mm \<and>
      (\<exists>second. ss_second_mm ss = [second] \<and> mm_ok second \<and> mm_area mm \<inter> mm_area second = {} \<and>
         pt_nr_pages (mm_page_table second) = pt_nr_pages (mm_page_table mm)) \<and>
      lasting_heap statics m objs \<and> small_heap (types_ops statics) types_new m objs \<and>
      (\<forall>obj \<in> objs. \<not> obj_marked (ss_mark_true_bit ss) m obj \<and> block obj (size_of statics m obj) \<subseteq> mm_area mm) \<and>
      set (concat (roots_of w)) \<subseteq> objs \<and>
      (\<Sum>obj \<in> live_objects statics w. alloc_need (size_of statics m obj)) \<le> fresh_room (pt_nr_pages (mm_page_table mm)))"

text \<open>The kernel serves every well-formed table, and the jobs include the eager ones.\<close>

definition kernel_ok :: "os_kernel \<Rightarrow> bool" where
  "kernel_ok os \<longleftrightarrow> (\<forall>pt. page_table_wf pt \<longrightarrow> kernel_serves os pt)"

definition schedules_ok :: "(copier_active \<Rightarrow> nat list) \<Rightarrow> bool" where
  "schedules_ok schedule \<longleftrightarrow> (\<forall>ca. page_table_wf (ca_page_table ca) \<longrightarrow> schedule_ok ca (schedule ca))"

text \<open>What a cycle comes to when nobody interferes, from the results of its parts.\<close>

definition copier_of :: "heap_info \<Rightarrow> mark_state \<Rightarrow> heap_mm \<Rightarrow> copier_active" where
  "copier_of hi st from_mm =
     copier_start \<lparr>hl_start = hi_start hi, hl_to_space = hi_to_space hi, hl_size = hi_size hi\<rparr>
       (builder_freeze (ms_registry st)) from_mm (snd (ms_alloc st))"

lemma copier_of_simps [simp]:
  "ca_registry (copier_of hi st mm) = builder_freeze (ms_registry st)"
  "ca_page_table (copier_of hi st mm) = snd (ms_alloc st)"
  "hl_to_space (ca_heap (copier_of hi st mm)) = hi_to_space hi"
  "hl_start (ca_heap (copier_of hi st mm)) = hi_start hi"
  "ca_from_mm (copier_of hi st mm) = mm"
  "ca_zero_page_start (copier_of hi st mm) = get_used_end_page (snd (ms_alloc st))"
  "ca_work_done (copier_of hi st mm) = bitmap_new (pt_nr_pages (snd (ms_alloc st)))"
  by (simp_all add: copier_of_def copier_start_def)

lemma heap_info_of_simps [simp]:
  "hi_start (heap_info_of mm second) = map_ptr (mm_mapping mm)"
  "hi_used_end (heap_info_of mm second) = get_top_addr (mm_page_table mm)"
  "hi_used_end_page (heap_info_of mm second) = get_used_end_page (mm_page_table mm)"
  "hi_to_space (heap_info_of mm second) = map_ptr (mm_mapping second)"
  by (simp_all add: heap_info_of_def)

lemma gc_init_new: "gc_init None = \<lparr>ps_cached_registry = Some builder_new,
    ps_cached_marker = Some marker_new, ps_copier = Some Copier_Pools\<rparr>"
  by (simp add: gc_init_def)

lemma gc_init_again: "gc_init (Some (gc_init None)) = gc_init None"
  by (simp add: gc_init_def)

lemma unfreeze_builder: "registry_unfreeze f = builder_new"
  by (simp add: registry_unfreeze_def builder_new_def)

lemma mm_clear_twice: "mm_clear mm (mm_clear mm m) = mm_clear mm m"
  by (simp add: mm_clear_def zero_range_def fun_eq_iff)

lemma quiet_cycle_eq:
  fixes w :: "types_state world"
  defines "ss \<equiv> w_shared w"
  defines "tm1 \<equiv> types_assume_all_dead (ss_type_manager ss)"
  assumes cache: "gc_init gc = gc_init None" and second: "ss_second_mm ss = [second]"
    and mark: "marker_start (types_ops statics) tm1 (w_memory w) marker_new (roots_of w) (mm_page_table second)
      builder_new (heap_info_of (ss_mm ss) second) (ss_mark_true_bit ss) = Some (Inr st)" "ms_stack st = []"
    and roots: "fix_contexts (fix_root (heap_info_of (ss_mm ss) second) (builder_freeze (ms_registry st)))
      (ss_contexts ss) = Inr ctxs"
    and copy: "copier_finish (types_ops statics) (types_wipe_deads tm1) os
      (schedule (copier_of (heap_info_of (ss_mm ss) second) st (ss_mm ss)))
      (copier_of (heap_info_of (ss_mm ss) second) st (ss_mm ss)) (ms_memory st) = Inr (reg, ss_mm ss, m')"
  shows "do_cycle (types_ops statics) checks os schedule quiet gc w = Some (Inr (gc_init None,
    \<lparr>w_shared = \<lparr>ss_mm = second\<lparr>mm_page_table := snd (ms_alloc st)\<rparr>, ss_second_mm = [ss_mm ss], ss_contexts = ctxs,
       ss_mark_true_bit = bit_not (ss_mark_true_bit ss), ss_type_manager = types_wipe_deads tm1\<rparr>,
     w_controller = clear_request (w_controller w), w_memory = mm_clear (ss_mm ss) m'\<rparr>))"
proof -
  let ?hi = "heap_info_of (ss_mm ss) second"
  let ?ss1 = "ss\<lparr>ss_mark_true_bit := bit_not (ss_mark_true_bit ss), ss_type_manager := tm1, ss_second_mm := []\<rparr>"
  let ?w1 = "w\<lparr>w_controller := clear_request (w_controller w), w_shared := ?ss1\<rparr>"
  let ?args2 = "\<lparr>s2_gc = gc_init None, s2_root = roots_of w, s2_heap = ?hi,
    s2_mark_true_bit = ss_mark_true_bit ss, s2_second_mm = second\<rparr>"
  let ?second = "second\<lparr>mm_page_table := snd (ms_alloc st)\<rparr>"
  let ?args3 = "\<lparr>s3_gc = \<lparr>ps_cached_registry = None, ps_cached_marker = Some marker_new, ps_copier = Some Copier_Pools\<rparr>,
    s3_second_mm = ?second, s3_relocation_registry = ms_registry st, s3_heap = ?hi\<rparr>"
  let ?ss3 = "?ss1\<lparr>ss_contexts := ctxs, ss_type_manager := types_wipe_deads tm1, ss_mm := ?second\<rparr>"
  let ?args4 = "\<lparr>s4_gc = \<lparr>ps_cached_registry = None, ps_cached_marker = Some marker_new, ps_copier = None\<rparr>,
    s4_copier = copier_of ?hi st (ss_mm ss)\<rparr>"
  have "gc_step1 (types_ops statics) (gc_init gc) w = Inr (?args2, ?w1)"
    using second cache
    by (simp add: gc_step1_def Let_def deque_cleared_mm_def roots_of_def ss_def tm1_def root_clone_boxed_def)
  moreover have "gc_step2 (types_ops statics) ?args2 ?w1 = Some (Inr (?args3, ?w1\<lparr>w_memory := ms_memory st\<rparr>))"
    using mark by (simp add: gc_step2_def gc_init_new marker_new_def)
  moreover have "gc_step3 (types_ops statics) checks ?args3 (?w1\<lparr>w_memory := ms_memory st\<rparr>) =
      Inr (?args4, ?w1\<lparr>w_memory := ms_memory st, w_shared := ?ss3\<rparr>)"
    using roots by (simp add: gc_step3_def Let_def copier_of_def)
  moreover have "gc_step4 (types_ops statics) os schedule ?args4 (?w1\<lparr>w_memory := ms_memory st, w_shared := ?ss3\<rparr>) =
      Inr (\<lparr>s5_gc = gc_init None, s5_second_mm = ss_mm ss\<rparr>,
        ?w1\<lparr>w_memory := mm_clear (ss_mm ss) m', w_shared := ?ss3\<rparr>)"
    using copy by (simp add: gc_step4_def unfreeze_builder gc_init_new)
  ultimately show ?thesis
    by (simp add: do_cycle_def quiet_def gc_step5_def enqueue_to_be_cleared_mm_def mm_clear_twice)
qed

lemma mm_area_bound: "mm_ok mm \<Longrightarrow> a \<in> mm_area mm \<Longrightarrow> map_ptr (mm_mapping mm) \<le> a \<and> a < 2 ^ 64"
  by (auto simp: mm_ok_def mm_area_def space_ok_def)

lemma gc_readyD:
  assumes "gc_ready statics objs gc w"
  shows "gc_init gc = gc_init None" "mm_ok (ss_mm (w_shared w))"
    "lasting_heap statics (w_memory w) objs" "small_heap (types_ops statics) types_new (w_memory w) objs"
    "obj \<in> objs \<Longrightarrow> \<not> obj_marked (ss_mark_true_bit (w_shared w)) (w_memory w) obj"
    "obj \<in> objs \<Longrightarrow> block obj (size_of statics (w_memory w) obj) \<subseteq> mm_area (ss_mm (w_shared w))"
    "set (concat (roots_of w)) \<subseteq> objs"
    "(\<Sum>obj \<in> live_objects statics w. alloc_need (size_of statics (w_memory w) obj))
      \<le> fresh_room (pt_nr_pages (mm_page_table (ss_mm (w_shared w))))"
  using assms unfolding gc_ready_def Let_def by blast+

lemma gc_ready_second:
  assumes "gc_ready statics objs gc w"
  obtains second where "ss_second_mm (w_shared w) = [second]" "mm_ok second"
    "mm_area (ss_mm (w_shared w)) \<inter> mm_area second = {}"
    "pt_nr_pages (mm_page_table second) = pt_nr_pages (mm_page_table (ss_mm (w_shared w)))"
  using assms unfolding gc_ready_def Let_def by blast

lemma gc_ready_live:
  assumes "gc_ready statics objs gc w"
  shows "live_objects statics w \<subseteq> objs"
    "{obj. live statics ts (w_memory w) (roots_of w) obj} = live_objects statics w"
  using reaches_in_heap[OF gc_readyD(3,7)[OF assms]] reaches_lasting[OF gc_readyD(3,7)[OF assms], of ts]
  by (auto simp: live_objects_def)

lemma roots_live: "set (concat (roots_of w)) \<subseteq> live_objects statics w"
  unfolding live_objects_def by (intro subsetI CollectI reaches.root)

text \<open>A heap that is ready for a cycle is ready for marking, whatever the state of the type manager.\<close>

lemma gc_ready_mark:
  assumes ready: "gc_ready statics objs gc w" and second: "ss_second_mm (w_shared w) = [second]"
  shows "mark_ready statics ts (w_memory w) objs (roots_of w) (mm_page_table second)
    (heap_info_of (ss_mm (w_shared w)) second) (ss_mark_true_bit (w_shared w))"
proof -
  note d = gc_readyD[OF ready]
  obtain second' where s: "second' = second" "mm_ok second'"
    "pt_nr_pages (mm_page_table second') = pt_nr_pages (mm_page_table (ss_mm (w_shared w)))"
    by (rule gc_ready_second[OF ready]) (use second in auto)
  have "map_ptr (mm_mapping (ss_mm (w_shared w))) \<le> obj" if "obj \<in> objs" for obj
  proof -
    have "16 \<le> size_of statics (w_memory w) obj"
      using types.obj_size_ge[OF lasting_heap_objects[OF d(3) that]] .
    then have "obj \<in> mm_area (ss_mm (w_shared w))" using d(6)[OF that] by fastforce
    with mm_area_bound[OF d(2)] show ?thesis by blast
  qed
  moreover have "(\<Sum>obj \<in> live_objects statics w. alloc_need (obj_size (types_ops statics) ts (w_memory w) obj)) =
      (\<Sum>obj \<in> live_objects statics w. alloc_need (size_of statics (w_memory w) obj))"
    using gc_ready_live(1)[OF ready] lasting_object(2)[OF lasting_heap_objects[OF d(3)], where ts = ts]
    by (intro sum.cong) auto
  moreover have "map_ptr (mm_mapping (ss_mm (w_shared w))) \<le> get_top_addr (mm_page_table (ss_mm (w_shared w)))"
    using d(2) by (simp add: mm_ok_def get_top_addr_def)
  ultimately show ?thesis
    using lasting_heap_wf[OF d(3)] d(5,7,8) s unfolding mark_ready_def gc_ready_live(2)[OF ready]
    by (simp add: mm_ok_def)
qed

lemma used_in_space_block: "page_table_wf pt \<Longrightarrow> used_addrs pt \<subseteq> space_block pt"
  using page_in_space(1) fp_used_subset_span slot_okD(1) page_table_wfD(4)
  by (fastforce simp: used_addrs_def simp del: in_block)

text \<open>What is known of a cycle once the marker and the copier have run; \<open>M\<close> is the memory at its end.\<close>

definition cycle_result ::
    "static_memory \<Rightarrow> object_ptr set \<Rightarrow> types_state world \<Rightarrow> heap_mm \<Rightarrow> (object_ptr \<times> nat) list \<Rightarrow> mark_state
     \<Rightarrow> memory \<Rightarrow> bool" where
  "cycle_result statics objs w second order st M \<longleftrightarrow>
     (let ss = w_shared w; tm1 = types_assume_all_dead (ss_type_manager ss); tm2 = types_wipe_deads tm1;
          hi = heap_info_of (ss_mm ss) second in
      mark_inv (types_ops statics) tm1 (w_memory w) objs hi (ss_mark_true_bit ss) builder_new
        (concat (roots_of w)) order st \<and>
      fst ` set order = live_objects statics w \<and>
      copy_ready (types_ops statics) tm2 (sane_type statics tm2) (ms_memory st) hi order (copier_of hi st (ss_mm ss)) \<and>
      pt_nr_pages (snd (ms_alloc st)) = pt_nr_pages (mm_page_table second) \<and>
      fresh_room (pt_nr_pages (mm_page_table second)) \<le> ctx_room (ms_alloc st) +
        (\<Sum>obj \<in> live_objects statics w. alloc_need (size_of statics (w_memory w) obj)) \<and>
      (\<forall>(obj, d) \<in> set order. \<forall>j < size_of statics (w_memory w) obj.
         M (d + j) = obj_image (types_offsets statics types_new) (ms_memory st) (new_place order) obj j) \<and>
      (\<forall>a \<in> mm_area (ss_mm ss). M a = 0))"

text \<open>The world at the end.\<close>

definition cycle_world ::
    "types_state world \<Rightarrow> heap_mm \<Rightarrow> (object_ptr \<times> nat) list \<Rightarrow> mark_state \<Rightarrow> memory \<Rightarrow> types_state world" where
  "cycle_world w second order st M =
     (let ss = w_shared w in
      \<lparr>w_shared = \<lparr>ss_mm = second\<lparr>mm_page_table := snd (ms_alloc st)\<rparr>, ss_second_mm = [ss_mm ss],
         ss_contexts = map (\<lambda>(thread, cs). (thread, cs\<lparr>cs_root_set := map (new_place order) (cs_root_set cs)\<rparr>))
           (ss_contexts ss),
         ss_mark_true_bit = bit_not (ss_mark_true_bit ss),
         ss_type_manager = types_wipe_deads (types_assume_all_dead (ss_type_manager ss))\<rparr>,
       w_controller = clear_request (w_controller w), w_memory = M\<rparr>)"

text \<open>
  From the end of the marker on: step 3 finds the new place of every live root, and the jobs of step 4
  put every live object there.
\<close>

lemma copy_phase:
  fixes w :: "types_state world" and schedule :: "copier_active \<Rightarrow> nat list" and second :: heap_mm
  defines "ss \<equiv> w_shared w"
  defines "tm1 \<equiv> types_assume_all_dead (ss_type_manager ss)"
    and "hi \<equiv> heap_info_of (ss_mm ss) second"
  defines "ca \<equiv> \<lambda>st. copier_of hi st (ss_mm ss)"
  assumes ready: "gc_ready statics objs gc w" and os: "kernel_ok os" and jobs: "schedules_ok schedule"
    and second: "ss_second_mm ss = [second]"
    and st: "mark_inv (types_ops statics) tm1 (w_memory w) objs hi (ss_mark_true_bit ss) builder_new
        (concat (roots_of w)) order st" "ms_stack st = []" "fst ` set order = live_objects statics w"
      "pt_nr_pages (snd (ms_alloc st)) = pt_nr_pages (mm_page_table second)"
      "fresh_room (pt_nr_pages (mm_page_table second)) \<le> ctx_room (ms_alloc st) +
        (\<Sum>obj \<in> live_objects statics w. alloc_need (size_of statics (w_memory w) obj))"
  obtains m' where "copier_finish (types_ops statics) (types_wipe_deads tm1) os (schedule (ca st)) (ca st) (ms_memory st) =
      Inr (builder_freeze (ms_registry st), ss_mm ss, m')"
    "cycle_result statics objs w second order st (mm_clear (ss_mm ss) m')"
    "\<forall>x \<in> live_objects statics w. fix_root hi (builder_freeze (ms_registry st)) x = Inr (new_place order x)"
proof -
  let ?tm2 = "types_wipe_deads tm1"
  note d = gc_readyD[OF ready, folded ss_def]
  obtain second' where s: "second' = second" "mm_ok second'" "mm_area (ss_mm ss) \<inter> mm_area second' = {}"
    by (rule gc_ready_second[OF ready]) (use second in \<open>auto simp: ss_def\<close>)
  note i = mark_invD[OF st(1)]
  have base: "base_addr (snd (ms_alloc st)) = map_ptr (mm_mapping second)"
    using i(10) by (cases "ms_alloc st") (simp add: ctx_simps hi_def)
  then have area: "space_block (snd (ms_alloc st)) = mm_area second"
    using s(1,2) st(4) by (simp add: space_block_def mm_area_def mm_ok_def)
  have space: "\<forall>obj \<in> objs. hi_start hi \<le> obj \<and> obj < 2 ^ 64 \<and>
      block obj (size_of statics (w_memory w) obj) \<inter> space_block (snd (ms_alloc st)) = {}"
  proof
    fix obj assume obj: "obj \<in> objs"
    have "16 \<le> size_of statics (w_memory w) obj"
      using types.obj_size_ge[OF lasting_heap_objects[OF d(3) obj]] .
    then have "obj \<in> mm_area (ss_mm ss)" using d(6)[OF obj] by fastforce
    with mm_area_bound[OF d(2)] d(6)[OF obj] s(1,3) show "hi_start hi \<le> obj \<and> obj < 2 ^ 64 \<and>
      block obj (size_of statics (w_memory w) obj) \<inter> space_block (snd (ms_alloc st)) = {}"
      unfolding area by (auto simp: hi_def)
  qed
  have ready2: "copy_ready (types_ops statics) ?tm2 (sane_type statics ?tm2) (ms_memory st) hi order (ca st)"
    by (rule marker_to_copier[OF d(3,4) space st(1,2)]) (simp_all add: hi_def ca_def)
  note c = copy_readyD[OF ready2] and o = copy_ready_obj[OF ready2]
  from types.copier_copies[OF ready2, of os "schedule (ca st)"] os jobs c(1)
  obtain m' where m': "copier_finish (types_ops statics) ?tm2 os (schedule (ca st)) (ca st) (ms_memory st) =
      Inr (builder_freeze (ms_registry st), ss_mm ss, m')"
    "\<And>a. a \<notin> mm_area second \<Longrightarrow> m' a = ms_memory st a"
    "\<And>obj d j. (obj, d) \<in> set order \<Longrightarrow> j < obj_size (types_ops statics) ?tm2 (ms_memory st) obj \<Longrightarrow>
      m' (d + j) = obj_image (types_offsets statics ?tm2) (ms_memory st) (new_place order) obj j"
    unfolding kernel_ok_def schedules_ok_def area[symmetric] ca_def by auto
  have sub: "obj \<in> objs" if "(obj, d) \<in> set order" for obj d using i(4) that by force
  have img: "mm_clear (ss_mm ss) m' (d + j) =
      obj_image (types_offsets statics types_new) (ms_memory st) (new_place order) obj j"
    if od: "(obj, d) \<in> set order" and j: "j < size_of statics (w_memory w) obj" for obj d j
  proof -
    note v = types.variant_same[OF d(3) i(1) sub[OF od]]
    note l = lasting_object[OF v(1), of ?tm2]
    have "d + j \<in> block d (obj_size (types_ops statics) ?tm2 (ms_memory st) obj)" using j l(2) v(2) by simp
    then have "d + j \<in> used_addrs (snd (ms_alloc st))" using types.placed_above(5)[OF ready2 od] unfolding ca_def copier_of_simps by blast
    then have "d + j \<in> mm_area second" using used_in_space_block[of "snd (ms_alloc st)"] c(1) unfolding area ca_def copier_of_simps by blast
    with s(1,3) have "d + j \<notin> mm_area (ss_mm ss)" by blast
    moreover have "m' (d + j) = obj_image (types_offsets statics ?tm2) (ms_memory st) (new_place order) obj j"
      using m'(3)[OF od] j l(2) v(2) by simp
    ultimately show ?thesis
      using l(4) by (simp add: mm_clear_def zero_range_def mm_area_def obj_image_def del: in_block)
  qed
  have fwd: "fix_root hi (builder_freeze (ms_registry st)) x = Inr (new_place order x)"
    if x: "x \<in> live_objects statics w" for x
  proof -
    have "x \<in> fst ` set order" unfolding st(3) by (rule x)
    moreover have "fix_root hi (builder_freeze (ms_registry st)) x = forward (ca st) x"
      by (simp add: fix_root_def forward_def ca_def)
    ultimately show ?thesis using types.forward_live[OF ready2] by simp
  qed
  have "mm_clear (ss_mm ss) m' a = 0" if "a \<in> mm_area (ss_mm ss)" for a
    using that by (simp add: mm_clear_def zero_range_def mm_area_def del: in_block)
  then have "cycle_result statics objs w second order st (mm_clear (ss_mm ss) m')"
    unfolding cycle_result_def Let_def
    using st(1,3,4,5) ready2 img by (simp add: ss_def tm1_def hi_def ca_def split_beta)
  with m'(1) show thesis using fwd by (intro that) blast+
qed

lemma quiet_cycle_runs:
  assumes ready: "gc_ready statics objs gc w" and os: "kernel_ok os" and jobs: "schedules_ok schedule"
    and second: "ss_second_mm (w_shared w) = [second]"
  obtains order st M where "cycle_result statics objs w second order st M"
    "do_cycle (types_ops statics) checks os schedule quiet gc w =
      Some (Inr (gc_init None, cycle_world w second order st M))"
proof -
  let ?ss = "w_shared w"
  let ?tm1 = "types_assume_all_dead (ss_type_manager ?ss)" and ?hi = "heap_info_of (ss_mm ?ss) second"
  note d = gc_readyD[OF ready]
  have sizes: "(\<Sum>obj \<in> live_objects statics w. alloc_need (obj_size (types_ops statics) ?tm1 (w_memory w) obj)) =
      (\<Sum>obj \<in> live_objects statics w. alloc_need (size_of statics (w_memory w) obj))"
    using gc_ready_live(1)[OF ready] lasting_object(2)[OF lasting_heap_objects[OF d(3)], where ts = ?tm1]
    by (intro sum.cong) auto
  from mark_ready_room[OF gc_ready_mark[OF ready second, of ?tm1]]
  obtain order st where st: "marker_start (types_ops statics) ?tm1 (w_memory w) marker_new (roots_of w)
      (mm_page_table second) builder_new ?hi (ss_mark_true_bit ?ss) = Some (Inr st)"
    "mark_inv (types_ops statics) ?tm1 (w_memory w) objs ?hi (ss_mark_true_bit ?ss) builder_new
      (concat (roots_of w)) order st" "ms_stack st = []"
    "fst ` set order = live_objects statics w"
    "fresh_room (pt_nr_pages (mm_page_table second)) \<le> ctx_room (ms_alloc st) +
      (\<Sum>obj \<in> live_objects statics w. alloc_need (size_of statics (w_memory w) obj))"
    unfolding gc_ready_live(2)[OF ready] sizes .
  from ready os jobs second st(2,3,4) marker_start_nr_pages[OF st(1)] st(5) obtain m' where
    m': "copier_finish (types_ops statics) (types_wipe_deads ?tm1) os (schedule (copier_of ?hi st (ss_mm ?ss)))
        (copier_of ?hi st (ss_mm ?ss)) (ms_memory st) = Inr (builder_freeze (ms_registry st), ss_mm ?ss, m')"
      "cycle_result statics objs w second order st (mm_clear (ss_mm ?ss) m')"
      "\<forall>x \<in> live_objects statics w. fix_root ?hi (builder_freeze (ms_registry st)) x = Inr (new_place order x)"
    by (rule copy_phase)
  have "fix_contexts (fix_root ?hi (builder_freeze (ms_registry st))) (ss_contexts ?ss) =
      Inr (map (\<lambda>(thread, cs). (thread, cs\<lparr>cs_root_set := map (new_place order) (cs_root_set cs)\<rparr>)) (ss_contexts ?ss))"
    using m'(3) roots_live[of w statics] by (intro fix_contexts_total) (fastforce simp: roots_of_def)
  note run = quiet_cycle_eq[where schedule = schedule, OF d(1) second st(1,3) this m'(1), of checks]
  show thesis by (rule that[OF m'(2)]) (simp add: run cycle_world_def Let_def)
qed

text \<open>
  What it means that an object has been moved by \<open>f\<close>: it is of the same kind and size, its pointers
  are to the new places of what they were to, and all its other data is the same.
\<close>

definition relocated :: "static_memory \<Rightarrow> memory \<Rightarrow> memory \<Rightarrow> (object_ptr \<Rightarrow> object_ptr) \<Rightarrow> object_ptr \<Rightarrow> bool" where
  "relocated statics m m' f obj \<longleftrightarrow>
     obj_kind m' (f obj) = obj_kind m obj \<and> size_of statics m' (f obj) = size_of statics m obj \<and>
     pointers_of statics m' (f obj) = map f (pointers_of statics m obj) \<and>
     (\<forall>j. 16 \<le> j \<and> j < size_of statics m obj \<and> obj + j \<notin> set (fields_of statics m obj) \<longrightarrow>
        m' (f obj + j) = m (obj + j))"

lemma cycle_resultD:
  assumes "cycle_result statics objs w second order st M"
  shows "mark_inv (types_ops statics) (types_assume_all_dead (ss_type_manager (w_shared w))) (w_memory w) objs
      (heap_info_of (ss_mm (w_shared w)) second) (ss_mark_true_bit (w_shared w)) builder_new (concat (roots_of w)) order st"
    "fst ` set order = live_objects statics w"
    "\<exists>tm. copy_ready (types_ops statics) tm (sane_type statics tm) (ms_memory st)
      (heap_info_of (ss_mm (w_shared w)) second) order (copier_of (heap_info_of (ss_mm (w_shared w)) second) st (ss_mm (w_shared w)))"
    "pt_nr_pages (snd (ms_alloc st)) = pt_nr_pages (mm_page_table second)"
    "(obj, d) \<in> set order \<Longrightarrow> j < size_of statics (w_memory w) obj \<Longrightarrow>
      M (d + j) = obj_image (types_offsets statics types_new) (ms_memory st) (new_place order) obj j"
    "a \<in> mm_area (ss_mm (w_shared w)) \<Longrightarrow> M a = 0"
    "fresh_room (pt_nr_pages (mm_page_table second)) \<le> ctx_room (ms_alloc st) +
      (\<Sum>obj \<in> live_objects statics w. alloc_need (size_of statics (w_memory w) obj))"
  using assms unfolding cycle_result_def Let_def by auto

lemma cycle_place:
  assumes ready: "gc_ready statics objs gc w" and res: "cycle_result statics objs w second order st M"
    and obj: "obj \<in> live_objects statics w"
  obtains d where "(obj, d) \<in> set order" "new_place order obj = d" "8 dvd d" "d \<noteq> 0"
    "d + size_of statics (w_memory w) obj < 2 ^ 64"
    "block d (size_of statics (w_memory w) obj) \<subseteq> used_addrs (snd (ms_alloc st))"
proof -
  note r = cycle_resultD[OF res] and g = gc_readyD[OF ready]
  note i = mark_invD[OF r(1)]
  obtain d where d: "(obj, d) \<in> set order" using obj unfolding r(2)[symmetric] by force
  then have in_objs: "obj \<in> objs" using i(4) by force
  obtain tm where c: "copy_ready (types_ops statics) tm (sane_type statics tm) (ms_memory st)
      (heap_info_of (ss_mm (w_shared w)) second) order (copier_of (heap_info_of (ss_mm (w_shared w)) second) st (ss_mm (w_shared w)))"
    using r(3) ..
  note v = types.variant_same[OF g(3) i(1) in_objs]
  have sz: "obj_size (types_ops statics) tm (ms_memory st) obj = size_of statics (w_memory w) obj"
    using lasting_object(2)[OF v(1), of tm] v(2) by simp
  from types.placed_above[OF c d] copy_ready_obj(4)[OF c d] new_place_eq[OF i(3) d] d show thesis
    unfolding sz by (intro that[of d]) simp_all
qed

text \<open>Every live object has been moved; its copy is well-formed and carries the cycle's mark.\<close>

lemma cycle_object:
  assumes ready: "gc_ready statics objs gc w" and res: "cycle_result statics objs w second order st M"
    and obj: "obj \<in> live_objects statics w"
  shows "relocated statics (w_memory w) M (new_place order) obj"
    "object_wf (lasting statics) M (new_place order obj)"
    "obj_marked (ss_mark_true_bit (w_shared w)) M (new_place order obj)"
proof -
  let ?f = "new_place order" and ?m = "w_memory w" and ?m1 = "ms_memory st"
  note r = cycle_resultD[OF res] and g = gc_readyD[OF ready]
  note i = mark_invD[OF r(1)]
  from ready res obj obtain d where d: "(obj, d) \<in> set order" "?f obj = d" "8 dvd d"
    by (rule cycle_place)
  have in_objs: "obj \<in> objs" using gc_ready_live(1)[OF ready] obj by blast
  note v = types.variant_same[OF g(3) i(1) in_objs]
  have sz: "16 \<le> size_of statics ?m obj" using types.obj_size_ge[OF lasting_heap_objects[OF g(3) in_objs]] .
  have ptr: "?f p \<noteq> 0 \<and> ?f p < 2 ^ 64" if "p \<in> set (pointers_of statics ?m1 obj)" for p
  proof -
    have "p \<in> live_objects statics w"
      using that obj unfolding v(3) live_objects_def by (auto intro: reaches.step)
    from cycle_place[OF ready res this] show ?thesis by (metis add_lessD1)
  qed
  have img: "M (d + j) = obj_image (types_offsets statics types_new) ?m1 ?f obj j"
    if "j < size_of statics ?m1 obj" for j
    using r(5)[OF d(1)] that v(2) by simp
  note o = types.image_object[OF v(1) d(3) img ptr]
  have "M (d + j) = ?m (obj + j)"
    if "16 \<le> j" "j < size_of statics ?m obj" "obj + j \<notin> set (fields_of statics ?m obj)" for j
    using img[of j] v(2,4) v(6)[of j] that by (simp add: obj_image_def)
  then show "relocated statics ?m M ?f obj"
    using o v(2,3,5) d(2) by (simp add: relocated_def)
  show "object_wf (lasting statics) M (?f obj)" using o(1) d(2) by simp
  have "obj \<in> fst ` set order" using d(1) by force
  then have "obj_marked (ss_mark_true_bit (w_shared w)) ?m1 obj" using i(2) in_objs by blast
  then show "obj_marked (ss_mark_true_bit (w_shared w)) M (?f obj)"
    using o(3) d(2) by (simp add: obj_marked_def)
qed

lemma cycle_places_disjoint:
  assumes ready: "gc_ready statics objs gc w" and res: "cycle_result statics objs w second order st M"
    and x: "x \<in> live_objects statics w" and y: "y \<in> live_objects statics w" and ne: "x \<noteq> y"
  shows "block (new_place order x) (size_of statics (w_memory w) x) \<inter>
    block (new_place order y) (size_of statics (w_memory w) y) = {}"
proof -
  note r = cycle_resultD[OF res] and g = gc_readyD[OF ready]
  note i = mark_invD[OF r(1)]
  from ready res x obtain d where d: "(x, d) \<in> set order" "new_place order x = d" by (rule cycle_place)
  from ready res y obtain e where e: "(y, e) \<in> set order" "new_place order y = e" by (rule cycle_place)
  have sub: "live_objects statics w \<subseteq> objs" using gc_ready_live(1)[OF ready] .
  have "sorted_wrt (\<lambda>p q. block (snd p) (obj_size (types_ops statics) (types_assume_all_dead (ss_type_manager (w_shared w))) (w_memory w) (fst p)) \<inter>
      block (snd q) (obj_size (types_ops statics) (types_assume_all_dead (ss_type_manager (w_shared w))) (w_memory w) (fst q)) = {}) order"
    using i(12) by (simp add: disjoint_blocks_iff placed_def sorted_wrt_map split_def)
  from sorted_wrt_pairs[OF this] have "block d (obj_size (types_ops statics) (types_assume_all_dead (ss_type_manager (w_shared w))) (w_memory w) x) \<inter>
      block e (obj_size (types_ops statics) (types_assume_all_dead (ss_type_manager (w_shared w))) (w_memory w) y) = {}"
    using d(1) e(1) ne by (force simp del: in_block)
  with sub x y d(2) e(2) show ?thesis
    using lasting_object(2)[OF lasting_heap_objects[OF g(3)], where ts = "types_assume_all_dead (ss_type_manager (w_shared w))"]
    by (simp add: subset_eq)
qed

text \<open>After the cycle the next one can run.\<close>

lemma obj_marked_not: "obj_marked (bit_not t) m obj \<longleftrightarrow> \<not> obj_marked t m obj"
  by (cases t) (auto simp: obj_marked_def)

lemma cycle_world_roots:
  "roots_of (cycle_world w second order st M) = map (map (new_place order)) (roots_of w)"
  by (simp add: roots_of_def cycle_world_def Let_def o_def split_def)

lemma cycle_inj:
  assumes ready: "gc_ready statics objs gc w" and res: "cycle_result statics objs w second order st M"
  shows "inj_on (new_place order) (live_objects statics w)"
proof (rule inj_onI)
  fix x y assume x: "x \<in> live_objects statics w" and y: "y \<in> live_objects statics w"
    and eq: "new_place order x = new_place order y"
  have "object_wf (lasting statics) (w_memory w) z" if "z \<in> live_objects statics w" for z
    using gc_ready_live(1)[OF ready] lasting_heap_objects[OF gc_readyD(3)[OF ready]] that by blast
  then have "16 \<le> size_of statics (w_memory w) z" if "z \<in> live_objects statics w" for z
    using that types.obj_size_ge by blast
  then have "new_place order x \<in> block (new_place order x) (size_of statics (w_memory w) x)"
    "new_place order x \<in> block (new_place order y) (size_of statics (w_memory w) y)"
    using x y eq by fastforce+
  then show "x = y" using cycle_places_disjoint[OF ready res x y] by blast
qed

lemma cycle_heap:
  assumes ready: "gc_ready statics objs gc w" and res: "cycle_result statics objs w second order st M"
  shows "lasting_heap statics M (new_place order ` live_objects statics w)"
    "small_heap (types_ops statics) types_new M (new_place order ` live_objects statics w)"
proof -
  let ?f = "new_place order" and ?L = "live_objects statics w"
  note g = gc_readyD[OF ready]
  have sub: "?L \<subseteq> objs" using gc_ready_live(1)[OF ready] .
  have rel: "size_of statics M (?f x) = size_of statics (w_memory w) x"
    "pointers_of statics M (?f x) = map ?f (pointers_of statics (w_memory w) x)" if "x \<in> ?L" for x
    using cycle_object(1)[OF ready res that] by (simp_all add: relocated_def)
  have "set (pointers_of statics (w_memory w) x) \<subseteq> ?L" if "x \<in> ?L" for x
    using that by (auto simp: live_objects_def intro: reaches.step)
  then have ptrs: "set (pointers_of statics M (?f x)) \<subseteq> ?f ` ?L" if "x \<in> ?L" for x
    using rel(2)[OF that] that by fastforce
  have "finite ?L" using sub g(3) finite_subset by (auto simp: heap_wf_def)
  moreover have "8 dvd size_of statics M (?f x)" if "x \<in> ?L" for x
    using rel(1)[OF that] sub that g(3) by (auto simp: heap_wf_def)
  moreover have "block (?f x) (size_of statics M (?f x)) \<inter> block (?f y) (size_of statics M (?f y)) = {}"
    if "x \<in> ?L" "y \<in> ?L" "?f x \<noteq> ?f y" for x y
    using cycle_places_disjoint[OF ready res that(1,2)] rel(1) that by auto
  ultimately show "lasting_heap statics M (?f ` ?L)"
    using ptrs cycle_object(2)[OF ready res] unfolding heap_wf_def by blast
  show "small_heap (types_ops statics) types_new M (?f ` ?L)"
    using g(4) sub rel(1) by (auto simp: small_heap_def)
qed

lemma cycle_ready:
  assumes ready: "gc_ready statics objs gc w" and second: "ss_second_mm (w_shared w) = [second]"
    and res: "cycle_result statics objs w second order st M"
  shows "gc_ready statics (new_place order ` live_objects statics w) (Some (gc_init None))
    (cycle_world w second order st M)"
proof -
  let ?f = "new_place order" and ?L = "live_objects statics w" and ?w = "cycle_world w second order st M"
  let ?mm = "second\<lparr>mm_page_table := snd (ms_alloc st)\<rparr>"
  note r = cycle_resultD[OF res] and g = gc_readyD[OF ready] and heap = cycle_heap[OF ready res]
  obtain second' where s: "second' = second" "mm_ok second'" "mm_area (ss_mm (w_shared w)) \<inter> mm_area second' = {}"
    "pt_nr_pages (mm_page_table second') = pt_nr_pages (mm_page_table (ss_mm (w_shared w)))"
    by (rule gc_ready_second[OF ready]) (use second in auto)
  obtain tm where c: "copy_ready (types_ops statics) tm (sane_type statics tm) (ms_memory st)
      (heap_info_of (ss_mm (w_shared w)) second) order (copier_of (heap_info_of (ss_mm (w_shared w)) second) st (ss_mm (w_shared w)))"
    using r(3) ..
  have pt: "page_table_wf (snd (ms_alloc st))" "base_addr (snd (ms_alloc st)) = map_ptr (mm_mapping second)"
    using copy_readyD(1,2)[OF c] by simp_all
  then have mm: "mm_ok ?mm" using page_table_wfD(1) s(1,2) r(4) by (simp add: mm_ok_def)
  have area: "mm_area ?mm = space_block (snd (ms_alloc st))" "mm_area ?mm = mm_area second"
    using mm pt(2) by (simp_all add: mm_ok_def mm_area_def space_block_def)
  have world: "ss_mm (w_shared ?w) = ?mm" "ss_second_mm (w_shared ?w) = [ss_mm (w_shared w)]" "w_memory ?w = M"
    "ss_mark_true_bit (w_shared ?w) = bit_not (ss_mark_true_bit (w_shared w))"
    by (simp_all add: cycle_world_def Let_def)
  have obj: "\<not> obj_marked (bit_not (ss_mark_true_bit (w_shared w))) M (?f x) \<and>
      block (?f x) (size_of statics M (?f x)) \<subseteq> mm_area ?mm" if x: "x \<in> ?L" for x
  proof -
    from ready res x obtain d where "?f x = d"
      "block d (size_of statics (w_memory w) x) \<subseteq> used_addrs (snd (ms_alloc st))" by (rule cycle_place)
    then show ?thesis
      using cycle_object(1,3)[OF ready res x] used_in_space_block[OF pt(1)] area(1)
      by (auto simp: obj_marked_not relocated_def simp del: in_block)
  qed
  have "set (concat (roots_of w)) \<subseteq> ?L"
    unfolding live_objects_def by (intro subsetI CollectI reaches.root)
  then have roots: "set (concat (roots_of ?w)) \<subseteq> ?f ` ?L"
    unfolding cycle_world_roots by fastforce
  have "(\<Sum>x \<in> live_objects statics ?w. alloc_need (size_of statics M x)) \<le>
      (\<Sum>x \<in> ?f ` ?L. alloc_need (size_of statics M x))"
    using sum_reaches_le[OF heap(1) roots] by (simp add: live_objects_def world(3))
  also have "\<dots> = (\<Sum>x \<in> ?L. alloc_need (size_of statics (w_memory w) x))"
    using cycle_object(1)[OF ready res]
    by (simp add: sum.reindex[OF cycle_inj[OF ready res]] relocated_def)
  also have "\<dots> \<le> fresh_room (pt_nr_pages (mm_page_table (ss_mm (w_shared w))))" using g(8) .
  finally have room: "(\<Sum>x \<in> live_objects statics ?w. alloc_need (size_of statics M x)) \<le>
      fresh_room (pt_nr_pages (mm_page_table (ss_mm (w_shared w))))" .
  show ?thesis
    using mm g(2) s(1,3,4) area(2) r(4) heap obj roots room
    unfolding gc_ready_def Let_def world gc_init_again by auto
qed

text \<open>One cycle, as the theorems on cycles use it.\<close>

lemma quiet_cycle_step:
  assumes "gc_ready statics objs gc w" "kernel_ok os" "schedules_ok schedule"
  shows "\<exists>f gc' w'. do_cycle (types_ops statics) checks os schedule quiet gc w = Some (Inr (gc', w')) \<and>
    inj_on f (live_objects statics w) \<and>
    (\<forall>obj \<in> live_objects statics w. relocated statics (w_memory w) (w_memory w') f obj) \<and>
    roots_of w' = map (map f) (roots_of w) \<and>
    gc_ready statics (f ` live_objects statics w) (Some gc') w' \<and>
    ss_second_mm (w_shared w') = [ss_mm (w_shared w)] \<and>
    (\<forall>a \<in> mm_area (ss_mm (w_shared w)). w_memory w' a = 0)"
proof -
  from assms(1) obtain second where s: "ss_second_mm (w_shared w) = [second]" by (rule gc_ready_second)
  from quiet_cycle_runs[OF assms s] obtain order st M where
    r: "cycle_result statics objs w second order st M"
      "do_cycle (types_ops statics) checks os schedule quiet gc w =
        Some (Inr (gc_init None, cycle_world w second order st M))" .
  have "w_memory (cycle_world w second order st M) = M"
    "ss_second_mm (w_shared (cycle_world w second order st M)) = [ss_mm (w_shared w)]"
    by (simp_all add: cycle_world_def Let_def)
  with r cycle_inj[OF assms(1) r(1)] cycle_object(1)[OF assms(1) r(1)] cycle_world_roots
    cycle_ready[OF assms(1) s r(1)] cycle_resultD(6)[OF r(1)]
  show ?thesis by (intro exI[of _ "new_place order"] exI) auto
qed

text \<open>Flushing the contexts before a cycle changes nothing that matters to it.\<close>

lemma flush_ready:
  assumes "gc_ready statics objs gc w"
  shows "gc_ready statics objs gc (w\<lparr>w_shared := flush_contexts (w_shared w)\<rparr>)"
    "roots_of (w\<lparr>w_shared := flush_contexts (w_shared w)\<rparr>) = roots_of w"
proof -
  show roots: "roots_of (w\<lparr>w_shared := flush_contexts (w_shared w)\<rparr>) = roots_of w"
    by (simp add: roots_of_def flush_contexts_def o_def split_def)
  show "gc_ready statics objs gc (w\<lparr>w_shared := flush_contexts (w_shared w)\<rparr>)"
    using assms unfolding gc_ready_def Let_def roots live_objects_def by (simp add: flush_contexts_def)
qed

end
