(* ===== verification/Sample_World.thy ===== *)
theory Sample_World
  imports Collection
begin

text \<open>
  A concrete heap, world, kernel and schedule, shown to satisfy the conditions under which the
  collector is verified. The witnesses of the properties run on it.
\<close>

section \<open>A sample heap\<close>

text \<open>Two objects of a static type that point to each other, and a garbage byte array.\<close>

definition sample_memory :: memory where
  "sample_memory = (\<lambda>_. 0)
     (2097152 := 4, 2097160 := 4096, 2097168 := 2097184,
      2097184 := 4, 2097192 := 4096, 2097200 := 2097152,
      2097216 := 128, 2097224 := 16)"

definition sample_hi :: heap_info where
  "sample_hi = \<lparr>hi_start = 2097152, hi_used_end = 4194304, hi_size = 8388608,
     hi_used_end_page = 1, hi_to_space = 16777216\<rparr>"

lemma sample_kinds:
  "obj_kind sample_memory 2097152 = NotPlainOldData 4096"
  "obj_kind sample_memory 2097184 = NotPlainOldData 4096"
  "obj_kind sample_memory 2097216 = PlainOldData 16"
  by (simp_all add: obj_kind_def sample_memory_def)

lemma sample_type:
  "get_type sample_statics types_new 4096 = Inr (Some (StaticallyKnown (descriptor_new (Borrowed [0]) 16)))"
  by (simp add: get_type_def TYPE_TYPE_MASK_def sample_statics_def)

lemma sample_sane: "sane_type sample_statics types_new 4096"
  by (simp add: sane_type_def sample_type descriptor_ok_def offsets_fit_def descriptor_new_def)

lemmas sample_simps = object_metadata_eq sample_kinds types_dynamic_size_def sample_type
  types_iterate_gc_pointers_def info_iter_pointers_def offsets_all_left descriptor_offsets descriptor_new_def

lemma sample_sizes:
  "obj_size (types_ops sample_statics) types_new sample_memory 2097152 = 32"
  "obj_size (types_ops sample_statics) types_new sample_memory 2097184 = 32"
  "obj_size (types_ops sample_statics) types_new sample_memory 2097216 = 32"
  by (simp_all add: obj_size_def concrete_get_size_def sample_simps METADATA_SIZE_def)

lemma sample_pointers:
  "obj_pointers (types_ops sample_statics) types_new sample_memory 2097152 = [2097184]"
  "obj_pointers (types_ops sample_statics) types_new sample_memory 2097184 = [2097152]"
  "obj_pointers (types_ops sample_statics) types_new sample_memory 2097216 = []"
  by (simp_all add: obj_pointers_def concrete_iterate_gc_pointers_def sample_simps METADATA_SIZE_def
      object_data_def load_pointer_def) (simp_all add: sample_memory_def)

lemma sample_ready:
  "mark_ready sample_statics types_new sample_memory {2097152, 2097184, 2097216} [[2097152]]
     (page_table_new 16777216 6) sample_hi Bit1"
proof -
  have wf: "heap_wf (types_ops sample_statics) types_new (sane_type sample_statics types_new) sample_memory
      {2097152, 2097184, 2097216}"
    by (simp add: heap_wf_def object_wf_def sample_kinds sample_sane sample_sizes sample_pointers block_def)
  moreover have "\<forall>x \<in> {2097152, 2097184, 2097216}. hi_start sample_hi \<le> x \<and> \<not> obj_marked Bit1 sample_memory x"
    by (simp add: sample_hi_def obj_marked_def sample_memory_def)
  moreover have "space_ok (page_table_new 16777216 6)"
    by (simp add: space_ok_def page_table_new_def BASE_PAGE_SIZE_def)
  moreover have "(\<Sum>obj \<in> {obj. live sample_statics types_new sample_memory [[2097152]] obj}.
      alloc_need (obj_size (types_ops sample_statics) types_new sample_memory obj)) \<le> 195"
    using sum_reaches_le[OF wf, of "concat [[2097152]]"
      "\<lambda>obj. alloc_need (obj_size (types_ops sample_statics) types_new sample_memory obj)"]
    by (simp add: sample_sizes alloc_need_def)
  ultimately show ?thesis using wf
    by (simp add: mark_ready_def sample_hi_def page_table_new_def fresh_room_def BASE_PAGE_SIZE_def)
qed

text \<open>The sample heap as a world: one context with one root, two spaces of seven base pages.\<close>

definition sample_world :: "types_state world" where
  "sample_world =
     \<lparr>w_shared =
        \<lparr>ss_mm = \<lparr>mm_mapping = \<lparr>map_ptr = 2097152, map_len = 14680064\<rparr>,
           mm_page_table = (page_table_new 2097152 7)\<lparr>current_base_page := 1,
             slots := Some \<lparr>fp_kind = Small, fp_start = 2097152, fp_used_bytes = 96\<rparr> # replicate 6 None\<rparr>\<rparr>,
         ss_second_mm = [\<lparr>mm_mapping = \<lparr>map_ptr = 16777216, map_len = 14680064\<rparr>,
           mm_page_table = page_table_new 16777216 7\<rparr>],
         ss_contexts = [(1, \<lparr>cs_mm_context = mm_context_new, cs_root_set = [2097152]\<rparr>)],
         ss_mark_true_bit = Bit1, ss_type_manager = types_new\<rparr>,
      w_controller = controller_new, w_memory = sample_memory\<rparr>"

definition sample_kernel :: os_kernel where
  "sample_kernel = honest_kernel"

definition eager_schedule :: "copier_active \<Rightarrow> nat list" where
  "eager_schedule ca = eager_jobs (ca_page_table ca)"

lemma sample_kernel_ok: "kernel_ok sample_kernel"
  unfolding kernel_ok_def kernel_serves_def
proof (intro allI impI conjI)
  fix pt i p assume pt: "page_table_wf pt" "page_slot pt i p"
  have "8 dvd base_addr pt" "0 < base_addr pt" using page_table_wfD(1)[OF pt(1)] by (simp_all add: space_ok_def)
  then have "8 \<le> base_addr pt" by (simp add: dvd_imp_le)
  then have "8 + fp_size p < 2 ^ 64" using page_in_space(4,6)[OF pt] by linarith
  then show "\<exists>buf. os_buffer sample_kernel (fp_size p) = Some buf \<and> 8 dvd buf \<and> buf \<noteq> 0 \<and> buf + fp_size p < 2 ^ 64"
    by (simp add: sample_kernel_def honest_kernel_def)
  show "answers_ok (os_page_size sample_kernel) (fp_start p) (fp_size p) (os_move sample_kernel (fp_start p) (fp_size p))"
    by (simp add: sample_kernel_def honest_kernel_def)
qed (simp add: sample_kernel_def honest_mincore)

lemma eager_schedule_ok: "schedules_ok eager_schedule"
  unfolding schedules_ok_def schedule_ok_def
proof (intro allI impI conjI ballI)
  fix ca addr assume wf: "page_table_wf (ca_page_table ca)" and "addr \<in> set (eager_schedule ca)"
  then obtain p where p: "Some p \<in> set (slots (ca_page_table ca))" "addr = fp_start p"
    by (auto simp: eager_schedule_def eager_jobs_def split: option.splits)
  then obtain i where i: "page_slot (ca_page_table ca) i p" by (auto simp: in_set_conv_nth page_slot_def)
  have "fp_start p \<in> fp_span p" using page_in_space(5)[OF wf i] by (simp add: fp_span_def)
  with page_in_space(1)[OF wf i] p(2)
  show "addr \<in> block (base_addr (ca_page_table ca)) (pt_nr_pages (ca_page_table ca) * BASE_PAGE_SIZE)"
    by (auto simp: space_block_def simp del: in_block)
qed (simp add: eager_schedule_def)

lemma sample_live_sum:
  "(\<Sum>obj \<in> live_objects sample_statics sample_world.
     alloc_need (size_of sample_statics (w_memory sample_world) obj)) \<le> 195"
proof -
  let ?objs = "{2097152, 2097184, 2097216} :: object_ptr set"
  have wf: "lasting_heap sample_statics sample_memory ?objs" using sample_ready unfolding mark_ready_def by blast
  have roots: "set (concat (roots_of sample_world)) \<subseteq> ?objs" by (simp add: roots_of_def sample_world_def)
  have "(\<Sum>obj \<in> live_objects sample_statics sample_world. alloc_need (size_of sample_statics sample_memory obj)) \<le>
      (\<Sum>obj \<in> ?objs. alloc_need (size_of sample_statics sample_memory obj))"
    using sum_reaches_le[OF wf roots] by (simp add: live_objects_def sample_world_def)
  also have "\<dots> \<le> 195" by (simp add: sample_sizes alloc_need_def)
  finally show ?thesis by (simp add: sample_world_def)
qed

lemma sample_world_ready:
  "gc_ready sample_statics {2097152, 2097184, 2097216} None sample_world"
proof -
  let ?objs = "{2097152, 2097184, 2097216} :: object_ptr set"
  note m = sample_ready[unfolded mark_ready_def]
  have wf: "lasting_heap sample_statics sample_memory ?objs" using m by blast
  have roots: "set (concat (roots_of sample_world)) \<subseteq> ?objs" by (simp add: roots_of_def sample_world_def)
  have room: "(\<Sum>obj \<in> live_objects sample_statics sample_world. alloc_need (size_of sample_statics sample_memory obj))
      \<le> fresh_room 7"
    using sample_live_sum by (simp add: sample_world_def fresh_room_def BASE_PAGE_SIZE_def)
  have world: "w_memory sample_world = sample_memory"
    "ss_mark_true_bit (w_shared sample_world) = Bit1"
    "mm_area (ss_mm (w_shared sample_world)) = {2097152..<16777216}"
    by (simp_all add: sample_world_def mm_area_def block_def)
  have second: "\<exists>second. ss_second_mm (w_shared sample_world) = [second] \<and> mm_ok second \<and>
      mm_area (ss_mm (w_shared sample_world)) \<inter> mm_area second = {} \<and>
      pt_nr_pages (mm_page_table second) = pt_nr_pages (mm_page_table (ss_mm (w_shared sample_world)))"
    by (simp add: sample_world_def mm_ok_def mm_area_def space_ok_def page_table_new_def BASE_PAGE_SIZE_def block_def)
  have first: "mm_ok (ss_mm (w_shared sample_world))"
    by (simp add: sample_world_def mm_ok_def space_ok_def page_table_new_def BASE_PAGE_SIZE_def)
  have small: "small_heap (types_ops sample_statics) types_new sample_memory ?objs"
    by (simp add: small_heap_def sample_sizes)
  have area: "\<forall>obj \<in> ?objs. block obj (size_of sample_statics sample_memory obj) \<subseteq> {2097152..<16777216}"
    by (auto simp: sample_sizes)
  have nr: "pt_nr_pages (mm_page_table (ss_mm (w_shared sample_world))) = 7"
    by (simp add: sample_world_def page_table_new_def)
  have unmarked: "\<forall>obj \<in> ?objs. \<not> obj_marked Bit1 sample_memory obj \<and>
      block obj (size_of sample_statics sample_memory obj) \<subseteq> {2097152..<16777216}"
    using area by (simp add: obj_marked_def sample_memory_def del: in_block)
  show ?thesis
    unfolding gc_ready_def Let_def world nr
    by (intro conjI refl wf small unmarked roots room first second[unfolded world nr])
qed

end
