(* ===== verification/Mutator.thy ===== *)
theory Mutator
  imports Sample_World
begin

text \<open>
  What mutators do to the heap of the collector. A mutator allocates and initialises objects and
  roots them, changes its roots, and writes pointers and data into objects; \<open>Concurrent_Cycle\<close> lets
  cycles of the looper come in between. \<open>system_inv\<close> is the invariant of the whole: the heap is ready for a cycle (\<open>gc_ready\<close>) and
  is what the allocator handed out (\<open>heap_allocated\<close>), so that every allocation finds fresh memory
  and every cycle finds a well-formed heap. The steps are the operations of \<open>Shared_State\<close> and
  \<open>GC_Cycle\<close>; what a mutator must respect is written out in the rules.
\<close>

section \<open>Contexts\<close>

lemma update_same: "map_of al k = Some v \<Longrightarrow> AList.update k v al = al"
  by (induction al) auto

lemma set_update_subset: "set (AList.update k v al) \<subseteq> insert (k, v) (set al)"
  by (induction al) auto

lemma update_keys: "map_of al k = Some v' \<Longrightarrow> map fst (AList.update k v al) = map fst al"
  by (induction al) auto

lemma update_map_snd:
  "map_of al k = Some v' \<Longrightarrow> f v = f v' \<Longrightarrow> map (\<lambda>(_, x). f x) (AList.update k v al) = map (\<lambda>(_, x). f x) al"
  by (induction al) auto

definition set_roots :: "nat \<Rightarrow> object_ptr list \<Rightarrow> 'tm world \<Rightarrow> 'tm world" where
  "set_roots thread roots w =
     (let ss = w_shared w in
      case map_of (ss_contexts ss) thread of
        None \<Rightarrow> w
      | Some cs \<Rightarrow> w\<lparr>w_shared := ss\<lparr>ss_contexts := AList.update thread (cs\<lparr>cs_root_set := roots\<rparr>) (ss_contexts ss)\<rparr>\<rparr>)"

definition roots_in :: "nat \<Rightarrow> 'tm world \<Rightarrow> object_ptr list" where
  "roots_in thread w = (case map_of (ss_contexts (w_shared w)) thread of None \<Rightarrow> [] | Some cs \<Rightarrow> cs_root_set cs)"

lemma set_roots_simps [simp]:
  "ss_mm (w_shared (set_roots thread roots w)) = ss_mm (w_shared w)"
  "ss_second_mm (w_shared (set_roots thread roots w)) = ss_second_mm (w_shared w)"
  "ss_mark_true_bit (w_shared (set_roots thread roots w)) = ss_mark_true_bit (w_shared w)"
  "w_memory (set_roots thread roots w) = w_memory w"
  by (simp_all add: set_roots_def Let_def split: option.split)

lemma set_roots_contexts:
  assumes "(th, cs) \<in> set (ss_contexts (w_shared (set_roots thread roots w)))"
  obtains cs0 where "(th, cs0) \<in> set (ss_contexts (w_shared w))" "cs_mm_context cs = cs_mm_context cs0"
    "cs_root_set cs = cs_root_set cs0 \<or> cs_root_set cs = roots"
proof (cases "map_of (ss_contexts (w_shared w)) thread")
  case None
  with assms that show thesis by (simp add: set_roots_def)
next
  case (Some c)
  then have "(th, cs) \<in> insert (thread, c\<lparr>cs_root_set := roots\<rparr>) (set (ss_contexts (w_shared w)))"
    using assms set_update_subset by (fastforce simp: set_roots_def Let_def)
  with that map_of_SomeD[OF Some] show thesis by fastforce
qed

lemma set_roots_keys: "map fst (ss_contexts (w_shared (set_roots thread roots w))) = map fst (ss_contexts (w_shared w))"
  by (simp add: set_roots_def Let_def update_keys split: option.split)

lemma set_roots_roots:
  "set (concat (roots_of (set_roots thread roots w))) \<subseteq> set (concat (roots_of w)) \<union> set roots"
proof
  fix x assume "x \<in> set (concat (roots_of (set_roots thread roots w)))"
  then obtain th cs where cs: "(th, cs) \<in> set (ss_contexts (w_shared (set_roots thread roots w)))" "x \<in> set (cs_root_set cs)"
    by (auto simp: roots_of_def)
  from cs(1) obtain cs0 where "(th, cs0) \<in> set (ss_contexts (w_shared w))"
    "cs_root_set cs = cs_root_set cs0 \<or> cs_root_set cs = roots" by (rule set_roots_contexts)
  with cs(2) show "x \<in> set (concat (roots_of w)) \<union> set roots" by (force simp: roots_of_def)
qed

lemma roots_in_subset: "set (roots_in thread w) \<subseteq> set (concat (roots_of w))"
proof (cases "map_of (ss_contexts (w_shared w)) thread")
  case (Some cs)
  with map_of_SomeD[OF Some] show ?thesis by (auto simp: roots_in_def roots_of_def)
qed (simp add: roots_in_def)

section \<open>The heap and its allocator\<close>

text \<open>The objects lie in memory that the table has handed out; the buffer pages are in the table.\<close>

definition heap_allocated :: "static_memory \<Rightarrow> object_ptr set \<Rightarrow> types_state world \<Rightarrow> bool" where
  "heap_allocated statics objs w \<longleftrightarrow>
     (let ss = w_shared w; pt = mm_page_table (ss_mm ss) in
      page_table_wf pt \<and> distinct (map fst (ss_contexts ss)) \<and>
      (\<forall>(_, cs) \<in> set (ss_contexts ss). context_ok (cs_mm_context cs) pt) \<and>
      (\<forall>obj \<in> objs. block obj (size_of statics (w_memory w) obj) \<subseteq> used_addrs pt))"

lemma heap_allocatedD:
  assumes "heap_allocated statics objs w"
  shows "page_table_wf (mm_page_table (ss_mm (w_shared w)))" "distinct (map fst (ss_contexts (w_shared w)))"
    "(th, cs) \<in> set (ss_contexts (w_shared w)) \<Longrightarrow> context_ok (cs_mm_context cs) (mm_page_table (ss_mm (w_shared w)))"
    "obj \<in> objs \<Longrightarrow> block obj (size_of statics (w_memory w) obj) \<subseteq> used_addrs (mm_page_table (ss_mm (w_shared w)))"
  using assms unfolding heap_allocated_def Let_def by blast+

text \<open>The live objects fit into the other space.\<close>

definition within_budget :: "static_memory \<Rightarrow> types_state world \<Rightarrow> bool" where
  "within_budget statics w \<longleftrightarrow>
     (\<Sum>obj \<in> live_objects statics w. alloc_need (size_of statics (w_memory w) obj))
       \<le> fresh_room (pt_nr_pages (mm_page_table (ss_mm (w_shared w))))"

text \<open>How both conditions carry over a step of a mutator.\<close>

lemma ready_after:
  assumes ready: "gc_ready statics objs gc w"
    and mm: "ss_mm (w_shared w') = (ss_mm (w_shared w))\<lparr>mm_page_table := pt\<rparr>" "page_table_wf pt"
      "pt_grows (mm_page_table (ss_mm (w_shared w))) pt"
    and same: "ss_second_mm (w_shared w') = ss_second_mm (w_shared w)"
      "ss_mark_true_bit (w_shared w') = ss_mark_true_bit (w_shared w)"
    and heap: "lasting_heap statics (w_memory w') objs'" "small_heap (types_ops statics) types_new (w_memory w') objs'"
      "\<forall>obj \<in> objs'. \<not> obj_marked (ss_mark_true_bit (w_shared w)) (w_memory w') obj"
      "\<forall>obj \<in> objs'. block obj (size_of statics (w_memory w') obj) \<subseteq> used_addrs pt"
    and ctxs: "distinct (map fst (ss_contexts (w_shared w')))"
      "\<And>th cs. (th, cs) \<in> set (ss_contexts (w_shared w')) \<Longrightarrow> context_ok (cs_mm_context cs) pt"
    and roots: "set (concat (roots_of w')) \<subseteq> objs'" and budget: "within_budget statics w'"
  shows "gc_ready statics objs' gc w' \<and> heap_allocated statics objs' w'"
proof
  note g = gc_readyD[OF ready]
  have grown: "base_addr pt = base_addr (mm_page_table (ss_mm (w_shared w)))"
    "pt_nr_pages pt = pt_nr_pages (mm_page_table (ss_mm (w_shared w)))"
    using mm(3) by (simp_all add: pt_grows_def)
  then have ok: "mm_ok (ss_mm (w_shared w'))"
    using g(2) mm(1) page_table_wfD(1)[OF mm(2)] by (simp add: mm_ok_def)
  have area: "mm_area (ss_mm (w_shared w')) = mm_area (ss_mm (w_shared w))" "mm_area (ss_mm (w_shared w')) = space_block pt"
    using ok mm(1) by (simp_all add: mm_area_def mm_ok_def space_block_def)
  have "\<forall>obj \<in> objs'. block obj (size_of statics (w_memory w') obj) \<subseteq> mm_area (ss_mm (w_shared w'))"
    using heap(4) used_in_space_block[OF mm(2)] unfolding area(2) by blast
  moreover have "\<exists>second. ss_second_mm (w_shared w') = [second] \<and> mm_ok second \<and>
      mm_area (ss_mm (w_shared w')) \<inter> mm_area second = {} \<and>
      pt_nr_pages (mm_page_table second) = pt_nr_pages (mm_page_table (ss_mm (w_shared w')))"
    using gc_ready_second[OF ready] same(1) mm(1) grown(2) unfolding area(1) by (metis heap_mm.select_convs(2) heap_mm.surjective heap_mm.update_convs(2))
  ultimately show "gc_ready statics objs' gc w'"
    using g(1) ok heap(1-3) roots budget same(2)
    unfolding gc_ready_def Let_def within_budget_def by auto
  show "heap_allocated statics objs' w'"
    using mm(1,2) ctxs heap(4) unfolding heap_allocated_def Let_def by auto
qed

section \<open>Steps that change no object's place\<close>

text \<open>A smaller set of live objects of the same sizes stays within the budget.\<close>

lemma budget_mono:
  assumes "within_budget statics w" "finite (live_objects statics w)" "live_objects statics w' \<subseteq> live_objects statics w"
    and "\<And>obj. obj \<in> live_objects statics w \<Longrightarrow> size_of statics (w_memory w') obj = size_of statics (w_memory w) obj"
    and "pt_nr_pages (mm_page_table (ss_mm (w_shared w'))) = pt_nr_pages (mm_page_table (ss_mm (w_shared w)))"
  shows "within_budget statics w'"
proof -
  have "(\<Sum>obj \<in> live_objects statics w'. alloc_need (size_of statics (w_memory w') obj)) \<le>
      (\<Sum>obj \<in> live_objects statics w. alloc_need (size_of statics (w_memory w') obj))"
    by (rule sum_mono2) (use assms(2,3) in auto)
  also have "\<dots> = (\<Sum>obj \<in> live_objects statics w. alloc_need (size_of statics (w_memory w) obj))"
    using assms(4) by (intro sum.cong) auto
  finally show ?thesis using assms(1,5) by (simp add: within_budget_def)
qed

lemma live_closed:
  assumes "set (concat (roots_of w')) \<subseteq> S" "\<And>x. x \<in> S \<Longrightarrow> set (pointers_of statics (w_memory w') x) \<subseteq> S"
  shows "live_objects statics w' \<subseteq> S"
  unfolding live_objects_def using reaches_closed[OF _ assms] by blast

lemma pointers_live: "x \<in> live_objects statics w \<Longrightarrow> set (pointers_of statics (w_memory w) x) \<subseteq> live_objects statics w"
  unfolding live_objects_def by (auto intro: reaches.step)

lemma gc_ready_budget: "gc_ready statics objs gc w \<Longrightarrow> within_budget statics w"
  using gc_readyD(8) unfolding within_budget_def .

lemma gc_ready_finite: "gc_ready statics objs gc w \<Longrightarrow> finite (live_objects statics w)"
  using finite_subset[OF gc_ready_live(1)] gc_readyD(3)[of statics objs gc w] by (simp add: heap_wf_def)

text \<open>
  A step that leaves the spaces and every object's size and mark alone, and puts pointers to live
  objects only into objects and root sets, keeps the heap ready and makes nothing live.
\<close>

lemma ready_keep:
  assumes ready: "gc_ready statics objs gc w"
    and same: "ss_mm (w_shared w') = ss_mm (w_shared w)" "ss_second_mm (w_shared w') = ss_second_mm (w_shared w)"
      "ss_mark_true_bit (w_shared w') = ss_mark_true_bit (w_shared w)"
    and obj: "\<And>y. y \<in> objs \<Longrightarrow> object_wf (lasting statics) (w_memory w') y"
      "\<And>y. y \<in> objs \<Longrightarrow> size_of statics (w_memory w') y = size_of statics (w_memory w) y"
      "\<And>y. y \<in> objs \<Longrightarrow> obj_marked (ss_mark_true_bit (w_shared w)) (w_memory w') y \<longleftrightarrow>
        obj_marked (ss_mark_true_bit (w_shared w)) (w_memory w) y"
      "\<And>y. y \<in> objs \<Longrightarrow> set (pointers_of statics (w_memory w') y) \<subseteq>
        set (pointers_of statics (w_memory w) y) \<union> live_objects statics w"
    and roots: "set (concat (roots_of w')) \<subseteq> live_objects statics w"
  shows "gc_ready statics objs gc w' \<and> live_objects statics w' \<subseteq> live_objects statics w"
proof -
  note g = gc_readyD[OF ready] and sub = gc_ready_live(1)[OF ready]
  have live: "live_objects statics w' \<subseteq> live_objects statics w"
    using roots
  proof (rule live_closed)
    fix x assume x: "x \<in> live_objects statics w"
    then have "x \<in> objs" using sub by blast
    with obj(4) pointers_live[OF x] show "set (pointers_of statics (w_memory w') x) \<subseteq> live_objects statics w" by blast
  qed
  have "set (pointers_of statics (w_memory w') y) \<subseteq> objs" if "y \<in> objs" for y
    using obj(4)[OF that] g(3) sub that unfolding heap_wf_def by blast
  then have "lasting_heap statics (w_memory w') objs"
    using g(3) obj(1,2) unfolding heap_wf_def by simp
  moreover have "within_budget statics w'"
    using live obj(2) sub same(1)
    by (intro budget_mono[OF gc_ready_budget[OF ready] gc_ready_finite[OF ready]]) auto
  moreover have "\<exists>second. ss_second_mm (w_shared w') = [second] \<and> mm_ok second \<and>
      mm_area (ss_mm (w_shared w)) \<inter> mm_area second = {} \<and>
      pt_nr_pages (mm_page_table second) = pt_nr_pages (mm_page_table (ss_mm (w_shared w)))"
    using gc_ready_second[OF ready] same(2) by metis
  ultimately show ?thesis
    using g(1,2,4-6) obj(2,3) roots sub live same(1,3)
    unfolding gc_ready_def Let_def within_budget_def small_heap_def by auto
qed

lemma allocated_keep:
  assumes al: "heap_allocated statics objs w" and same: "ss_mm (w_shared w') = ss_mm (w_shared w)"
    and sizes: "\<And>y. y \<in> objs \<Longrightarrow> size_of statics (w_memory w') y = size_of statics (w_memory w) y"
    and ctxs: "distinct (map fst (ss_contexts (w_shared w')))"
      "\<And>th cs. (th, cs) \<in> set (ss_contexts (w_shared w')) \<Longrightarrow>
        context_ok (cs_mm_context cs) (mm_page_table (ss_mm (w_shared w)))"
  shows "heap_allocated statics objs w'"
  using heap_allocatedD(1,4)[OF al] same sizes ctxs unfolding heap_allocated_def Let_def by auto

lemma set_roots_ready:
  assumes ready: "gc_ready statics objs gc w" and roots: "set roots \<subseteq> live_objects statics w"
  shows "gc_ready statics objs gc (set_roots thread roots w) \<and>
    live_objects statics (set_roots thread roots w) \<subseteq> live_objects statics w"
proof (rule ready_keep[OF ready])
  show "set (concat (roots_of (set_roots thread roots w))) \<subseteq> live_objects statics w"
    using set_roots_roots[of thread roots w] roots_live[of w statics] roots by blast
qed (simp_all add: lasting_heap_objects[OF gc_readyD(3)[OF ready]])

lemma set_roots_allocated:
  assumes al: "heap_allocated statics objs w"
  shows "heap_allocated statics objs (set_roots thread roots w)"
proof (rule allocated_keep[OF al])
  show "distinct (map fst (ss_contexts (w_shared (set_roots thread roots w))))"
    unfolding set_roots_keys by (rule heap_allocatedD(2)[OF al])
  show "context_ok (cs_mm_context cs) (mm_page_table (ss_mm (w_shared w)))"
    if "(th, cs) \<in> set (ss_contexts (w_shared (set_roots thread roots w)))" for th cs
    using that by (rule set_roots_contexts) (simp add: heap_allocatedD(3)[OF al])
qed simp_all

text \<open>A thread gets a context.\<close>

definition add_context :: "nat \<Rightarrow> object_ptr list \<Rightarrow> 'tm world \<Rightarrow> 'tm world" where
  "add_context thread roots w = w\<lparr>w_shared := new_context thread roots (w_shared w)\<rparr>"

lemma add_context_simps [simp]:
  "ss_mm (w_shared (add_context thread roots w)) = ss_mm (w_shared w)"
  "ss_second_mm (w_shared (add_context thread roots w)) = ss_second_mm (w_shared w)"
  "ss_mark_true_bit (w_shared (add_context thread roots w)) = ss_mark_true_bit (w_shared w)"
  "ss_type_manager (w_shared (add_context thread roots w)) = ss_type_manager (w_shared w)"
  "ss_contexts (w_shared (add_context thread roots w)) =
     AList.update thread \<lparr>cs_mm_context = mm_context_new, cs_root_set = roots\<rparr> (ss_contexts (w_shared w))"
  "w_memory (add_context thread roots w) = w_memory w"
  by (simp_all add: add_context_def new_context_def)

lemma add_context_contexts:
  assumes "(th, cs) \<in> set (ss_contexts (w_shared (add_context thread roots w)))"
  obtains "cs = \<lparr>cs_mm_context = mm_context_new, cs_root_set = roots\<rparr>" | "(th, cs) \<in> set (ss_contexts (w_shared w))"
  using assms set_update_subset unfolding add_context_simps by fastforce

lemma add_context_roots:
  "set (concat (roots_of (add_context thread roots w))) \<subseteq> set (concat (roots_of w)) \<union> set roots"
proof
  fix x assume "x \<in> set (concat (roots_of (add_context thread roots w)))"
  then obtain th cs where cs: "(th, cs) \<in> set (ss_contexts (w_shared (add_context thread roots w)))" "x \<in> set (cs_root_set cs)"
    by (auto simp: roots_of_def)
  from cs(1) show "x \<in> set (concat (roots_of w)) \<union> set roots"
    by (rule add_context_contexts) (use cs(2) in \<open>force simp: roots_of_def\<close>)+
qed

lemma add_context_ready:
  assumes ready: "gc_ready statics objs gc w" and roots: "set roots \<subseteq> live_objects statics w"
  shows "gc_ready statics objs gc (add_context thread roots w) \<and>
    live_objects statics (add_context thread roots w) \<subseteq> live_objects statics w"
proof (rule ready_keep[OF ready])
  show "set (concat (roots_of (add_context thread roots w))) \<subseteq> live_objects statics w"
    using add_context_roots[of thread roots w] roots_live[of w statics] roots by blast
qed (simp_all add: lasting_heap_objects[OF gc_readyD(3)[OF ready]])

lemma add_context_allocated:
  assumes al: "heap_allocated statics objs w"
  shows "heap_allocated statics objs (add_context thread roots w)"
proof (rule allocated_keep[OF al])
  show "distinct (map fst (ss_contexts (w_shared (add_context thread roots w))))"
    unfolding add_context_simps by (rule distinct_update[OF heap_allocatedD(2)[OF al]])
  show "context_ok (cs_mm_context cs) (mm_page_table (ss_mm (w_shared w)))"
    if "(th, cs) \<in> set (ss_contexts (w_shared (add_context thread roots w)))" for th cs
    using that by (rule add_context_contexts) (simp_all add: heap_allocatedD(3)[OF al])
qed simp_all

lemma object_bound:
  assumes ready: "gc_ready statics objs gc w" and obj: "x \<in> objs"
  shows "x < 2 ^ 64"
proof -
  note g = gc_readyD[OF ready]
  have "x \<in> block x (size_of statics (w_memory w) x)"
    using types.obj_size_ge[OF lasting_heap_objects[OF g(3) obj]] by simp
  then show ?thesis using g(6)[OF obj] mm_area_bound[OF g(2)] by blast
qed

text \<open>A mutator writes a pointer to a live object, or null, into a field of a live object.\<close>

lemma object_apart:
  assumes "lasting_heap statics m objs" "x \<in> objs" "y \<in> objs" "x \<noteq> y" "a \<in> block x (size_of statics m x)"
  shows "a \<notin> block y (size_of statics m y)"
proof -
  have "block x (size_of statics m x) \<inter> block y (size_of statics m y) = {}"
    using assms(1-4) unfolding heap_wf_def by blast
  with assms(5) show ?thesis by blast
qed

lemma write_field:
  assumes heap: "lasting_heap statics m objs" and x: "x \<in> objs" and a: "a \<in> set (fields_of statics m x)"
    and p: "p < 2 ^ 64"
  defines "m' \<equiv> m(a := word_of_nat p)"
  shows "y \<in> objs \<Longrightarrow> object_wf (lasting statics) m' y"
    "y \<in> objs \<Longrightarrow> size_of statics m' y = size_of statics m y"
    "y \<in> objs \<Longrightarrow> obj_marked t m' y = obj_marked t m y"
    "y \<in> objs \<Longrightarrow> set (pointers_of statics m' y) \<subseteq> insert p (set (pointers_of statics m y))"
    "y \<in> objs \<Longrightarrow> fields_of statics m' y = fields_of statics m y"
    "y \<in> objs \<Longrightarrow> y \<noteq> x \<Longrightarrow> pointers_of statics m' y = pointers_of statics m y"
    "0 < p \<Longrightarrow> p \<in> set (pointers_of statics m' x)"
proof -
  note wf = lasting_heap_objects[OF heap]
  note f = types.field_addrs_wf[OF wf[OF x]]
  have in_x: "a \<in> block x (size_of statics m x)" "x + 16 \<le> a" using f(3) a by auto
  have al: "8 dvd x" using wf[OF x] by (simp add: object_wf_def)
  have hdr: "m' x = m x" "m' (x + 8) = m (x + 8)" using in_x(2) by (simp_all add: m'_def)
  have data: "m' (x + i) = m (x + i)" if "x + i \<notin> set (fields_of statics m x)" for i
    using that a by (auto simp: m'_def)
  note lay = types.same_layout[where obj' = x and m' = m', OF wf[OF x] al]
  have x1: "object_wf (lasting statics) m' x" "size_of statics m' x = size_of statics m x"
    by (rule lay(1,2); simp add: hdr data)+
  have "fields_of statics m' x = map (\<lambda>a. x + (a - x)) (fields_of statics m x)"
    by (rule lay(3); simp add: hdr data)
  then have x2: "fields_of statics m' x = fields_of statics m x" using f(3) by (auto intro!: map_idI)
  have u: "unat (word_of_nat p :: 64 word) = p" using p by (simp add: unsigned_of_nat take_bit_nat_eq_self)
  have "set (pointers_of statics m' x) \<subseteq> insert p (set (pointers_of statics m x))"
    unfolding types.iterate_known(2)[OF x1(1)] types.iterate_known(2)[OF wf[OF x]] x2 by (auto simp: m'_def u)
  moreover have "obj_marked t m' x = obj_marked t m x" using hdr by (simp add: obj_marked_def)
  moreover have other: "m' b = m b" if "y \<in> objs" "y \<noteq> x" "b \<in> block y (size_of statics m y)" for y b
    using object_apart[OF heap x that(1) _ in_x(1)] that(2,3) by (auto simp: m'_def simp del: in_block)
  ultimately show "y \<in> objs \<Longrightarrow> object_wf (lasting statics) m' y"
    "y \<in> objs \<Longrightarrow> size_of statics m' y = size_of statics m y"
    "y \<in> objs \<Longrightarrow> obj_marked t m' y = obj_marked t m y"
    "y \<in> objs \<Longrightarrow> set (pointers_of statics m' y) \<subseteq> insert p (set (pointers_of statics m y))"
    "y \<in> objs \<Longrightarrow> fields_of statics m' y = fields_of statics m y"
    "y \<in> objs \<Longrightarrow> y \<noteq> x \<Longrightarrow> pointers_of statics m' y = pointers_of statics m y"
    using types.same_object[OF wf other] x1 x2 by (cases "y = x"; simp add: subset_insertI del: in_block; fail)+
  show "p \<in> set (pointers_of statics m' x)" if "0 < p"
    unfolding types.iterate_known(2)[OF x1(1)] x2 using a that u by (force simp: m'_def)
qed

definition write_world :: "nat \<Rightarrow> nat \<Rightarrow> 'tm world \<Rightarrow> 'tm world" where
  "write_world a p w = w\<lparr>w_memory := (w_memory w)(a := word_of_nat p)\<rparr>"

lemma write_world_simps [simp]:
  "w_shared (write_world a p w) = w_shared w" "roots_of (write_world a p w) = roots_of w"
  "w_memory (write_world a p w) = (w_memory w)(a := word_of_nat p)"
  by (simp_all add: write_world_def roots_of_def)

lemma write_world_ready:
  assumes ready: "gc_ready statics objs gc w"
    and x: "x \<in> live_objects statics w" "a \<in> set (fields_of statics (w_memory w) x)"
    and p: "p = 0 \<or> p \<in> live_objects statics w"
  shows "gc_ready statics objs gc (write_world a p w) \<and>
    live_objects statics (write_world a p w) \<subseteq> live_objects statics w"
proof -
  let ?w = "write_world a p w"
  note g = gc_readyD[OF ready] and sub = gc_ready_live(1)[OF ready]
  have "p < 2 ^ 64"
  proof (cases "p = 0")
    case False
    with p sub show ?thesis using object_bound[OF ready] by blast
  qed simp
  moreover have "x \<in> objs" using x(1) sub by blast
  ultimately have wr: "y \<in> objs \<Longrightarrow> object_wf (lasting statics) (w_memory ?w) y"
    "y \<in> objs \<Longrightarrow> size_of statics (w_memory ?w) y = size_of statics (w_memory w) y"
    "y \<in> objs \<Longrightarrow> obj_marked t (w_memory ?w) y = obj_marked t (w_memory w) y"
    "y \<in> objs \<Longrightarrow> set (pointers_of statics (w_memory ?w) y) \<subseteq> insert p (set (pointers_of statics (w_memory w) y))" for y t
    using write_field[OF g(3) _ x(2), of p] by simp_all
  have "set (pointers_of statics (w_memory ?w) y) \<subseteq> set (pointers_of statics (w_memory w) y) \<union> live_objects statics w"
    if y: "y \<in> objs" for y
  proof -
    have "0 \<notin> set (pointers_of statics (w_memory ?w) y)"
      unfolding types.iterate_known(2)[OF wr(1)[OF y]] by simp
    with wr(4)[OF y] p show ?thesis by auto
  qed
  then show ?thesis using roots_live[of w statics]
    by (intro ready_keep[OF ready]) (simp_all only: wr write_world_simps(1,2))
qed

lemma write_world_size:
  assumes "gc_ready statics objs gc w" "x \<in> live_objects statics w" "a \<in> set (fields_of statics (w_memory w) x)"
    and "p = 0 \<or> p \<in> live_objects statics w" "y \<in> objs"
  shows "size_of statics (w_memory (write_world a p w)) y = size_of statics (w_memory w) y"
proof -
  have "x \<in> objs" using assms(2) gc_ready_live(1)[OF assms(1)] by blast
  moreover have "p < 2 ^ 64"
    using assms(4) gc_ready_live(1)[OF assms(1)] object_bound[OF assms(1)] by (cases "p = 0") auto
  ultimately show ?thesis using write_field(2)[OF gc_readyD(3)[OF assms(1)] _ assms(3) _ assms(5)] by simp
qed

text \<open>
  A mutator writes a word of data of a live object. What the type manager reads to find the object's
  size and fields, such as the length of an array, stays as it is.
\<close>

definition keeps_layout :: "static_memory \<Rightarrow> memory \<Rightarrow> object_ptr \<Rightarrow> nat \<Rightarrow> 64 word \<Rightarrow> bool" where
  "keeps_layout statics m x a v \<longleftrightarrow>
     x + 16 \<le> a \<and> a < x + size_of statics m x \<and> a \<notin> set (fields_of statics m x) \<and>
     size_of statics (m(a := v)) x = size_of statics m x \<and>
     fields_of statics (m(a := v)) x = fields_of statics m x"

lemma write_data:
  assumes heap: "lasting_heap statics m objs" and x: "x \<in> objs" and a: "keeps_layout statics m x a v"
  defines "m' \<equiv> m(a := v)"
  shows "y \<in> objs \<Longrightarrow> object_wf (lasting statics) m' y"
    "y \<in> objs \<Longrightarrow> size_of statics m' y = size_of statics m y"
    "y \<in> objs \<Longrightarrow> obj_marked t m' y = obj_marked t m y"
    "y \<in> objs \<Longrightarrow> pointers_of statics m' y = pointers_of statics m y"
    "y \<in> objs \<Longrightarrow> fields_of statics m' y = fields_of statics m y"
proof -
  note wf = lasting_heap_objects[OF heap]
  have k: "a \<in> block x (size_of statics m x)" "x + 16 \<le> a" "a \<notin> set (fields_of statics m x)"
    "size_of statics m' x = size_of statics m x" "fields_of statics m' x = fields_of statics m x"
    using a by (simp_all add: keeps_layout_def m'_def)
  have hdr: "m' x = m x" "m' (x + 8) = m (x + 8)" using k(2) by (simp_all add: m'_def)
  then have kind: "obj_kind m' x = obj_kind m x" "obj_marked t m' x = obj_marked t m x"
    by (simp_all add: obj_kind_def obj_marked_def)
  have wf': "object_wf (lasting statics) m' x" using wf[OF x] by (simp add: object_wf_def kind)
  have "pointers_of statics m' x = pointers_of statics m x"
    unfolding types.iterate_known(2)[OF wf'] types.iterate_known(2)[OF wf[OF x]] k(5)
    using k(3) by (auto simp: m'_def intro!: arg_cong[where f = "filter _"])
  moreover have other: "m' b = m b" if "y \<in> objs" "y \<noteq> x" "b \<in> block y (size_of statics m y)" for y b
    using object_apart[OF heap x that(1) _ k(1)] that(2,3) by (auto simp: m'_def simp del: in_block)
  moreover have "object_wf (lasting statics) m' y \<and> size_of statics m' y = size_of statics m y \<and>
      obj_marked t m' y = obj_marked t m y \<and> pointers_of statics m' y = pointers_of statics m y \<and>
      fields_of statics m' y = fields_of statics m y" if y: "y \<in> objs" "y \<noteq> x"
    using types.same_object[OF wf[OF y(1)] other[OF y]] by blast
  ultimately have "object_wf (lasting statics) m' y \<and> size_of statics m' y = size_of statics m y \<and>
      obj_marked t m' y = obj_marked t m y \<and> pointers_of statics m' y = pointers_of statics m y \<and>
      fields_of statics m' y = fields_of statics m y" if y: "y \<in> objs"
    using y wf' k(4,5) kind(2) by metis
  then show "y \<in> objs \<Longrightarrow> object_wf (lasting statics) m' y"
    "y \<in> objs \<Longrightarrow> size_of statics m' y = size_of statics m y"
    "y \<in> objs \<Longrightarrow> obj_marked t m' y = obj_marked t m y"
    "y \<in> objs \<Longrightarrow> pointers_of statics m' y = pointers_of statics m y"
    "y \<in> objs \<Longrightarrow> fields_of statics m' y = fields_of statics m y"
    by simp_all
qed

definition poke_world :: "nat \<Rightarrow> 64 word \<Rightarrow> 'tm world \<Rightarrow> 'tm world" where
  "poke_world a v w = w\<lparr>w_memory := (w_memory w)(a := v)\<rparr>"

lemma poke_world_simps [simp]:
  "w_shared (poke_world a v w) = w_shared w" "roots_of (poke_world a v w) = roots_of w"
  "w_memory (poke_world a v w) = (w_memory w)(a := v)"
  by (simp_all add: poke_world_def roots_of_def)

lemma poke_world_ready:
  assumes ready: "gc_ready statics objs gc w"
    and x: "x \<in> live_objects statics w" "keeps_layout statics (w_memory w) x a v"
  shows "gc_ready statics objs gc (poke_world a v w) \<and>
    live_objects statics (poke_world a v w) \<subseteq> live_objects statics w"
proof -
  have "x \<in> objs" using x(1) gc_ready_live(1)[OF ready] by blast
  note wr = write_data[OF gc_readyD(3)[OF ready] this x(2), folded poke_world_simps(3)]
  show ?thesis using roots_live[of w statics]
    by (intro ready_keep[OF ready]) (simp_all add: wr del: poke_world_simps(3))
qed

section \<open>Allocation\<close>

text \<open>The world after \<open>alloc_fast\<close> has got a block at \<open>obj\<close>.\<close>

definition allocated_world ::
    "nat \<Rightarrow> context_shared \<Rightarrow> mm_context \<Rightarrow> page_table \<Rightarrow> object_ptr \<Rightarrow> alloc_type \<Rightarrow> 'tm world \<Rightarrow> 'tm world" where
  "allocated_world thread cs ctx pt obj ty w =
     (let ss = w_shared w in
      w\<lparr>w_shared := ss\<lparr>ss_mm := (ss_mm ss)\<lparr>mm_page_table := pt\<rparr>,
          ss_contexts := AList.update thread (cs\<lparr>cs_mm_context := ctx\<rparr>) (ss_contexts ss)\<rparr>,
        w_memory := write_metadata (w_memory w) obj (metadata_new
          \<lparr>is_marked = bit_not (ss_mark_true_bit ss), write_barrier_activated = False, payload = to_obj_kind ty\<rparr>)\<rparr>)"

lemma alloc_fast_split:
  assumes wf: "context_wf (cs_mm_context cs, mm_page_table (ss_mm (w_shared w)))"
    and cs: "map_of (ss_contexts (w_shared w)) thread = Some cs"
    and sz: "get_size_of_alloc True ops (ss_type_manager (w_shared w)) ty = Inr sz" "8 dvd sz + extra" "sz + extra < 2 ^ 64"
  obtains (full) "alloc_fast checks ops thread ty extra w = Inr (w, None)"
      "ctx_bytes (cs_mm_context cs, mm_page_table (ss_mm (w_shared w))) \<le> sz + extra + 5 * BASE_PAGE_SIZE"
  | (some) ctx pt a where
      "alloc_fast checks ops thread ty extra w = Inr (allocated_world thread cs ctx pt a ty w, Some a)"
      "context_wf (ctx, pt)" "fresh_block (mm_page_table (ss_mm (w_shared w))) (sz + extra) pt a"
      "pt_grows (mm_page_table (ss_mm (w_shared w))) pt"
      "ctx_bytes (cs_mm_context cs, mm_page_table (ss_mm (w_shared w))) \<le> ctx_bytes (ctx, pt) + 2 * (sz + extra)"
  using wf sz(2)
proof (cases rule: ctx_alloc_spec)
  case full
  with cs alloc_size_in[OF sz(1)] sz(3) update_same[OF cs] show thesis
    by (intro that(1)) (simp_all add: alloc_fast_def mm_alloc_def Let_def)
next
  case (some ctx' pt' a i)
  have "a \<noteq> 0" using some(3) by (simp add: fresh_block_def)
  with some cs alloc_size_in[OF sz(1)] sz(3) show thesis
    by (intro that(2)[of ctx' pt' a])
      (simp_all add: alloc_fast_def mm_alloc_def Let_def init_object_def object_from_raw_def allocated_world_def)
qed

lemma alloc_fast_cases:
  assumes al: "heap_allocated statics objs w" and cs: "map_of (ss_contexts (w_shared w)) thread = Some cs"
    and sz: "get_size_of_alloc True ops (ss_type_manager (w_shared w)) ty = Inr sz" "8 dvd sz + extra" "sz + extra < 2 ^ 64"
  obtains (full) "alloc_fast checks ops thread ty extra w = Inr (w, None)"
      "ctx_bytes (cs_mm_context cs, mm_page_table (ss_mm (w_shared w))) \<le> sz + extra + 5 * BASE_PAGE_SIZE"
  | (some) ctx pt a where
      "alloc_fast checks ops thread ty extra w = Inr (allocated_world thread cs ctx pt a ty w, Some a)"
      "context_wf (ctx, pt)" "fresh_block (mm_page_table (ss_mm (w_shared w))) (sz + extra) pt a"
      "pt_grows (mm_page_table (ss_mm (w_shared w))) pt"
proof -
  have "context_wf (cs_mm_context cs, mm_page_table (ss_mm (w_shared w)))"
    using heap_allocatedD(1)[OF al] heap_allocatedD(3)[OF al map_of_SomeD[OF cs]] by (simp add: context_wf_def)
  from alloc_fast_split[OF this cs sz] show thesis by cases (auto intro: that)
qed

lemma allocated_world_simps [simp]:
  "ss_mm (w_shared (allocated_world thread cs ctx pt obj ty w)) = (ss_mm (w_shared w))\<lparr>mm_page_table := pt\<rparr>"
  "ss_second_mm (w_shared (allocated_world thread cs ctx pt obj ty w)) = ss_second_mm (w_shared w)"
  "ss_mark_true_bit (w_shared (allocated_world thread cs ctx pt obj ty w)) = ss_mark_true_bit (w_shared w)"
  "ss_contexts (w_shared (allocated_world thread cs ctx pt obj ty w)) =
     AList.update thread (cs\<lparr>cs_mm_context := ctx\<rparr>) (ss_contexts (w_shared w))"
  by (simp_all add: allocated_world_def Let_def)

lemma allocated_memory:
  "w_memory (allocated_world thread cs ctx pt obj ty w) a =
     (if a = obj then encode_word \<lparr>is_marked = bit_not (ss_mark_true_bit (w_shared w)),
        write_barrier_activated = False, payload = to_obj_kind ty\<rparr>
      else if a = obj + 8 then (case to_obj_kind ty of NotPlainOldData x \<Rightarrow> x | PlainOldData x \<Rightarrow> x)
      else w_memory w a)"
  by (simp add: allocated_world_def write_metadata_def metadata_new_def Let_def)

text \<open>The new object has the kind it was allocated with and is not marked.\<close>

lemma allocated_header:
  assumes "m obj = w_memory (allocated_world thread cs ctx pt obj ty w) obj"
    "m (obj + 8) = w_memory (allocated_world thread cs ctx pt obj ty w) (obj + 8)"
  shows "obj_kind m obj = to_obj_kind ty" "\<not> obj_marked (ss_mark_true_bit (w_shared w)) m obj"
proof -
  show "obj_kind m obj = to_obj_kind ty"
    using assms by (cases ty) (simp_all add: obj_kind_def allocated_memory bit_encode_word)
  show "\<not> obj_marked (ss_mark_true_bit (w_shared w)) m obj"
    using assms(1) by (cases "ss_mark_true_bit (w_shared w)") (simp_all add: obj_marked_def allocated_memory bit_encode_word)
qed

text \<open>A heap with a new object whose bytes belonged to no other.\<close>

lemma heap_insert:
  assumes heap: "lasting_heap statics m objs"
    and same: "\<And>x a. x \<in> objs \<Longrightarrow> a \<in> block x (size_of statics m x) \<Longrightarrow> m' a = m a"
    and apart: "\<And>x. x \<in> objs \<Longrightarrow> block x (size_of statics m x) \<inter> block obj n = {}"
    and obj: "object_wf (lasting statics) m' obj" "size_of statics m' obj \<le> n" "8 dvd size_of statics m' obj"
      "set (pointers_of statics m' obj) \<subseteq> insert obj objs"
  shows "lasting_heap statics m' (insert obj objs)"
proof -
  have o: "object_wf (lasting statics) m' x" "size_of statics m' x = size_of statics m x"
    "pointers_of statics m' x = pointers_of statics m x" if "x \<in> objs" for x
    using types.same_object(1-3)[OF lasting_heap_objects[OF heap that] same[OF that]] by simp_all
  have old: "object_wf (lasting statics) m' x \<and> 8 dvd size_of statics m' x \<and>
      set (pointers_of statics m' x) \<subseteq> insert obj objs" if "x \<in> objs" for x
    using o[OF that] heap that unfolding heap_wf_def by auto
  have new: "block x (size_of statics m' x) \<inter> block obj (size_of statics m' obj) = {}" if "x \<in> objs" for x
    using apart[OF that] obj(2) o(2)[OF that] that by fastforce
  have "block x (size_of statics m' x) \<inter> block y (size_of statics m' y) = {}"
    if "x \<in> objs" "y \<in> objs" "x \<noteq> y" for x y
    using heap o(2) that unfolding heap_wf_def by simp
  with new have "block x (size_of statics m' x) \<inter> block y (size_of statics m' y) = {}"
    if "x \<in> insert obj objs" "y \<in> insert obj objs" "x \<noteq> y" for x y
    using that by (metis Int_commute insertE)
  then show ?thesis using heap old obj unfolding heap_wf_def by auto
qed

text \<open>
  What the code that allocates must do before the next safepoint: write only the \<open>n\<close> bytes of data,
  and leave in them a value of the type, whose pointers are null or to objects it knows.
\<close>

definition initialised :: "static_memory \<Rightarrow> object_ptr set \<Rightarrow> memory \<Rightarrow> object_ptr \<Rightarrow> nat \<Rightarrow> memory \<Rightarrow> bool" where
  "initialised statics known m obj n m' \<longleftrightarrow>
     (\<forall>a. a \<notin> block (object_data obj) n \<longrightarrow> m' a = m a) \<and>
     size_of statics m' obj \<le> n + METADATA_SIZE \<and> 8 dvd size_of statics m' obj \<and>
     size_of statics m' obj < max_object_size Small \<and> set (pointers_of statics m' obj) \<subseteq> insert obj known"

definition lasting_alloc :: "static_memory \<Rightarrow> alloc_type \<Rightarrow> bool" where
  "lasting_alloc statics ty = (case ty of Typed ty_id \<Rightarrow> lasting statics ty_id | Plain _ \<Rightarrow> True)"

text \<open>The object is initialised and put into the root set of its thread.\<close>

definition root_object :: "nat \<Rightarrow> object_ptr \<Rightarrow> memory \<Rightarrow> 'tm world \<Rightarrow> 'tm world" where
  "root_object thread obj m w = set_roots thread (roots_in thread w @ [obj]) (w\<lparr>w_memory := m\<rparr>)"

lemma root_object_simps [simp]:
  "ss_mm (w_shared (root_object thread obj m w)) = ss_mm (w_shared w)"
  "ss_second_mm (w_shared (root_object thread obj m w)) = ss_second_mm (w_shared w)"
  "ss_mark_true_bit (w_shared (root_object thread obj m w)) = ss_mark_true_bit (w_shared w)"
  "w_memory (root_object thread obj m w) = m"
  "map fst (ss_contexts (w_shared (root_object thread obj m w))) = map fst (ss_contexts (w_shared w))"
  by (simp_all add: root_object_def set_roots_keys)

lemma root_object_roots:
  "set (concat (roots_of (root_object thread obj m w))) \<subseteq> insert obj (set (concat (roots_of w)))"
proof -
  have "roots_of (w\<lparr>w_memory := m\<rparr>) = roots_of w" by (simp add: roots_of_def)
  with set_roots_roots[of thread "roots_in thread w @ [obj]" "w\<lparr>w_memory := m\<rparr>"] roots_in_subset[of thread w]
  show ?thesis unfolding root_object_def by auto
qed

lemma allocated_world_roots:
  "map_of (ss_contexts (w_shared w)) thread = Some cs \<Longrightarrow>
   roots_of (allocated_world thread cs ctx pt obj ty w) = roots_of w"
  by (simp add: roots_of_def update_map_snd)

lemma allocate_ready:
  assumes ready: "gc_ready statics objs gc w" and al: "heap_allocated statics objs w"
    and cs: "map_of (ss_contexts (w_shared w)) thread = Some cs" and lasts: "lasting_alloc statics ty"
    and sz: "get_size_of_alloc True (types_ops statics) (ss_type_manager (w_shared w)) ty = Inr sz"
      "sz + extra = n + METADATA_SIZE" "8 dvd n" "n + METADATA_SIZE < 2 ^ 64"
    and alloc: "alloc_fast checks (types_ops statics) thread ty extra w = Inr (w1, Some obj)"
    and init: "initialised statics (live_objects statics w) (w_memory w1) obj n m'"
    and budget: "within_budget statics (root_object thread obj m' w1)"
  shows "gc_ready statics (insert obj objs) gc (root_object thread obj m' w1) \<and>
    heap_allocated statics (insert obj objs) (root_object thread obj m' w1) \<and> obj \<notin> objs"
proof -
  let ?m = "w_memory w" and ?pt0 = "mm_page_table (ss_mm (w_shared w))"
  note g = gc_readyD[OF ready] and h = heap_allocatedD[OF al]
  have "8 dvd sz + extra" "sz + extra < 2 ^ 64" using sz(2-4) by (simp_all add: METADATA_SIZE_def)
  from alloc_fast_cases[OF al cs sz(1) this, where checks = checks] alloc obtain ctx pt where
    w1: "w1 = allocated_world thread cs ctx pt obj ty w" and wf: "context_wf (ctx, pt)"
    and fresh: "fresh_block ?pt0 (n + METADATA_SIZE) pt obj" and grows: "pt_grows ?pt0 pt"
    using sz(2) by cases auto
  have keeps: "m' a = w_memory w1 a" if "a \<notin> block (object_data obj) n" for a
    using init that unfolding initialised_def by blast
  have i: "size_of statics m' obj \<le> n + METADATA_SIZE" "8 dvd size_of statics m' obj"
    "size_of statics m' obj < max_object_size Small"
    "set (pointers_of statics m' obj) \<subseteq> insert obj (live_objects statics w)"
    using init by (simp_all only: initialised_def)
  have pwf: "page_table_wf pt" "context_ok ctx pt" using wf by (simp_all add: context_wf_def)
  have hdr: "m' obj = w_memory w1 obj" "m' (obj + 8) = w_memory w1 (obj + 8)"
    by (rule keeps; simp add: object_data_def METADATA_SIZE_def)+
  note kind = allocated_header[OF hdr[unfolded w1]]
  have wf_obj: "object_wf (lasting statics) m' obj"
    using fresh lasts kind(1) by (cases ty) (simp_all add: object_wf_def fresh_block_def lasting_alloc_def)
  have apart: "block x (size_of statics ?m x) \<inter> block obj (n + METADATA_SIZE) = {}" if "x \<in> objs" for x
    using h(4)[OF that] fresh unfolding fresh_block_def by blast
  have outside: "m' a = ?m a" if "a \<notin> block obj (n + METADATA_SIZE)" for a
  proof -
    have "a \<notin> block (object_data obj) n" using that by (auto simp: object_data_def METADATA_SIZE_def)
    then have "m' a = w_memory w1 a" by (rule keeps)
    also have "\<dots> = ?m a" using that by (auto simp: w1 allocated_memory METADATA_SIZE_def)
    finally show ?thesis .
  qed
  have same: "m' a = ?m a" if "x \<in> objs" "a \<in> block x (size_of statics ?m x)" for x a
    using apart[OF that(1)] that(2) outside by blast
  have old: "size_of statics m' x = size_of statics ?m x" "obj_marked t m' x = obj_marked t ?m x" if "x \<in> objs" for x t
    using types.same_object(2,6)[OF lasting_heap_objects[OF g(3) that] same[OF that]] by simp_all
  have heap: "lasting_heap statics m' (insert obj objs)"
    using i gc_ready_live(1)[OF ready] by (intro heap_insert[OF g(3) same apart wf_obj]) auto
  have "obj \<in> block obj (n + METADATA_SIZE)" by (simp add: METADATA_SIZE_def)
  then have new: "obj \<notin> objs"
    using apart[of obj] types.obj_size_ge[OF lasting_heap_objects[OF g(3), of obj]] by fastforce
  have used: "used_addrs pt = used_addrs ?pt0 \<union> block obj (n + METADATA_SIZE)" using fresh by (simp add: fresh_block_def)
  have "gc_ready statics (insert obj objs) gc (root_object thread obj m' w1) \<and>
    heap_allocated statics (insert obj objs) (root_object thread obj m' w1)"
  proof (rule ready_after[OF ready _ pwf(1) grows])
    show "\<forall>x \<in> insert obj objs. \<not> obj_marked (ss_mark_true_bit (w_shared w)) (w_memory (root_object thread obj m' w1)) x"
      using kind(2) g(5) old(2) by simp
    show "small_heap (types_ops statics) types_new (w_memory (root_object thread obj m' w1)) (insert obj objs)"
      using g(4) i old(1) by (simp add: small_heap_def)
    have "block obj (size_of statics m' obj) \<subseteq> used_addrs pt" unfolding used using i by auto
    then show "\<forall>x \<in> insert obj objs. block x (size_of statics (w_memory (root_object thread obj m' w1)) x) \<subseteq> used_addrs pt"
      using h(4) old(1) used by auto
    show "set (concat (roots_of (root_object thread obj m' w1))) \<subseteq> insert obj objs"
      using root_object_roots[of thread obj m' w1] g(7) allocated_world_roots[OF cs] unfolding w1 by fastforce
    show "context_ok (cs_mm_context c) pt"
      if "(th, c) \<in> set (ss_contexts (w_shared (root_object thread obj m' w1)))" for th c
      using that unfolding root_object_def
    proof (rule set_roots_contexts)
      fix c0 assume c0: "(th, c0) \<in> set (ss_contexts (w_shared (w1\<lparr>w_memory := m'\<rparr>)))" "cs_mm_context c = cs_mm_context c0"
      then have "(th, c0) \<in> insert (thread, cs\<lparr>cs_mm_context := ctx\<rparr>) (set (ss_contexts (w_shared w)))"
        using set_update_subset by (fastforce simp: w1)
      then show ?thesis using c0(2) pwf(2) context_ok_grows[OF h(3) grows] by auto
    qed
  qed (use heap budget h(2) update_keys[OF cs] in \<open>simp_all add: w1\<close>)
  with new show ?thesis by blast
qed

section \<open>Collection\<close>

lemma cycle_placed:
  assumes ready: "gc_ready statics objs gc w" and res: "cycle_result statics objs w second order st M"
  shows "page_table_wf (snd (ms_alloc st))"
    "x \<in> live_objects statics w \<Longrightarrow>
      block (new_place order x) (size_of statics M (new_place order x)) \<subseteq> used_addrs (snd (ms_alloc st))"
proof -
  obtain tm where "copy_ready (types_ops statics) tm (sane_type statics tm) (ms_memory st)
      (heap_info_of (ss_mm (w_shared w)) second) order (copier_of (heap_info_of (ss_mm (w_shared w)) second) st (ss_mm (w_shared w)))"
    using cycle_resultD(3)[OF res] ..
  from copy_readyD(1)[OF this] show "page_table_wf (snd (ms_alloc st))" by simp
  show "block (new_place order x) (size_of statics M (new_place order x)) \<subseteq> used_addrs (snd (ms_alloc st))"
    if x: "x \<in> live_objects statics w"
  proof -
    from ready res x obtain d where "new_place order x = d"
      "block d (size_of statics (w_memory w) x) \<subseteq> used_addrs (snd (ms_alloc st))" by (rule cycle_place)
    then show ?thesis using cycle_object(1)[OF ready res x] by (simp add: relocated_def del: in_block)
  qed
qed

lemma cycle_allocated:
  assumes ready: "gc_ready statics objs gc w" and res: "cycle_result statics objs w second order st M"
    and ctxs: "distinct (map fst (ss_contexts (w_shared w)))"
      "\<forall>(_, cs) \<in> set (ss_contexts (w_shared w)). local_buffer_page (cs_mm_context cs) = None"
  shows "heap_allocated statics (new_place order ` live_objects statics w) (cycle_world w second order st M)"
proof -
  have "context_ok (cs_mm_context cs) (snd (ms_alloc st))" if "(th, cs) \<in> set (ss_contexts (w_shared w))" for th cs
    using ctxs(2) that by (auto simp: context_ok_def)
  with cycle_placed[OF ready res] show ?thesis
    using ctxs(1) unfolding heap_allocated_def Let_def
    by (auto simp: cycle_world_def Let_def o_def split_def simp del: in_block)
qed

lemma flush_live: "live_objects statics (w\<lparr>w_shared := flush_contexts (w_shared w)\<rparr>) = live_objects statics w"
  by (simp add: live_objects_def roots_of_def flush_contexts_def o_def split_def)

text \<open>
  What a mutator finds free after a cycle: its buffer page is gone, and what the marker had left in its
  own is lost to it.
\<close>

lemma cycle_room:
  assumes res: "cycle_result statics objs w second order st M"
    and ctx: "local_buffer_page ctx = None"
  shows "fresh_room (pt_nr_pages (mm_page_table second)) \<le> ctx_room (ctx, snd (ms_alloc st)) + BASE_PAGE_SIZE +
    (\<Sum>obj \<in> live_objects statics w. alloc_need (size_of statics (w_memory w) obj))"
proof -
  note r = cycle_resultD[OF res]
  obtain c pt where a: "ms_alloc st = (c, pt)" by (cases "ms_alloc st")
  have "context_wf (c, pt)" using mark_invD(9)[OF r(1)] a by simp
  then have "buffer_free pt (local_buffer_page c) \<le> BASE_PAGE_SIZE"
    by (intro small_buffer_free_le) (simp add: context_wf_def)
  then have "ctx_room (c, pt) \<le> ctx_room (ctx, pt) + BASE_PAGE_SIZE"
    using ctx by (simp add: ctx_room_def ctx_bytes_def)
  with r(7) a show ?thesis by simp
qed

lemma collect_ready:
  assumes ready: "gc_ready statics objs gc w" and al: "heap_allocated statics objs w"
    and os: "kernel_ok os" and jobs: "schedules_ok schedule"
  shows "\<exists>f gc' w'. gc_thread_cycle (types_ops statics) checks os schedule quiet gc w = Some (Inr (gc', w')) \<and>
    inj_on f (live_objects statics w) \<and>
    (\<forall>obj \<in> live_objects statics w. relocated statics (w_memory w) (w_memory w') f obj) \<and>
    roots_of w' = map (map f) (roots_of w) \<and>
    gc_ready statics (f ` live_objects statics w) (Some gc') w' \<and>
    heap_allocated statics (f ` live_objects statics w) w' \<and>
    map fst (ss_contexts (w_shared w')) = map fst (ss_contexts (w_shared w)) \<and>
    pt_nr_pages (mm_page_table (ss_mm (w_shared w'))) = pt_nr_pages (mm_page_table (ss_mm (w_shared w))) \<and>
    (\<forall>(_, cs) \<in> set (ss_contexts (w_shared w')). fresh_room (pt_nr_pages (mm_page_table (ss_mm (w_shared w)))) \<le>
      ctx_room (cs_mm_context cs, mm_page_table (ss_mm (w_shared w'))) + BASE_PAGE_SIZE +
      (\<Sum>obj \<in> live_objects statics w. alloc_need (size_of statics (w_memory w) obj)))"
proof -
  let ?w = "w\<lparr>w_shared := flush_contexts (w_shared w)\<rparr>"
  note flush = flush_ready[OF ready]
  from flush(1) obtain second where s: "ss_second_mm (w_shared ?w) = [second]"
    and nr: "pt_nr_pages (mm_page_table second) = pt_nr_pages (mm_page_table (ss_mm (w_shared ?w)))"
    by (rule gc_ready_second)
  from quiet_cycle_runs[OF flush(1) os jobs s] obtain order st M where
    r: "cycle_result statics objs ?w second order st M"
      "do_cycle (types_ops statics) checks os schedule quiet gc ?w =
        Some (Inr (gc_init None, cycle_world ?w second order st M))" .
  have mem: "w_memory (cycle_world ?w second order st M) = M" by (simp add: cycle_world_def Let_def)
  have "heap_allocated statics (new_place order ` live_objects statics ?w) (cycle_world ?w second order st M)"
    using heap_allocatedD(2)[OF al]
    by (intro cycle_allocated[OF flush(1) r(1)]) (auto simp: flush_contexts_def flush_local_buf_def o_def split_def)
  moreover have "pt_nr_pages (mm_page_table (ss_mm (w_shared (cycle_world ?w second order st M)))) =
      pt_nr_pages (mm_page_table (ss_mm (w_shared w)))"
    using cycle_resultD(4)[OF r(1)] nr by (simp add: cycle_world_def flush_contexts_def Let_def)
  moreover have "map fst (ss_contexts (w_shared (cycle_world ?w second order st M))) = map fst (ss_contexts (w_shared w))"
    by (simp add: cycle_world_def flush_contexts_def Let_def o_def split_def)
  moreover have "fresh_room (pt_nr_pages (mm_page_table (ss_mm (w_shared w)))) \<le>
      ctx_room (cs_mm_context cs, mm_page_table (ss_mm (w_shared (cycle_world ?w second order st M)))) + BASE_PAGE_SIZE +
      (\<Sum>obj \<in> live_objects statics w. alloc_need (size_of statics (w_memory w) obj))"
    if "(th, cs) \<in> set (ss_contexts (w_shared (cycle_world ?w second order st M)))" for th cs
  proof -
    have "local_buffer_page (cs_mm_context cs) = None"
      using that by (auto simp: cycle_world_def flush_contexts_def flush_local_buf_def Let_def)
    from cycle_room[OF r(1) this] nr show ?thesis
      by (simp add: cycle_world_def flush_contexts_def Let_def live_objects_def roots_of_def o_def split_def)
  qed
  ultimately show ?thesis
    using r mem cycle_inj[OF flush(1) r(1)] cycle_object(1)[OF flush(1) r(1)] cycle_ready[OF flush(1) s r(1)]
    cycle_world_roots[of ?w second order st M] flush(2)
    unfolding gc_thread_cycle_def quiet_def flush_live
    by (intro exI[of _ "new_place order"] exI) (auto simp: quiet_def)
qed

section \<open>The system\<close>

text \<open>What mutators do besides allocating: none of it moves an object or changes a size.\<close>

inductive mutation :: "static_memory \<Rightarrow> types_state world \<Rightarrow> types_state world \<Rightarrow> bool" for statics where
  add_thread: "set roots \<subseteq> live_objects statics w \<Longrightarrow> mutation statics w (add_context thread roots w)"
| reroot: "set roots \<subseteq> live_objects statics w \<Longrightarrow> mutation statics w (set_roots thread roots w)"
| store_pointer: "\<lbrakk> x \<in> live_objects statics w; a \<in> set (fields_of statics (w_memory w) x);
      p = 0 \<or> p \<in> live_objects statics w \<rbrakk> \<Longrightarrow>
    mutation statics w (write_world a p w)"
| store_data: "\<lbrakk> x \<in> live_objects statics w; keeps_layout statics (w_memory w) x a v \<rbrakk> \<Longrightarrow>
    mutation statics w (poke_world a v w)"

inductive mutator_step :: "static_memory \<Rightarrow> types_state world \<Rightarrow> types_state world \<Rightarrow> bool" for statics where
  allocate: "\<lbrakk> map_of (ss_contexts (w_shared w)) thread = Some cs; lasting_alloc statics ty;
      get_size_of_alloc True (types_ops statics) (ss_type_manager (w_shared w)) ty = Inr sz;
      sz + extra = n + METADATA_SIZE; 8 dvd n; n + METADATA_SIZE < 2 ^ 64;
      alloc_fast checks (types_ops statics) thread ty extra w = Inr (w1, Some obj);
      initialised statics (live_objects statics w) (w_memory w1) obj n m;
      within_budget statics (root_object thread obj m w1) \<rbrakk> \<Longrightarrow>
    mutator_step statics w (root_object thread obj m w1)"
| mutate: "mutation statics w w' \<Longrightarrow> mutator_step statics w w'"

lemma mutation_ready:
  assumes "mutation statics w w'" "gc_ready statics objs gc w"
  shows "gc_ready statics objs gc w' \<and> live_objects statics w' \<subseteq> live_objects statics w"
  using assms(1)
proof cases
  case (add_thread roots thread)
  then show ?thesis using add_context_ready[OF assms(2)] by simp
next
  case (reroot roots thread)
  then show ?thesis using set_roots_ready[OF assms(2)] by simp
next
  case (store_pointer x a p)
  then show ?thesis using write_world_ready[OF assms(2)] by simp
next
  case (store_data x a v)
  then show ?thesis using poke_world_ready[OF assms(2)] by simp
qed

lemma mutation_allocated:
  assumes "mutation statics w w'" and ready: "gc_ready statics objs gc w" and al: "heap_allocated statics objs w"
  shows "heap_allocated statics objs w'"
  using assms(1)
proof cases
  case (store_pointer x a p)
  show ?thesis unfolding store_pointer(1)
    by (rule allocated_keep[OF al])
      (use write_world_size[OF ready store_pointer(2-4)] heap_allocatedD(2,3)[OF al] in \<open>auto simp del: write_world_simps(3)\<close>)
next
  case (store_data x a v)
  then have "x \<in> objs" using gc_ready_live(1)[OF ready] by blast
  with write_data(2)[OF gc_readyD(3)[OF ready] _ store_data(3)] heap_allocatedD(2,3)[OF al]
  show ?thesis unfolding store_data(1) by (intro allocated_keep[OF al]) auto
qed (simp_all add: al set_roots_allocated add_context_allocated)

definition system_inv :: "static_memory \<Rightarrow> persistent_state option \<Rightarrow> types_state world \<Rightarrow> bool" where
  "system_inv statics gc w \<longleftrightarrow> (\<exists>objs. gc_ready statics objs gc w \<and> heap_allocated statics objs w)"

lemma mutator_step_inv:
  assumes "mutator_step statics w w'" "system_inv statics gc w"
  shows "system_inv statics gc w'"
proof -
  from assms(2) obtain objs where inv: "gc_ready statics objs gc w" "heap_allocated statics objs w"
    by (auto simp: system_inv_def)
  from assms(1) have "\<exists>objs'. gc_ready statics objs' gc w' \<and> heap_allocated statics objs' w'"
  proof cases
    case (allocate thread cs ty sz extra n checks w1 obj m)
    from allocate_ready[OF inv allocate(2-10)] show ?thesis unfolding allocate(1) by blast
  next
    case mutate
    from mutation_ready[OF this inv(1)] mutation_allocated[OF this inv] show ?thesis by blast
  qed
  then show ?thesis by (simp add: system_inv_def)
qed

section \<open>Allocation that waits for a collection\<close>

text \<open>
  \<open>start_and_wait_cycle\<close> as its caller sees it when nobody else runs: one cycle of the looper. A
  collector that panics never wakes its waiters.
\<close>

definition collect_and_wait ::
    "'tm type_manager_ops \<Rightarrow> bool \<Rightarrow> os_kernel \<Rightarrow> (copier_active \<Rightarrow> nat list) \<Rightarrow> persistent_state option
     \<Rightarrow> 'tm world \<Rightarrow> 'tm world res" where
  "collect_and_wait ops checks os schedule gc w =
     (case gc_thread_cycle ops checks os schedule quiet gc w of
        Some (Inr (_, w)) \<Rightarrow> Inr w
      | _ \<Rightarrow> Inl Blocked)"

lemma lasting_alloc_size:
  "lasting_alloc statics ty \<Longrightarrow>
   get_size_of_alloc True (types_ops statics) tm ty = get_size_of_alloc True (types_ops statics) tm' ty"
  by (cases ty) (simp_all add: lasting_alloc_def types_static_size_def lasting_get_type[where ts = tm] lasting_get_type[where ts = tm'])

text \<open>Allocating leaves every object of the heap, and what is live, as it was.\<close>

lemma allocated_unchanged:
  fixes ty :: alloc_type and ctx :: mm_context
  assumes ready: "gc_ready statics objs gc w" and al: "heap_allocated statics objs w"
    and cs: "map_of (ss_contexts (w_shared w)) thread = Some cs"
    and fresh: "fresh_block (mm_page_table (ss_mm (w_shared w))) n pt a" "16 \<le> n"
  defines "w' \<equiv> allocated_world thread cs ctx pt a ty w"
  shows "live_objects statics w' = live_objects statics w"
    "x \<in> objs \<Longrightarrow> size_of statics (w_memory w') x = size_of statics (w_memory w) x"
    "x \<in> objs \<Longrightarrow> block x (size_of statics (w_memory w) x) \<inter> block a n = {}"
proof -
  note g = gc_readyD[OF ready] and h = heap_allocatedD[OF al]
  have apart: "block x (size_of statics (w_memory w) x) \<inter> block a n = {}" if "x \<in> objs" for x
    using h(4)[OF that] fresh(1) unfolding fresh_block_def by blast
  have same: "w_memory w' b = w_memory w b" if "x \<in> objs" "b \<in> block x (size_of statics (w_memory w) x)" for x b
  proof -
    have "b \<notin> block a n" using apart[OF that(1)] that(2) by blast
    then show ?thesis using fresh(2) by (auto simp: w'_def allocated_memory)
  qed
  have kept: "size_of statics (w_memory w') x = size_of statics (w_memory w) x"
    "pointers_of statics (w_memory w') x = pointers_of statics (w_memory w) x" if "x \<in> objs" for x
    using types.same_object(2,3)[OF lasting_heap_objects[OF g(3) that] same[OF that]] by simp_all
  have roots: "roots_of w' = roots_of w" unfolding w'_def by (rule allocated_world_roots[OF cs])
  have "live_objects statics w' \<subseteq> live_objects statics w"
    by (rule live_closed)
      (use roots roots_live[of w] kept(2) gc_ready_live(1)[OF ready] pointers_live[of _ statics w] in \<open>auto simp: subset_iff\<close>)
  moreover have "live_objects statics w \<subseteq> live_objects statics w' \<inter> objs"
    by (rule live_closed)
      (use roots roots_live[of w'] kept(2) g(3,7) pointers_live[of _ statics w'] in \<open>auto simp: subset_iff heap_wf_def\<close>)
  ultimately show "live_objects statics w' = live_objects statics w" by blast
  show "x \<in> objs \<Longrightarrow> size_of statics (w_memory w') x = size_of statics (w_memory w) x" by (rule kept(1))
  show "x \<in> objs \<Longrightarrow> block x (size_of statics (w_memory w) x) \<inter> block a n = {}" by (rule apart)
qed

text \<open>What fits into a space is less than the address space.\<close>

lemma request_bound:
  assumes "gc_ready statics objs gc w" "alloc_need sz \<le> fresh_room (pt_nr_pages (mm_page_table (ss_mm (w_shared w))))"
  shows "sz < 2 ^ 64"
proof -
  have "space_ok (mm_page_table (ss_mm (w_shared w)))" using gc_readyD(2)[OF assms(1)] by (simp add: mm_ok_def)
  then have "pt_nr_pages (mm_page_table (ss_mm (w_shared w))) * BASE_PAGE_SIZE < 2 ^ 64" by (simp add: space_ok_def)
  moreover have "fresh_room n \<le> n * BASE_PAGE_SIZE" for n unfolding fresh_room_def by (intro mult_le_mono1) simp
  ultimately have "alloc_need sz < 2 ^ 64" using assms(2) by (metis le_less_trans le_trans)
  then show ?thesis by (simp add: alloc_need_def)
qed

lemma allocated_apart:
  assumes "gc_ready statics objs gc w" "heap_allocated statics objs w" "map_of (ss_contexts (w_shared w)) thread = Some cs"
    and "fresh_block (mm_page_table (ss_mm (w_shared w))) n pt a" "16 \<le> n"
  shows "\<forall>x \<in> live_objects statics (allocated_world thread cs ctx pt a ty w).
    block x (size_of statics (w_memory (allocated_world thread cs ctx pt a ty w)) x) \<inter> block a n = {}"
  using allocated_unchanged(1,2)[OF assms, where ctx = ctx and ty = ty] allocated_unchanged(3)[OF assms]
    gc_ready_live(1)[OF assms(1)] by (metis subsetD)

text \<open>After a cycle an allocation that fits beside the live objects succeeds.\<close>

lemma alloc_after_cycle:
  assumes ready: "gc_ready statics objs gc w" and al: "heap_allocated statics objs w"
    and os: "kernel_ok os" and jobs: "schedules_ok schedule"
    and cs: "map_of (ss_contexts (w_shared w)) thread = Some cs" and lasts: "lasting_alloc statics ty"
    and size: "get_size_of_alloc True (types_ops statics) (ss_type_manager (w_shared w)) ty = Inr sz" "8 dvd sz + extra"
    and budget: "(\<Sum>obj \<in> live_objects statics w. alloc_need (size_of statics (w_memory w) obj)) + alloc_need (sz + extra) +
      BASE_PAGE_SIZE \<le> fresh_room (pt_nr_pages (mm_page_table (ss_mm (w_shared w))))"
  obtains f gc' w' cs' ctx pt a where
    "collect_and_wait (types_ops statics) checks os schedule gc w = Inr w'" "inj_on f (live_objects statics w)"
    "\<forall>obj \<in> live_objects statics w. relocated statics (w_memory w) (w_memory w') f obj"
    "roots_of w' = map (map f) (roots_of w)"
    "map fst (ss_contexts (w_shared w')) = map fst (ss_contexts (w_shared w))"
    "pt_nr_pages (mm_page_table (ss_mm (w_shared w'))) = pt_nr_pages (mm_page_table (ss_mm (w_shared w)))"
    "gc_ready statics (f ` live_objects statics w) (Some gc') w'" "heap_allocated statics (f ` live_objects statics w) w'"
    "map_of (ss_contexts (w_shared w')) thread = Some cs'"
    "get_size_of_alloc True (types_ops statics) (ss_type_manager (w_shared w')) ty = Inr sz"
    "alloc_fast checks (types_ops statics) thread ty extra w' = Inr (allocated_world thread cs' ctx pt a ty w', Some a)"
    "fresh_block (mm_page_table (ss_mm (w_shared w'))) (sz + extra) pt a"
proof -
  from collect_ready[OF ready al os jobs, of checks] obtain f gc' w' where
    w': "gc_thread_cycle (types_ops statics) checks os schedule quiet gc w = Some (Inr (gc', w'))"
      "inj_on f (live_objects statics w)"
      "\<forall>obj \<in> live_objects statics w. relocated statics (w_memory w) (w_memory w') f obj"
      "roots_of w' = map (map f) (roots_of w)"
      "map fst (ss_contexts (w_shared w')) = map fst (ss_contexts (w_shared w))"
      "pt_nr_pages (mm_page_table (ss_mm (w_shared w'))) = pt_nr_pages (mm_page_table (ss_mm (w_shared w)))"
      "gc_ready statics (f ` live_objects statics w) (Some gc') w'" "heap_allocated statics (f ` live_objects statics w) w'"
      "\<forall>(_, cs) \<in> set (ss_contexts (w_shared w')). fresh_room (pt_nr_pages (mm_page_table (ss_mm (w_shared w)))) \<le>
        ctx_room (cs_mm_context cs, mm_page_table (ss_mm (w_shared w'))) + BASE_PAGE_SIZE +
        (\<Sum>obj \<in> live_objects statics w. alloc_need (size_of statics (w_memory w) obj))" by blast
  have "thread \<in> fst ` set (ss_contexts (w_shared w))" using map_of_SomeD[OF cs] by force
  then have "thread \<in> fst ` set (ss_contexts (w_shared w'))" using w'(5) by (metis set_map)
  then obtain cs' where cs': "map_of (ss_contexts (w_shared w')) thread = Some cs'"
    by (metis map_of_eq_None_iff not_Some_eq)
  have size': "get_size_of_alloc True (types_ops statics) (ss_type_manager (w_shared w')) ty = Inr sz"
    using lasting_alloc_size[OF lasts] size(1) by metis
  have room: "alloc_need (sz + extra) \<le> ctx_room (cs_mm_context cs', mm_page_table (ss_mm (w_shared w')))"
    using w'(9) map_of_SomeD[OF cs'] budget by fastforce
  have cycle: "collect_and_wait (types_ops statics) checks os schedule gc w = Inr w'" using w'(1) by (simp add: collect_and_wait_def)
  have "sz + extra < 2 ^ 64" using budget by (intro request_bound[OF ready]) simp
  from w'(8) cs' size' size(2) this show thesis
  proof (cases rule: alloc_fast_cases[where checks = checks])
    case full
    with room alloc_size_ge[OF size(1), of extra] show thesis by (simp add: ctx_room_def alloc_need_def)
  next
    case (some ctx pt a)
    then show thesis by (intro that[OF cycle w'(2-8) cs' size'])
  qed
qed

section \<open>Properties\<close>

lemma sample_world_allocated: "heap_allocated sample_statics {2097152, 2097184, 2097216} sample_world"
proof -
  let ?pt = "mm_page_table (ss_mm (w_shared sample_world))"
  let ?p = "\<lparr>fp_kind = Small, fp_start = 2097152, fp_used_bytes = 96\<rparr>"
  have slot: "page_slot ?pt i p \<longleftrightarrow> i = 0 \<and> p = ?p" for i p
    by (cases i) (auto simp: sample_world_def page_slot_def page_table_new_def nth_Cons')
  have pt: "base_addr ?pt = 2097152" "pt_nr_pages ?pt = 7" "length (slots ?pt) = 7" "current_base_page ?pt = 1"
    "medium_buffer_page ?pt = None"
    by (simp_all add: sample_world_def page_table_new_def)
  have "slot_ok ?pt 0 ?p"
    by (simp add: slot_ok_def flex_page_wf_def fp_used_def fp_size_def fp_nr_pages_def pt BASE_PAGE_SIZE_def)
  then have wf: "page_table_wf ?pt"
    by (simp add: page_table_wf_def slot space_ok_def covered_def medium_ok_def pt BASE_PAGE_SIZE_def fp_nr_pages_def)
  have used: "used_addrs ?pt = block 2097152 96"
    by (simp add: used_addrs_def slot fp_used_block_def fp_used_def del: in_block)
  have objs: "block obj (size_of sample_statics (w_memory sample_world) obj) \<subseteq> block 2097152 96"
    if "obj \<in> {2097152, 2097184, 2097216}" for obj
    using that by (auto simp: sample_world_def sample_sizes)
  show ?thesis
    unfolding heap_allocated_def Let_def used
    using wf objs by (simp add: sample_world_def del: in_block)
qed

lemma sample_world_inv: "system_inv sample_statics None sample_world"
  unfolding system_inv_def using sample_world_ready sample_world_allocated by blast

text \<open>
  C7: \<open>alloc_fast\<close> is correct. For a total size that fits into a \<open>usize\<close> and is a multiple of 8 it either
  returns None and changes nothing, or a fresh object: aligned, not null, inside the space and disjoint
  from every live object; of the kind that was asked for and not marked; nothing but its header has been
  written, every root set is as before, and exactly the same objects are live. When the extra bytes
  make the size too large, it panics if overflow checks are on.
\<close>

theorem alloc_fast_correct:
  assumes "gc_ready statics objs gc w" "heap_allocated statics objs w"
    and "map_of (ss_contexts (w_shared w)) thread = Some cs"
    and "get_size_of_alloc True (types_ops statics) (ss_type_manager (w_shared w)) ty = Inr sz" "8 dvd sz + extra"
  shows "(sz + extra < 2 ^ 64 \<longrightarrow>
      alloc_fast checks (types_ops statics) thread ty extra w = Inr (w, None) \<or>
      (\<exists>w' obj. alloc_fast checks (types_ops statics) thread ty extra w = Inr (w', Some obj) \<and>
        8 dvd obj \<and> obj \<noteq> 0 \<and> block obj (sz + extra) \<subseteq> mm_area (ss_mm (w_shared w)) \<and>
        (\<forall>x \<in> live_objects statics w. block x (size_of statics (w_memory w) x) \<inter> block obj (sz + extra) = {}) \<and>
        obj_kind (w_memory w') obj = to_obj_kind ty \<and> \<not> obj_marked (ss_mark_true_bit (w_shared w)) (w_memory w') obj \<and>
        (\<forall>a. a \<noteq> obj \<and> a \<noteq> obj + 8 \<longrightarrow> w_memory w' a = w_memory w a) \<and>
        roots_of w' = roots_of w \<and> live_objects statics w' = live_objects statics w)) \<and>
    (2 ^ 64 \<le> sz + extra \<longrightarrow> alloc_fast True (types_ops statics) thread ty extra w = Inl Arith_Overflow)"
proof (intro conjI impI)
  show "alloc_fast True (types_ops statics) thread ty extra w = Inl Arith_Overflow" if "2 ^ 64 \<le> sz + extra"
    using assms(3,4) that by (simp add: alloc_fast_def Let_def usize_in_def)
next
  assume fits: "sz + extra < 2 ^ 64"
  show "alloc_fast checks (types_ops statics) thread ty extra w = Inr (w, None) \<or>
      (\<exists>w' obj. alloc_fast checks (types_ops statics) thread ty extra w = Inr (w', Some obj) \<and>
        8 dvd obj \<and> obj \<noteq> 0 \<and> block obj (sz + extra) \<subseteq> mm_area (ss_mm (w_shared w)) \<and>
        (\<forall>x \<in> live_objects statics w. block x (size_of statics (w_memory w) x) \<inter> block obj (sz + extra) = {}) \<and>
        obj_kind (w_memory w') obj = to_obj_kind ty \<and> \<not> obj_marked (ss_mark_true_bit (w_shared w)) (w_memory w') obj \<and>
        (\<forall>a. a \<noteq> obj \<and> a \<noteq> obj + 8 \<longrightarrow> w_memory w' a = w_memory w a) \<and>
        roots_of w' = roots_of w \<and> live_objects statics w' = live_objects statics w)"
    using assms(2-5) fits
  proof (cases rule: alloc_fast_cases[where checks = checks])
    case (some ctx pt a)
    let ?w = "allocated_world thread cs ctx pt a ty w"
    note sz = alloc_size_ge[OF assms(4), of extra]
    have pwf: "page_table_wf pt" using some(2) by (simp add: context_wf_def)
    have "base_addr pt = base_addr (mm_page_table (ss_mm (w_shared w)))"
      "pt_nr_pages pt = pt_nr_pages (mm_page_table (ss_mm (w_shared w)))"
      using some(4) by (simp_all add: pt_grows_def)
    then have area: "space_block pt = mm_area (ss_mm (w_shared w))"
      using gc_readyD(2)[OF assms(1)] by (simp add: mm_ok_def mm_area_def space_block_def)
    have "block a (sz + extra) \<subseteq> mm_area (ss_mm (w_shared w))"
      using some(3) used_in_space_block[OF pwf] unfolding area fresh_block_def by blast
    moreover have "block x (size_of statics (w_memory w) x) \<inter> block a (sz + extra) = {}"
      if "x \<in> live_objects statics w" for x
      using allocated_unchanged(3)[OF assms(1-3) some(3) sz] gc_ready_live(1)[OF assms(1)] that by blast
    moreover note allocated_unchanged(1)[OF assms(1-3) some(3) sz, where ctx = ctx and ty = ty]
    moreover note allocated_header[where m = "w_memory ?w", OF refl refl]
    moreover have "8 dvd a" "a \<noteq> 0" using some(3) by (simp_all add: fresh_block_def)
    ultimately show ?thesis
      using some(1) allocated_world_roots[OF assms(3)]
      by (intro disjI2 exI[of _ ?w] exI[of _ a]) (simp add: allocated_memory del: in_block)
  qed simp
qed

theorem alloc_fast_correct_witness:
  "\<exists>ret. (\<exists>w'. alloc_fast True (types_ops sample_statics) 1 (Plain 16) 0 sample_world = Inr (w', ret)) \<and>
    (ret = None \<or> (\<exists>obj. ret = Some obj \<and> 8 dvd obj))"
  using alloc_fast_correct[OF sample_world_ready sample_world_allocated,
      of 1 "\<lparr>cs_mm_context = mm_context_new, cs_root_set = [2097152]\<rparr>" "Plain 16" 32 0 True]
  by (auto simp: sample_world_def METADATA_SIZE_def)

text \<open>
  C6: \<open>alloc_slow\<close> succeeds, after at most one collection. Let twice the size of every live object and of
  the new one, and a buffer page, fit into the space less five pages. Then, however much garbage there is,
  \<open>alloc_slow\<close> returns an object: the first attempt succeeds, or one collection runs and the second does;
  what \<open>cycle\<close> would do on any other world does not matter. The object is of the kind that was asked
  for and lies apart from every live object, and the root sets have kept their lengths.
\<close>

theorem alloc_slow_succeeds:
  assumes "gc_ready statics objs gc w" "heap_allocated statics objs w" "kernel_ok os" "schedules_ok schedule"
    and "map_of (ss_contexts (w_shared w)) thread = Some cs" "lasting_alloc statics ty"
    and "get_size_of_alloc True (types_ops statics) (ss_type_manager (w_shared w)) ty = Inr sz" "8 dvd sz + extra"
    and "(\<Sum>obj \<in> live_objects statics w. alloc_need (size_of statics (w_memory w) obj)) + alloc_need (sz + extra) +
      BASE_PAGE_SIZE \<le> fresh_room (pt_nr_pages (mm_page_table (ss_mm (w_shared w))))"
    and "cycle w = collect_and_wait (types_ops statics) checks os schedule gc w"
  shows "\<exists>w1 w' obj. (w1 = w \<or> alloc_fast checks (types_ops statics) thread ty extra w = Inr (w, None) \<and> cycle w = Inr w1) \<and>
    alloc_fast checks (types_ops statics) thread ty extra w1 = Inr (w', Some obj) \<and>
    alloc_slow checks (types_ops statics) cycle thread ty extra w = Inr (w', Some obj) \<and>
    obj_kind (w_memory w') obj = to_obj_kind ty \<and>
    (\<forall>x \<in> live_objects statics w'. block x (size_of statics (w_memory w') x) \<inter> block obj (sz + extra) = {}) \<and>
    map length (roots_of w') = map length (roots_of w)"
proof -
  note sz = alloc_size_ge[OF assms(7), of extra]
  have fits: "sz + extra < 2 ^ 64" using assms(9) by (intro request_bound[OF assms(1)]) simp
  note kind = allocated_header(1)[where m = "w_memory (allocated_world thread c ctx pt a ty v)" for c ctx pt a v, OF refl refl]
  from assms(2,5,7,8) fits show ?thesis
  proof (cases rule: alloc_fast_cases[where checks = checks])
    case (some ctx pt a)
    then show ?thesis
      using allocated_apart[OF assms(1,2,5) some(3) sz] allocated_world_roots[OF assms(5)] kind
      by (intro exI[of _ w] exI[of _ "allocated_world thread cs ctx pt a ty w"] exI[of _ a])
        (simp add: alloc_slow_def numeral_3_eq_3 del: in_block)
  next
    case full
    from alloc_after_cycle[OF assms(1-9), of checks] obtain f gc' w' cs' ctx pt a where
      w': "cycle w = Inr w'" "roots_of w' = map (map f) (roots_of w)"
        "gc_ready statics (f ` live_objects statics w) (Some gc') w'" "heap_allocated statics (f ` live_objects statics w) w'"
        "map_of (ss_contexts (w_shared w')) thread = Some cs'"
        "alloc_fast checks (types_ops statics) thread ty extra w' = Inr (allocated_world thread cs' ctx pt a ty w', Some a)"
        "fresh_block (mm_page_table (ss_mm (w_shared w'))) (sz + extra) pt a" using assms(10) by metis
    have "roots_of (allocated_world thread cs' ctx pt a ty w') = roots_of w'" by (rule allocated_world_roots[OF w'(5)])
    then have "map length (roots_of (allocated_world thread cs' ctx pt a ty w')) = map length (roots_of w)"
      using w'(2) by (simp add: o_def)
    then show ?thesis using w'(1,6) allocated_apart[OF w'(3-5,7) sz] full(1) kind
      by (intro exI[of _ w'] exI[of _ "allocated_world thread cs' ctx pt a ty w'"] exI[of _ a])
        (simp add: alloc_slow_def numeral_3_eq_3 del: in_block)
  qed
qed

theorem alloc_slow_succeeds_witness:
  "\<exists>w' obj. alloc_slow True (types_ops sample_statics) (collect_and_wait (types_ops sample_statics) True sample_kernel eager_schedule None)
      1 (Plain 16) 0 sample_world = Inr (w', Some obj)"
proof -
  have "map_of (ss_contexts (w_shared sample_world)) 1 = Some \<lparr>cs_mm_context = mm_context_new, cs_root_set = [2097152]\<rparr>"
    "get_size_of_alloc True (types_ops sample_statics) (ss_type_manager (w_shared sample_world)) (Plain 16) = Inr 32"
    "(8 :: nat) dvd 32 + 0" "lasting_alloc sample_statics (Plain 16)"
    by (simp_all add: sample_world_def METADATA_SIZE_def lasting_alloc_def)
  moreover have "(\<Sum>obj \<in> live_objects sample_statics sample_world.
      alloc_need (size_of sample_statics (w_memory sample_world) obj)) + alloc_need (32 + 0) + BASE_PAGE_SIZE \<le>
    fresh_room (pt_nr_pages (mm_page_table (ss_mm (w_shared sample_world))))"
    using sample_live_sum by (simp add: sample_world_def fresh_room_def BASE_PAGE_SIZE_def alloc_need_def page_table_new_def)
  ultimately show ?thesis
    using alloc_slow_succeeds[OF sample_world_ready sample_world_allocated sample_kernel_ok eager_schedule_ok,
        of 1 "\<lparr>cs_mm_context = mm_context_new, cs_root_set = [2097152]\<rparr>" "Plain 16" 32 0 "collect_and_wait (types_ops sample_statics) True sample_kernel eager_schedule None" True] by blast
qed

end
