(* ===== verification/Concurrent_Marking.thy ===== *)
theory Concurrent_Marking
  imports Mutator
begin

text \<open>
  Step 2 of a cycle with mutators running in it. Nothing stops them while the marker traverses the
  heap, so here its iterations (\<open>mark_one\<close>) and the mutators' steps (\<open>mutation\<close>) interleave. There is no
  write barrier in the code; what holds without one is shown here: as long as no pointer is
  overwritten, the marker comes to its end after a bounded number of iterations, whatever the
  mutators do in between, and has then marked all that was live when the roots were saved, which
  includes all that is live now. \<open>Concurrent_Cycle\<close> shows what the rest of the cycle makes of it.
\<close>

section \<open>Runs\<close>

text \<open>
  A configuration: the saved roots that are still to be visited, the state of the marker, and the
  world. \<open>mutators\<close> says what the mutators may do; the number counts the marker's steps.
\<close>

type_synonym marking = "object_ptr list \<times> mark_state \<times> types_state world"

text \<open>
  One iteration of the marker: an object from the stack is marked, or the next root is visited. It is
  over (None) when stack and roots are empty; a panic of the iteration is its result.
\<close>

definition marker_iterate :: "static_memory \<Rightarrow> heap_info \<Rightarrow> bit2 \<Rightarrow> marking \<Rightarrow> marking res option" where
  "marker_iterate statics hi t = (\<lambda>(roots, st, w).
     case ms_stack st of
       obj # rest \<Rightarrow>
         Some (bind_res (mark_one (types_ops statics) (ss_type_manager (w_shared w)) hi t obj (st\<lparr>ms_stack := rest\<rparr>)) (\<lambda>st'.
           Inr (roots, st', w\<lparr>w_memory := ms_memory st'\<rparr>)))
     | [] \<Rightarrow>
         (case roots of
            [] \<Rightarrow> None
          | obj # roots \<Rightarrow> Some (Inr (roots, st\<lparr>ms_stack := [obj]\<rparr>, w))))"

inductive marking_run ::
    "static_memory \<Rightarrow> heap_info \<Rightarrow> bit2 \<Rightarrow> (types_state world \<Rightarrow> types_state world \<Rightarrow> bool) \<Rightarrow> marking
     \<Rightarrow> nat \<Rightarrow> marking \<Rightarrow> bool"
  for statics hi t mutators c0 where
  marking_begin: "marking_run statics hi t mutators c0 0 c0"
| marking_step: "\<lbrakk> marking_run statics hi t mutators c0 n c; marker_iterate statics hi t c = Some (Inr c') \<rbrakk> \<Longrightarrow>
    marking_run statics hi t mutators c0 (Suc n) c'"
| marking_mutate: "\<lbrakk> marking_run statics hi t mutators c0 n (roots, st, w); mutators w w' \<rbrakk> \<Longrightarrow>
    marking_run statics hi t mutators c0 n (roots, st\<lparr>ms_memory := w_memory w'\<rparr>, w')"

lemma marking_root:
  "\<lbrakk> marking_run statics hi t mutators c0 n (obj # roots, st, w); ms_stack st = [] \<rbrakk> \<Longrightarrow>
   marking_run statics hi t mutators c0 (Suc n) (roots, st\<lparr>ms_stack := [obj]\<rparr>, w)"
  by (erule marking_step) (simp add: marker_iterate_def)

lemma marking_object:
  "\<lbrakk> marking_run statics hi t mutators c0 n (roots, st, w); ms_stack st = obj # rest;
     mark_one (types_ops statics) (ss_type_manager (w_shared w)) hi t obj (st\<lparr>ms_stack := rest\<rparr>) = Inr st' \<rbrakk> \<Longrightarrow>
   marking_run statics hi t mutators c0 (Suc n) (roots, st', w\<lparr>w_memory := ms_memory st'\<rparr>)"
  by (erule marking_step) (simp add: marker_iterate_def)

lemma marker_iterate_cases:
  assumes "marker_iterate statics hi t (roots, st, w) = Some (Inr c')"
  obtains (root) obj roots' where "roots = obj # roots'" "ms_stack st = []" "c' = (roots', st\<lparr>ms_stack := [obj]\<rparr>, w)"
  | (object) obj rest st' where "ms_stack st = obj # rest"
      "mark_one (types_ops statics) (ss_type_manager (w_shared w)) hi t obj (st\<lparr>ms_stack := rest\<rparr>) = Inr st'"
      "c' = (roots, st', w\<lparr>w_memory := ms_memory st'\<rparr>)"
  using assms by (auto simp: marker_iterate_def res_eq_simps split: list.splits)

text \<open>Where \<open>Marker::start\<close> begins, given the arguments of step 2.\<close>

definition marking_start :: "marker \<Rightarrow> registry_builder \<Rightarrow> step2_args \<Rightarrow> types_state world \<Rightarrow> marking" where
  "marking_start mk registry args w =
     (concat (s2_root args),
      \<lparr>ms_stack = mk_stack mk, ms_memory = w_memory w,
       ms_alloc = (mm_context_new, page_table_clear (mm_page_table (s2_second_mm args))),
       ms_registry = registry, ms_live = 0, ms_total = 0\<rparr>, w)"

definition marking_done :: "marking \<Rightarrow> bool" where
  "marking_done c \<longleftrightarrow> (case c of (roots, st, _) \<Rightarrow> roots = [] \<and> ms_stack st = [])"

lemma marker_iterate_done: "marker_iterate statics hi t c = None \<longleftrightarrow> marking_done c"
  by (auto simp: marker_iterate_def marking_done_def split: prod.splits list.splits)

text \<open>The marker alone is one of the runs, whatever the mutators might have done.\<close>

lemma mark_loop_run_ops:
  assumes "mark_loop ops tm hi t st = Some r"
  shows "\<forall>n w. ops = types_ops statics \<longrightarrow> r = Inr st' \<longrightarrow> marking_run statics hi t mutators c0 n (roots, st, w) \<longrightarrow>
    ms_memory st = w_memory w \<longrightarrow> ss_type_manager (w_shared w) = tm \<longrightarrow>
    (\<exists>n'. marking_run statics hi t mutators c0 n' (roots, st', w\<lparr>w_memory := ms_memory st'\<rparr>) \<and> ms_stack st' = [])"
proof (rule mark_loop.raw_induct[OF _ assms], intro allI impI)
  fix loop ops tm hi t st r n w
  assume IH: "\<And>ops tm hi t st r. loop ops tm hi t st = Some r \<Longrightarrow>
      \<forall>n w. ops = types_ops statics \<longrightarrow> r = Inr st' \<longrightarrow> marking_run statics hi t mutators c0 n (roots, st, w) \<longrightarrow>
        ms_memory st = w_memory w \<longrightarrow> ss_type_manager (w_shared w) = tm \<longrightarrow>
        (\<exists>n'. marking_run statics hi t mutators c0 n' (roots, st', w\<lparr>w_memory := ms_memory st'\<rparr>) \<and> ms_stack st' = [])"
    and run: "(case ms_stack st of [] \<Rightarrow> Some (Inr st)
      | obj # rest \<Rightarrow> case mark_one ops tm hi t obj (st\<lparr>ms_stack := rest\<rparr>) of
          Inl e \<Rightarrow> Some (Inl e) | Inr st' \<Rightarrow> loop ops tm hi t st') = Some r"
    and r: "ops = types_ops statics" "r = Inr st'" "ss_type_manager (w_shared w) = tm" "ms_memory st = w_memory w"
    and c: "marking_run statics hi t mutators c0 n (roots, st, w)"
  show "\<exists>n'. marking_run statics hi t mutators c0 n' (roots, st', w\<lparr>w_memory := ms_memory st'\<rparr>) \<and> ms_stack st' = []"
  proof (cases "ms_stack st")
    case Nil
    with run r have "st' = st" by simp
    with c r(4) Nil show ?thesis by auto
  next
    case (Cons obj rest)
    with run r obtain st1 where st1: "mark_one ops tm hi t obj (st\<lparr>ms_stack := rest\<rparr>) = Inr st1"
      "loop ops tm hi t st1 = Some (Inr st')" by (auto split: sum.splits)
    have "marking_run statics hi t mutators c0 (Suc n) (roots, st1, w\<lparr>w_memory := ms_memory st1\<rparr>)"
      using marking_object[OF c Cons] st1(1) r by simp
    with IH[OF st1(2)] r show ?thesis by fastforce
  qed
qed

lemmas mark_loop_run = mark_loop_run_ops[rule_format, OF _ refl refl]

lemma mark_roots_run:
  assumes "mark_roots (types_ops statics) tm hi t roots st = Some (Inr st')"
    and "marking_run statics hi t mutators c0 n (roots, st, w)" "ms_memory st = w_memory w" "ss_type_manager (w_shared w) = tm"
    and "ms_stack st = []"
  shows "\<exists>n'. marking_run statics hi t mutators c0 n' ([], st', w\<lparr>w_memory := ms_memory st'\<rparr>) \<and> ms_stack st' = []"
  using assms
proof (induction roots arbitrary: st n w)
  case Nil
  then show ?case by auto
next
  case (Cons obj roots)
  from Cons.prems(1) obtain st1 where st1: "mark_loop (types_ops statics) tm hi t (st\<lparr>ms_stack := obj # ms_stack st\<rparr>) = Some (Inr st1)"
    "mark_roots (types_ops statics) tm hi t roots st1 = Some (Inr st')"
    by (auto split: option.splits sum.splits)
  have "marking_run statics hi t mutators c0 (Suc n) (roots, st\<lparr>ms_stack := obj # ms_stack st\<rparr>, w)"
    using marking_root[OF Cons.prems(2,5)] Cons.prems(5) by simp
  from mark_loop_run[OF st1(1) this] Cons.prems(3,4) obtain n1 where
    "marking_run statics hi t mutators c0 n1 (roots, st1, w\<lparr>w_memory := ms_memory st1\<rparr>)" "ms_stack st1 = []" by auto
  from Cons.IH[OF st1(2) this(1) _ _ this(2)] Cons.prems(4) show ?case by simp
qed

lemma marker_start_run:
  assumes "marker_start (types_ops statics) (ss_type_manager (w_shared w)) (w_memory w) mk (s2_root args)
      (mm_page_table (s2_second_mm args)) registry hi t = Some (Inr st)" "mk_stack mk = []"
  shows "\<exists>n. marking_run statics hi t mutators (marking_start mk registry args w) n
    ([], st, w\<lparr>w_memory := ms_memory st\<rparr>) \<and> ms_stack st = []"
proof -
  obtain st0 where st0: "marking_start mk registry args w = (concat (s2_root args), st0, w)" "ms_memory st0 = w_memory w"
    "ms_stack st0 = []" "mark_roots (types_ops statics) (ss_type_manager (w_shared w)) hi t (concat (s2_root args)) st0 = Some (Inr st)"
    using assms by (auto simp: marker_start_def marking_start_def res_eq_simps split: option.splits)
  from mark_roots_run[OF st0(4) marking_begin[of statics hi t mutators "(concat (s2_root args), st0, w)"] st0(2) refl st0(3)]
  show ?thesis unfolding st0(1) .
qed

section \<open>The snapshot and the mutators\<close>

text \<open>The keys of the contexts are distinct, and none has a buffer page.\<close>

definition flushed :: "'tm world \<Rightarrow> bool" where
  "flushed w \<longleftrightarrow>
     distinct (map fst (ss_contexts (w_shared w))) \<and>
     (\<forall>(_, cs) \<in> set (ss_contexts (w_shared w)). local_buffer_page (cs_mm_context cs) = None)"

lemma flushed_buffer: "flushed w \<Longrightarrow> (th, cs) \<in> set (ss_contexts (w_shared w)) \<Longrightarrow> local_buffer_page (cs_mm_context cs) = None"
  by (auto simp: flushed_def)

lemma set_roots_shared:
  "w_shared (set_roots thread roots w) =
     (w_shared w)\<lparr>ss_contexts := ss_contexts (w_shared (set_roots thread roots w))\<rparr>"
  by (cases "w_shared w") (simp add: set_roots_def Let_def split: option.split)

lemma add_context_shared:
  "w_shared (add_context thread roots w) =
     (w_shared w)\<lparr>ss_contexts := ss_contexts (w_shared (add_context thread roots w))\<rparr>"
  by (cases "w_shared w") (simp add: add_context_def new_context_def)

lemma same_contexts: "s = s\<lparr>ss_contexts := ss_contexts s\<rparr>"
  by (cases s) simp

lemma mutation_frame:
  assumes "mutation statics w w'"
  shows "w_shared w' = (w_shared w)\<lparr>ss_contexts := ss_contexts (w_shared w')\<rparr>"
    "flushed w \<Longrightarrow> flushed w'" "set (concat (roots_of w')) \<subseteq> live_objects statics w"
proof -
  have "w_shared w' = (w_shared w)\<lparr>ss_contexts := ss_contexts (w_shared w')\<rparr> \<and> (flushed w \<longrightarrow> flushed w') \<and>
      set (concat (roots_of w')) \<subseteq> live_objects statics w"
    using assms
  proof cases
    case (add_thread roots thread)
    have "local_buffer_page (cs_mm_context cs) = None"
      if "flushed w" "(th, cs) \<in> set (ss_contexts (w_shared (add_context thread roots w)))" for th cs
      using that(2) by (rule add_context_contexts) (use flushed_buffer[OF that(1)] in \<open>auto simp: mm_context_new_def\<close>)
    moreover have "distinct (map fst (ss_contexts (w_shared (add_context thread roots w))))" if "flushed w"
      using that distinct_update[of "ss_contexts (w_shared w)"] unfolding add_context_simps flushed_def by blast
    moreover have "set (concat (roots_of (add_context thread roots w))) \<subseteq> live_objects statics w"
      using add_context_roots[of thread roots w] roots_live[of w statics] add_thread(2) by blast
    ultimately show ?thesis
      unfolding add_thread(1) using add_context_shared by (auto simp: flushed_def simp del: add_context_simps(5))
  next
    case (reroot roots thread)
    have "local_buffer_page (cs_mm_context cs) = None"
      if "flushed w" "(th, cs) \<in> set (ss_contexts (w_shared (set_roots thread roots w)))" for th cs
      using that(2) by (rule set_roots_contexts) (use flushed_buffer[OF that(1)] in auto)
    moreover have "distinct (map fst (ss_contexts (w_shared (set_roots thread roots w))))" if "flushed w"
      using that unfolding set_roots_keys by (simp add: flushed_def)
    moreover have "set (concat (roots_of (set_roots thread roots w))) \<subseteq> live_objects statics w"
      using set_roots_roots[of thread roots w] roots_live[of w statics] reroot(2) by blast
    ultimately show ?thesis unfolding reroot(1) using set_roots_shared by (auto simp: flushed_def)
  qed (use roots_live[of w statics] in \<open>simp_all add: same_contexts flushed_def\<close>)
  then show "w_shared w' = (w_shared w)\<lparr>ss_contexts := ss_contexts (w_shared w')\<rparr>"
    "flushed w \<Longrightarrow> flushed w'" "set (concat (roots_of w')) \<subseteq> live_objects statics w" by blast+
qed

text \<open>
  The world as the next cycle would find it if nothing had been marked: the memory \<open>m\<close> without the
  marks of this cycle, and one more root set with everything that was live when the roots were saved.
\<close>

definition snapshot_world :: "memory \<Rightarrow> object_ptr list \<Rightarrow> 'tm world \<Rightarrow> 'tm world \<Rightarrow> 'tm world" where
  "snapshot_world m L w0 w =
     w0\<lparr>w_shared := (w_shared w0)\<lparr>ss_contexts := ss_contexts (w_shared w) @
          [(0, \<lparr>cs_mm_context = mm_context_new, cs_root_set = L\<rparr>)]\<rparr>,
        w_memory := m\<rparr>"

lemma snapshot_world_simps [simp]:
  "ss_mm (w_shared (snapshot_world m L w0 w)) = ss_mm (w_shared w0)"
  "ss_second_mm (w_shared (snapshot_world m L w0 w)) = ss_second_mm (w_shared w0)"
  "ss_mark_true_bit (w_shared (snapshot_world m L w0 w)) = ss_mark_true_bit (w_shared w0)"
  "ss_type_manager (w_shared (snapshot_world m L w0 w)) = ss_type_manager (w_shared w0)"
  "w_memory (snapshot_world m L w0 w) = m"
  "roots_of (snapshot_world m L w0 w) = roots_of w @ [L]"
  by (simp_all add: snapshot_world_def roots_of_def)

lemma snapshot_world_write: "write_world a p (snapshot_world m L w0 w) = snapshot_world (m(a := word_of_nat p)) L w0 w"
  "poke_world a v (snapshot_world m L w0 w) = snapshot_world (m(a := v)) L w0 w"
  by (simp_all add: snapshot_world_def write_world_def poke_world_def)

lemma snapshot_world_cong: "w_shared w' = w_shared w \<Longrightarrow> snapshot_world m L w0 w' = snapshot_world m L w0 w"
  by (simp add: snapshot_world_def)

text \<open>
  While marking goes on: \<open>w0\<close> is the world when the roots were saved and \<open>L\<close> lists what was live then;
  \<open>order\<close> is what has been marked.
\<close>

definition mark_world ::
    "static_memory \<Rightarrow> object_ptr set \<Rightarrow> persistent_state option \<Rightarrow> types_state world \<Rightarrow> heap_mm \<Rightarrow> object_ptr list
     \<Rightarrow> memory \<Rightarrow> (object_ptr \<times> nat) list \<Rightarrow> mark_state \<Rightarrow> types_state world \<Rightarrow> bool" where
  "mark_world statics objs gc w0 second L m order st w \<longleftrightarrow> ss_second_mm (w_shared w0) = [second] \<and>
     (let ss = w_shared w0; tm = types_assume_all_dead (ss_type_manager ss); need = \<lambda>x. alloc_need (size_of statics (w_memory w0) x) in
      gc_ready statics objs gc (snapshot_world m L w0 w) \<and> live_objects statics (snapshot_world m L w0 w) = set L \<and>
      mark_core (types_ops statics) tm m objs (heap_info_of (ss_mm ss) second) (ss_mark_true_bit ss) builder_new order st \<and>
      fst ` set order \<union> set (ms_stack st) \<subseteq> set L \<and> w_memory w = ms_memory st \<and> flushed w \<and>
      w_shared w = ss\<lparr>ss_mark_true_bit := bit_not (ss_mark_true_bit ss), ss_type_manager := tm, ss_second_mm := [],
        ss_contexts := ss_contexts (w_shared w)\<rparr> \<and>
      (\<forall>x \<in> set L. size_of statics m x = size_of statics (w_memory w0) x \<and>
        length (fields_of statics m x) = length (fields_of statics (w_memory w0) x)) \<and>
      pt_nr_pages (snd (ms_alloc st)) = pt_nr_pages (mm_page_table second) \<and>
      (\<Sum>x \<in> set L - fst ` set order. need x) + fresh_room (pt_nr_pages (mm_page_table second)) \<le>
        ctx_room (ms_alloc st) + (\<Sum>x \<in> set L. need x))"

lemma mark_worldD:
  assumes "mark_world statics objs gc w0 second L m order st w"
  shows "gc_ready statics objs gc (snapshot_world m L w0 w)" "live_objects statics (snapshot_world m L w0 w) = set L"
    "mark_core (types_ops statics) (types_assume_all_dead (ss_type_manager (w_shared w0))) m objs
      (heap_info_of (ss_mm (w_shared w0)) second) (ss_mark_true_bit (w_shared w0)) builder_new order st"
    "fst ` set order \<subseteq> set L" "set (ms_stack st) \<subseteq> set L" "w_memory w = ms_memory st" "flushed w"
    "w_shared w = (w_shared w0)\<lparr>ss_mark_true_bit := bit_not (ss_mark_true_bit (w_shared w0)),
      ss_type_manager := types_assume_all_dead (ss_type_manager (w_shared w0)), ss_second_mm := [],
      ss_contexts := ss_contexts (w_shared w)\<rparr>"
    "x \<in> set L \<Longrightarrow> size_of statics m x = size_of statics (w_memory w0) x"
    "x \<in> set L \<Longrightarrow> length (fields_of statics m x) = length (fields_of statics (w_memory w0) x)"
    "pt_nr_pages (snd (ms_alloc st)) = pt_nr_pages (mm_page_table second)"
    "(\<Sum>x \<in> set L - fst ` set order. alloc_need (size_of statics (w_memory w0) x)) + fresh_room (pt_nr_pages (mm_page_table second)) \<le>
      ctx_room (ms_alloc st) + (\<Sum>x \<in> set L. alloc_need (size_of statics (w_memory w0) x))"
    "ss_second_mm (w_shared w0) = [second]"
  using assms unfolding mark_world_def Let_def by blast+

lemma mark_worldI:
  assumes "ss_second_mm (w_shared w0) = [second]"
    "gc_ready statics objs gc (snapshot_world m L w0 w)" "live_objects statics (snapshot_world m L w0 w) = set L"
    "mark_core (types_ops statics) (types_assume_all_dead (ss_type_manager (w_shared w0))) m objs
      (heap_info_of (ss_mm (w_shared w0)) second) (ss_mark_true_bit (w_shared w0)) builder_new order st"
    "fst ` set order \<subseteq> set L" "set (ms_stack st) \<subseteq> set L" "w_memory w = ms_memory st" "flushed w"
    "w_shared w = (w_shared w0)\<lparr>ss_mark_true_bit := bit_not (ss_mark_true_bit (w_shared w0)),
      ss_type_manager := types_assume_all_dead (ss_type_manager (w_shared w0)), ss_second_mm := [],
      ss_contexts := ss_contexts (w_shared w)\<rparr>"
    "\<And>x. x \<in> set L \<Longrightarrow> size_of statics m x = size_of statics (w_memory w0) x"
    "\<And>x. x \<in> set L \<Longrightarrow> length (fields_of statics m x) = length (fields_of statics (w_memory w0) x)"
    "pt_nr_pages (snd (ms_alloc st)) = pt_nr_pages (mm_page_table second)"
    "(\<Sum>x \<in> set L - fst ` set order. alloc_need (size_of statics (w_memory w0) x)) + fresh_room (pt_nr_pages (mm_page_table second)) \<le>
      ctx_room (ms_alloc st) + (\<Sum>x \<in> set L. alloc_need (size_of statics (w_memory w0) x))"
  shows "mark_world statics objs gc w0 second L m order st w"
  using assms unfolding mark_world_def Let_def by blast

lemma mark_world_objects:
  assumes inv: "mark_world statics objs gc w0 second L m order st w"
  shows "set L \<subseteq> objs" "set (concat (roots_of w)) \<subseteq> set L" "live_objects statics w \<subseteq> set L"
    "x \<in> objs \<Longrightarrow> size_of statics (w_memory w) x = size_of statics m x"
    "x \<in> objs \<Longrightarrow> pointers_of statics (w_memory w) x = pointers_of statics m x"
    "x \<in> objs \<Longrightarrow> fields_of statics (w_memory w) x = fields_of statics m x"
    "x \<in> set L \<Longrightarrow> set (pointers_of statics m x) \<subseteq> set L"
proof -
  note i = mark_worldD[OF inv] and g = gc_readyD[OF mark_worldD(1)[OF inv]]
  show sub: "set L \<subseteq> objs" using gc_ready_live(1)[OF i(1)] i(2) by simp
  show roots: "set (concat (roots_of w)) \<subseteq> set L"
    using roots_live[of "snapshot_world m L w0 w" statics] i(2) by simp
  have heap: "lasting_heap statics m objs" using g(3) by simp
  note v = types.variant_same[OF heap mark_coreD(1)[OF i(3)], folded i(6)]
  show same: "x \<in> objs \<Longrightarrow> size_of statics (w_memory w) x = size_of statics m x"
    "x \<in> objs \<Longrightarrow> pointers_of statics (w_memory w) x = pointers_of statics m x"
    "x \<in> objs \<Longrightarrow> fields_of statics (w_memory w) x = fields_of statics m x" for x by (simp_all only: v(2-4))
  show closed: "x \<in> set L \<Longrightarrow> set (pointers_of statics m x) \<subseteq> set L" for x
    using pointers_live[of x statics "snapshot_world m L w0 w"] i(2) by simp
  show "live_objects statics w \<subseteq> set L"
    using roots
  proof (rule live_closed)
    fix x assume x: "x \<in> set L"
    then have "x \<in> objs" using sub by blast
    then show "set (pointers_of statics (w_memory w) x) \<subseteq> set L" using same(2) closed[OF x] by simp
  qed
qed

text \<open>A mutator's write, seen in the unmarked memory.\<close>

lemma mark_core_memory:
  assumes core: "mark_core ops tm m objs hi t reg order st"
    and size: "\<And>x. x \<in> objs \<Longrightarrow> obj_size ops tm m' x = obj_size ops tm m x"
    and v: "marked_variant objs m' M" and marks: "\<And>x. x \<in> objs \<Longrightarrow> obj_marked t M x \<longleftrightarrow> obj_marked t (ms_memory st) x"
  shows "mark_core ops tm m' objs hi t reg order (st\<lparr>ms_memory := M\<rparr>)"
proof -
  note c = mark_coreD[OF core]
  have "obj_size ops tm m' x = obj_size ops tm m x" if "(x, d) \<in> set order" for x d
    using size c(4) that by force
  then have same: "placed ops tm m' order = placed ops tm m order"
    "map (reloc_of ops tm m' hi) order = map (reloc_of ops tm m hi) order"
    using placed_cong[of order ops tm m' ops tm m] by blast+
  have "small_heap ops tm m' objs \<longleftrightarrow> small_heap ops tm m objs" using size by (simp add: small_heap_def)
  then show ?thesis using core v marks unfolding mark_core_def same by simp
qed

lemma mark_world_write:
  assumes inv: "mark_world statics objs gc w0 second L m order st w"
    and x: "x \<in> objs" "x < a" "a < x + size_of statics m x"
    and ready: "gc_ready statics objs gc (snapshot_world (m(a := v)) L w0 w)"
      "live_objects statics (snapshot_world (m(a := v)) L w0 w) \<subseteq> set L"
    and same: "\<And>y. y \<in> objs \<Longrightarrow> size_of statics (m(a := v)) y = size_of statics m y"
      "\<And>y. y \<in> objs \<Longrightarrow> fields_of statics (m(a := v)) y = fields_of statics m y"
    and w': "w_shared w' = w_shared w" "w_memory w' = (w_memory w)(a := v)"
  shows "mark_world statics objs gc w0 second L (m(a := v)) order (st\<lparr>ms_memory := w_memory w'\<rparr>) w'"
proof -
  note i = mark_worldD[OF inv] and o = mark_world_objects[OF inv]
  let ?tm = "types_assume_all_dead (ss_type_manager (w_shared w0))"
  have heap: "lasting_heap statics m objs" "lasting_heap statics (m(a := v)) objs"
    using gc_readyD(3)[OF i(1)] gc_readyD(3)[OF ready(1)] by simp_all
  have "x + (a - x) \<notin> objs" using types.not_header[OF heap(1) x(1), of "a - x"] x(2,3) by simp
  then have a: "a \<notin> objs" using x(2) by simp
  have "obj_size (types_ops statics) ?tm (m(a := v)) y = obj_size (types_ops statics) ?tm m y" if "y \<in> objs" for y
    using lasting_object(2)[OF lasting_heap_objects[OF heap(1) that], of ?tm]
      lasting_object(2)[OF lasting_heap_objects[OF heap(2) that], of ?tm] same(1)[OF that] by simp
  moreover have "marked_variant objs (m(a := v)) (w_memory w')"
    using mark_coreD(1)[OF i(3)] a w'(2) i(6) by (auto simp: marked_variant_def)
  moreover have "obj_marked t (w_memory w') y \<longleftrightarrow> obj_marked t (ms_memory st) y" if "y \<in> objs" for y t
    using a that w'(2) i(6) by (auto simp: obj_marked_def)
  ultimately have core: "mark_core (types_ops statics) ?tm (m(a := v)) objs
      (heap_info_of (ss_mm (w_shared w0)) second) (ss_mark_true_bit (w_shared w0)) builder_new order (st\<lparr>ms_memory := w_memory w'\<rparr>)"
    by (rule mark_core_memory[OF i(3)])
  have snap: "snapshot_world (m(a := v)) L w0 w' = snapshot_world (m(a := v)) L w0 w"
    by (rule snapshot_world_cong[OF w'(1)])
  have "set L \<subseteq> live_objects statics (snapshot_world (m(a := v)) L w0 w)"
    using roots_live[of "snapshot_world (m(a := v)) L w0 w" statics] by simp
  moreover have "flushed w'" using i(7) w'(1) by (simp add: flushed_def)
  ultimately show ?thesis
    unfolding mark_world_def Let_def snap
    using ready core i(4,5,9-13) i(8) o(1) same w'(1) by (auto simp: subset_iff)
qed

lemma mark_world_contexts:
  assumes inv: "mark_world statics objs gc w0 second L m order st w"
    and w': "w_shared w' = (w_shared w)\<lparr>ss_contexts := ss_contexts (w_shared w')\<rparr>" "w_memory w' = w_memory w"
      "flushed w'" "set (concat (roots_of w')) \<subseteq> set L"
  shows "mark_world statics objs gc w0 second L m order (st\<lparr>ms_memory := w_memory w'\<rparr>) w'"
proof -
  note i = mark_worldD[OF inv]
  have "gc_ready statics objs gc (snapshot_world m L w0 w') \<and>
      live_objects statics (snapshot_world m L w0 w') \<subseteq> live_objects statics (snapshot_world m L w0 w)"
    by (rule ready_keep[OF i(1)])
      (use w'(4) i(2) lasting_heap_objects[OF gc_readyD(3)[OF i(1)]] in simp_all)
  moreover have "set L \<subseteq> live_objects statics (snapshot_world m L w0 w')"
    using roots_live[of "snapshot_world m L w0 w'" statics] by simp
  moreover have "w_shared w' = (w_shared w0)\<lparr>ss_mark_true_bit := bit_not (ss_mark_true_bit (w_shared w0)),
      ss_type_manager := types_assume_all_dead (ss_type_manager (w_shared w0)), ss_second_mm := [],
      ss_contexts := ss_contexts (w_shared w')\<rparr>"
    by (subst w'(1)) (subst i(8), simp)
  moreover have "st\<lparr>ms_memory := w_memory w'\<rparr> = st" using w'(2) i(6) by simp
  ultimately show ?thesis
    unfolding mark_world_def Let_def using i(2-6,9-13) w'(2,3) by auto
qed

lemma mark_world_layout:
  assumes inv: "mark_world statics objs gc w0 second L m order st w" and x: "x \<in> objs"
    and k: "keeps_layout statics (w_memory w) x a v"
  shows "keeps_layout statics m x a v"
proof -
  note i = mark_worldD[OF inv] and o = mark_world_objects[OF inv]
  have heap: "lasting_heap statics m objs" using gc_readyD(3)[OF i(1)] by simp
  note v = types.variant_same[OF heap mark_coreD(1)[OF i(3)] x, folded i(6)]
  note k = k[unfolded keeps_layout_def o(4)[OF x] o(6)[OF x]]
  let ?M = "(w_memory w)(a := v)"
  have hdr: "obj_kind ?M x = obj_kind m x" "bit (m x) 2 = bit (?M x) 2" "m (x + 8) = ?M (x + 8)"
    using k v(5) v(6)[of 8] mark_coreD(1)[OF i(3)] x by (auto simp: obj_kind_def marked_variant_def i(6))
  have wf: "object_wf (lasting statics) ?M x" "8 dvd x"
    using lasting_heap_objects[OF heap x] hdr(1) by (simp_all add: object_wf_def)
  note lay = types.same_layout[where obj' = x and m' = "m(a := v)", OF wf]
  have "size_of statics (m(a := v)) x = size_of statics ?M x"
    by (rule lay(2)) (use k hdr v(6) in auto)
  moreover have "fields_of statics (m(a := v)) x = map (\<lambda>a. x + (a - x)) (fields_of statics ?M x)"
    by (rule lay(3)) (use k hdr v(6) in auto)
  then have "fields_of statics (m(a := v)) x = fields_of statics m x"
    using k types.field_addrs_wf(3)[OF lasting_heap_objects[OF heap x]] by (auto intro!: map_idI)
  ultimately show ?thesis using k by (simp add: keeps_layout_def)
qed

lemma mark_world_mutation:
  assumes inv: "mark_world statics objs gc w0 second L m order st w" and step: "mutation statics w w'"
  obtains m' where "mark_world statics objs gc w0 second L m' order (st\<lparr>ms_memory := w_memory w'\<rparr>) w'"
    "\<forall>y \<in> objs - live_objects statics w. pointers_of statics m' y = pointers_of statics m y"
proof -
  note i = mark_worldD[OF inv] and o = mark_world_objects[OF inv] and f = mutation_frame[OF step]
  have heap: "lasting_heap statics m objs" using gc_readyD(3)[OF i(1)] by simp
  have roots: "set (concat (roots_of w')) \<subseteq> set L" using f(3) o(3) by blast
  show thesis
    using step
  proof cases
    case (store_pointer x a p)
    have x: "x \<in> objs" "x \<in> live_objects statics (snapshot_world m L w0 w)" using store_pointer(2) o(1,3) i(2) by blast+
    have a: "a \<in> set (fields_of statics m x)" using store_pointer(3) o(6)[OF x(1)] by simp
    have p: "p = 0 \<or> p \<in> live_objects statics (snapshot_world m L w0 w)" using store_pointer(4) o(3) i(2) by blast
    have "p < 2 ^ 64" using p object_bound[OF i(1)] gc_ready_live(1)[OF i(1)] by (cases "p = 0") auto
    note wr = write_field[OF heap x(1) a this]
    have "mark_world statics objs gc w0 second L (m(a := word_of_nat p)) order (st\<lparr>ms_memory := w_memory w'\<rparr>) w'"
    proof (rule mark_world_write[OF inv x(1)])
      show "x < a" "a < x + size_of statics m x"
        using types.field_addrs_wf(3)[OF lasting_heap_objects[OF heap x(1)]] a by force+
      show "gc_ready statics objs gc (snapshot_world (m(a := word_of_nat p)) L w0 w)"
        "live_objects statics (snapshot_world (m(a := word_of_nat p)) L w0 w) \<subseteq> set L"
        using write_world_ready[OF i(1) x(2) _ p] a unfolding snapshot_world_write i(2) by simp_all
    qed (use wr(2,5) store_pointer(1) in simp_all)
    moreover have "\<forall>y \<in> objs - live_objects statics w.
        pointers_of statics (m(a := word_of_nat p)) y = pointers_of statics m y"
      using wr(6) store_pointer(2) by auto
    ultimately show thesis by (rule that)
  next
    case (store_data x a v)
    have x: "x \<in> objs" "x \<in> live_objects statics (snapshot_world m L w0 w)" using store_data(2) o(1,3) i(2) by blast+
    note k = mark_world_layout[OF inv x(1) store_data(3)]
    note wr = write_data[OF heap x(1) k]
    have "mark_world statics objs gc w0 second L (m(a := v)) order (st\<lparr>ms_memory := w_memory w'\<rparr>) w'"
    proof (rule mark_world_write[OF inv x(1)])
      show "x < a" "a < x + size_of statics m x" using k by (auto simp: keeps_layout_def)
      show "gc_ready statics objs gc (snapshot_world (m(a := v)) L w0 w)"
        "live_objects statics (snapshot_world (m(a := v)) L w0 w) \<subseteq> set L"
        using poke_world_ready[OF i(1) x(2)] k unfolding snapshot_world_write i(2) by simp_all
    qed (use wr(2,5) store_data(1) in simp_all)
    then show thesis by (rule that) (simp add: wr(4))
  qed (use mark_world_contexts[OF inv f(1) _ f(2)[OF i(7)] roots] in \<open>auto intro: that\<close>)
qed

section \<open>The invariant of a run\<close>

text \<open>
  No object of the snapshot is forgotten: what a marked object pointed to when the roots were saved is
  marked or on the stack, and an object that is not yet marked still has all its old pointers. The
  number bounds the steps that the marker has left.
\<close>

definition tricolour ::
    "static_memory \<Rightarrow> types_state world \<Rightarrow> object_ptr list \<Rightarrow> memory \<Rightarrow> (object_ptr \<times> nat) list \<Rightarrow> mark_state
     \<Rightarrow> object_ptr list \<Rightarrow> bool" where
  "tricolour statics w0 L m order st roots \<longleftrightarrow>
     set roots \<subseteq> set L \<and> set (concat (roots_of w0)) \<subseteq> fst ` set order \<union> set (ms_stack st) \<union> set roots \<and>
     (\<forall>x \<in> set L. set (pointers_of statics (w_memory w0) x) \<subseteq>
        (if x \<in> fst ` set order then fst ` set order \<union> set (ms_stack st) else set (pointers_of statics m x)))"

definition marking_work ::
    "static_memory \<Rightarrow> types_state world \<Rightarrow> object_ptr list \<Rightarrow> (object_ptr \<times> nat) list \<Rightarrow> mark_state
     \<Rightarrow> object_ptr list \<Rightarrow> nat" where
  "marking_work statics w0 L order st roots = 2 * length roots + length (ms_stack st) +
     (\<Sum>x \<in> set L - fst ` set order. length (fields_of statics (w_memory w0) x))"

lemma mark_world_root:
  assumes inv: "mark_world statics objs gc w0 second L m order st w" and st: "ms_stack st = []"
    and tri: "tricolour statics w0 L m order st (obj # roots)"
  shows "mark_world statics objs gc w0 second L m order (st\<lparr>ms_stack := [obj]\<rparr>) w"
    "tricolour statics w0 L m order (st\<lparr>ms_stack := [obj]\<rparr>) roots"
    "Suc (marking_work statics w0 L order (st\<lparr>ms_stack := [obj]\<rparr>) roots) = marking_work statics w0 L order st (obj # roots)"
proof -
  have obj: "obj \<in> set L" "obj \<in> objs" using tri mark_world_objects(1)[OF inv] by (auto simp: tricolour_def)
  have "mark_core (types_ops statics) (types_assume_all_dead (ss_type_manager (w_shared w0))) m objs
      (heap_info_of (ss_mm (w_shared w0)) second) (ss_mark_true_bit (w_shared w0)) builder_new order (st\<lparr>ms_stack := [obj]\<rparr>)"
    using mark_worldD(3)[OF inv] obj(2) unfolding mark_core_def by simp
  then show "mark_world statics objs gc w0 second L m order (st\<lparr>ms_stack := [obj]\<rparr>) w"
    using inv obj(1) unfolding mark_world_def Let_def by simp
  show "tricolour statics w0 L m order (st\<lparr>ms_stack := [obj]\<rparr>) roots"
    using tri st unfolding tricolour_def by (auto split: if_splits)
  show "Suc (marking_work statics w0 L order (st\<lparr>ms_stack := [obj]\<rparr>) roots) = marking_work statics w0 L order st (obj # roots)"
    using st by (simp add: marking_work_def)
qed

lemma mark_world_old:
  assumes inv: "mark_world statics objs gc w0 second L m order st w" and st: "ms_stack st = obj # rest"
    and old: "obj \<in> fst ` set order" and tri: "tricolour statics w0 L m order st roots"
  defines "st' \<equiv> st\<lparr>ms_stack := rest, ms_total := ms_total st + 1\<rparr>"
  shows "mark_one (types_ops statics) (ss_type_manager (w_shared w)) (heap_info_of (ss_mm (w_shared w0)) second)
      (ss_mark_true_bit (w_shared w0)) obj (st\<lparr>ms_stack := rest\<rparr>) = Inr st'"
    "mark_world statics objs gc w0 second L m order st' (w\<lparr>w_memory := ms_memory st'\<rparr>)"
    "tricolour statics w0 L m order st' roots"
    "Suc (marking_work statics w0 L order st' roots) = marking_work statics w0 L order st roots"
proof -
  note i = mark_worldD[OF inv]
  have tm: "ss_type_manager (w_shared w) = types_assume_all_dead (ss_type_manager (w_shared w0))" by (subst i(8)) simp
  note c = types.mark_core_marked[OF i(3) st old, folded st'_def]
  show "mark_one (types_ops statics) (ss_type_manager (w_shared w)) (heap_info_of (ss_mm (w_shared w0)) second)
      (ss_mark_true_bit (w_shared w0)) obj (st\<lparr>ms_stack := rest\<rparr>) = Inr st'"
    unfolding tm by (rule c(1))
  have w: "w\<lparr>w_memory := ms_memory st'\<rparr> = w" using i(6) by (simp add: st'_def)
  show "mark_world statics objs gc w0 second L m order st' (w\<lparr>w_memory := ms_memory st'\<rparr>)"
    unfolding w using inv c(2) st unfolding mark_world_def Let_def by (simp add: st'_def)
  have "fst ` set order \<union> set (ms_stack st) = fst ` set order \<union> set (ms_stack st')" using st old by (auto simp: st'_def)
  then show "tricolour statics w0 L m order st' roots" using tri unfolding tricolour_def by (simp only:) blast
  show "Suc (marking_work statics w0 L order st' roots) = marking_work statics w0 L order st roots"
    using st by (simp add: marking_work_def st'_def)
qed

lemma tricolourD:
  assumes "tricolour statics w0 L m order st roots"
  shows "set roots \<subseteq> set L" "set (concat (roots_of w0)) \<subseteq> fst ` set order \<union> set (ms_stack st) \<union> set roots"
    "x \<in> set L \<Longrightarrow> x \<in> fst ` set order \<Longrightarrow> set (pointers_of statics (w_memory w0) x) \<subseteq> fst ` set order \<union> set (ms_stack st)"
    "x \<in> set L \<Longrightarrow> x \<notin> fst ` set order \<Longrightarrow> set (pointers_of statics (w_memory w0) x) \<subseteq> set (pointers_of statics m x)"
  using assms unfolding tricolour_def by metis+

lemma tricolour_fresh:
  assumes tri: "tricolour statics w0 L m order st roots" and st: "ms_stack st = obj # rest"
    and new: "obj \<notin> fst ` set order" and obj: "obj \<in> set L"
    and st': "set (ms_stack st') = set (pointers_of statics m obj) \<union> set rest"
  shows "tricolour statics w0 L m (order @ [(obj, d)]) st' roots"
proof -
  note t = tricolourD[OF tri]
  have grey: "fst ` set order \<union> set (ms_stack st) \<subseteq> fst ` set (order @ [(obj, d)]) \<union> set (ms_stack st')"
    using st st' by auto
  have "set (pointers_of statics (w_memory w0) x) \<subseteq> (if x \<in> fst ` set (order @ [(obj, d)])
      then fst ` set (order @ [(obj, d)]) \<union> set (ms_stack st') else set (pointers_of statics m x))" if x: "x \<in> set L" for x
  proof (cases "x = obj")
    case True
    with t(4)[OF obj new] st' show ?thesis by auto
  next
    case False
    with t(3,4)[OF x] grey show ?thesis by (cases "x \<in> fst ` set order") auto
  qed
  with t(1,2) grey show ?thesis unfolding tricolour_def by blast
qed

lemma mark_world_fresh:
  assumes inv: "mark_world statics objs gc w0 second L m order st w" and st: "ms_stack st = obj # rest"
    and new: "obj \<notin> fst ` set order" and tri: "tricolour statics w0 L m order st roots"
  obtains d st' where "mark_one (types_ops statics) (ss_type_manager (w_shared w)) (heap_info_of (ss_mm (w_shared w0)) second)
      (ss_mark_true_bit (w_shared w0)) obj (st\<lparr>ms_stack := rest\<rparr>) = Inr st'"
    "mark_world statics objs gc w0 second L m (order @ [(obj, d)]) st' (w\<lparr>w_memory := ms_memory st'\<rparr>)"
    "tricolour statics w0 L m (order @ [(obj, d)]) st' roots"
    "Suc (marking_work statics w0 L (order @ [(obj, d)]) st' roots) \<le> marking_work statics w0 L order st roots"
proof -
  note i = mark_worldD[OF inv] and o = mark_world_objects[OF inv] and g = gc_readyD[OF mark_worldD(1)[OF inv], simplified]
  let ?tm = "types_assume_all_dead (ss_type_manager (w_shared w0))" and ?hi = "heap_info_of (ss_mm (w_shared w0)) second"
  let ?need = "\<lambda>x. alloc_need (size_of statics (w_memory w0) x)"
  let ?fields = "\<lambda>x. length (fields_of statics (w_memory w0) x)"
  have tm: "ss_type_manager (w_shared w) = ?tm" by (subst i(8)) simp
  have obj: "obj \<in> set L" "obj \<in> objs" using i(5) st o(1) by auto
  note l = lasting_object[OF lasting_heap_objects[OF g(3) obj(2)], of ?tm]
  have "mark_ready statics ?tm m objs (roots_of w @ [L]) (mm_page_table second) ?hi (ss_mark_true_bit (w_shared w0))"
    using gc_ready_mark[OF i(1), of second ?tm] i(13) by simp
  then have wf: "heap_wf (types_ops statics) ?tm (sane_type statics ?tm) m objs" and above: "\<forall>x \<in> objs. hi_start ?hi \<le> x"
    by (auto simp: mark_ready_def)
  have split: "(\<Sum>x \<in> set L - fst ` set order. f x) = f obj + (\<Sum>x \<in> set L - insert obj (fst ` set order). f x :: nat)" for f
    using obj(1) new by (intro sum_unmarked) simp_all
  have "(\<Sum>x \<in> set L. ?need x) \<le> fresh_room (pt_nr_pages (mm_page_table second))"
  proof -
    obtain s where "ss_second_mm (w_shared w0) = [s]"
      "pt_nr_pages (mm_page_table s) = pt_nr_pages (mm_page_table (ss_mm (w_shared w0)))"
      using gc_ready_second[OF i(1)] by (metis snapshot_world_simps(1,2))
    then show ?thesis using g(8) i(2,9,13) by simp
  qed
  then have "alloc_need (obj_size (types_ops statics) ?tm m obj) +
      ((\<Sum>x \<in> set L - insert obj (fst ` set order). ?need x) + fresh_room (pt_nr_pages (mm_page_table second)) - (\<Sum>x \<in> set L. ?need x))
      \<le> ctx_room (ms_alloc st)"
    using i(12) split[of ?need] i(9)[OF obj(1)] l(2) by simp
  from types.mark_core_fresh[OF wf above i(3) st new this] obtain d st' where
    c: "mark_one (types_ops statics) ?tm ?hi (ss_mark_true_bit (w_shared w0)) obj (st\<lparr>ms_stack := rest\<rparr>) = Inr st'"
      "mark_core (types_ops statics) ?tm m objs ?hi (ss_mark_true_bit (w_shared w0)) builder_new (order @ [(obj, d)]) st'"
      "ms_stack st' = rev (obj_pointers (types_ops statics) ?tm m obj) @ rest"
      "(\<Sum>x \<in> set L - insert obj (fst ` set order). ?need x) + fresh_room (pt_nr_pages (mm_page_table second)) - (\<Sum>x \<in> set L. ?need x)
        \<le> ctx_room (ms_alloc st')" by metis
  have stack: "ms_stack st' = rev (pointers_of statics m obj) @ rest" using c(3) l(3) by simp
  have shared: "w_shared (w\<lparr>w_memory := ms_memory st'\<rparr>) = w_shared w" by simp
  have snap: "snapshot_world m L w0 (w\<lparr>w_memory := ms_memory st'\<rparr>) = snapshot_world m L w0 w"
    by (rule snapshot_world_cong) simp
  have "mark_world statics objs gc w0 second L m (order @ [(obj, d)]) st' (w\<lparr>w_memory := ms_memory st'\<rparr>)"
  proof (rule mark_worldI)
    show "set (ms_stack st') \<subseteq> set L" using stack o(7)[OF obj(1)] i(5) st by auto
    show "flushed (w\<lparr>w_memory := ms_memory st'\<rparr>)" using i(7) by (simp add: flushed_def)
    show "pt_nr_pages (snd (ms_alloc st')) = pt_nr_pages (mm_page_table second)"
      using mark_one_nr_pages[OF c(1)] i(11) by simp
    show "(\<Sum>x \<in> set L - fst ` set (order @ [(obj, d)]). ?need x) + fresh_room (pt_nr_pages (mm_page_table second))
      \<le> ctx_room (ms_alloc st') + (\<Sum>x \<in> set L. ?need x)" using c(4) by simp
    show "fst ` set (order @ [(obj, d)]) \<subseteq> set L" using i(4) obj(1) by simp
    show "w_memory (w\<lparr>w_memory := ms_memory st'\<rparr>) = ms_memory st'" by simp
    show "w_shared (w\<lparr>w_memory := ms_memory st'\<rparr>) = (w_shared w0)\<lparr>ss_mark_true_bit := bit_not (ss_mark_true_bit (w_shared w0)),
      ss_type_manager := ?tm, ss_second_mm := [], ss_contexts := ss_contexts (w_shared (w\<lparr>w_memory := ms_memory st'\<rparr>))\<rparr>"
      unfolding shared by (rule i(8))
  qed (simp_all only: snap i(1,2,9,10,13) c(2))
  moreover have "tricolour statics w0 L m (order @ [(obj, d)]) st' roots"
    by (rule tricolour_fresh[OF tri st new]) (simp_all add: stack obj(1))
  moreover have "length (pointers_of statics m obj) \<le> ?fields obj"
    unfolding types.iterate_known(2)[OF lasting_heap_objects[OF g(3) obj(2)]] i(10)[OF obj(1), symmetric]
    by (rule order_trans[OF length_filter_le]) simp
  then have "Suc (marking_work statics w0 L (order @ [(obj, d)]) st' roots) \<le> marking_work statics w0 L order st roots"
    using split[of ?fields] stack st by (simp add: marking_work_def)
  moreover note c(1)[folded tm]
  ultimately show thesis by (intro that)
qed

text \<open>The invariant holds when the roots have been saved.\<close>

definition snapshot_args :: "'tm world \<Rightarrow> heap_mm \<Rightarrow> step2_args" where
  "snapshot_args w second =
     \<lparr>s2_gc = gc_init None, s2_root = roots_of w, s2_heap = heap_info_of (ss_mm (w_shared w)) second,
      s2_mark_true_bit = ss_mark_true_bit (w_shared w), s2_second_mm = second\<rparr>"

definition snapshot_taken :: "types_state world \<Rightarrow> types_state world" where
  "snapshot_taken w =
     (let ss = w_shared w in
      w\<lparr>w_controller := clear_request (w_controller w),
        w_shared := ss\<lparr>ss_mark_true_bit := bit_not (ss_mark_true_bit ss),
          ss_type_manager := types_assume_all_dead (ss_type_manager ss), ss_second_mm := []\<rparr>\<rparr>)"

lemma gc_step1_eq:
  assumes "gc_init gc = gc_init None" "ss_second_mm (w_shared w) = [second]"
  shows "gc_step1 (types_ops statics) (gc_init gc) w = Inr (snapshot_args w second, snapshot_taken w)"
  using assms
  by (simp add: gc_step1_def Let_def deque_cleared_mm_def snapshot_args_def snapshot_taken_def roots_of_def root_clone_boxed_def)

lemma mark_world_start:
  assumes ready: "gc_ready statics objs gc w0" and fl: "flushed w0" and second: "ss_second_mm (w_shared w0) = [second]"
    and L: "set L = live_objects statics w0"
  obtains st where "marking_start marker_new builder_new (snapshot_args w0 second) (snapshot_taken w0) =
      (concat (roots_of w0), st, snapshot_taken w0)" "ms_stack st = []"
    "mark_world statics objs gc w0 second L (w_memory w0) [] st (snapshot_taken w0)"
proof -
  note g = gc_readyD[OF ready]
  obtain s where s: "s = second" "mm_ok s" "pt_nr_pages (mm_page_table s) = pt_nr_pages (mm_page_table (ss_mm (w_shared w0)))"
    using gc_ready_second[OF ready] second by auto
  let ?pt = "page_table_clear (mm_page_table second)" and ?tm = "types_assume_all_dead (ss_type_manager (w_shared w0))"
  let ?st = "\<lparr>ms_stack = [], ms_memory = w_memory w0, ms_alloc = (mm_context_new, ?pt),
    ms_registry = builder_new, ms_live = 0, ms_total = 0\<rparr>"
  have clear: "page_table_wf ?pt" "used_addrs ?pt = {}" "base_addr ?pt = map_ptr (mm_mapping second)"
    "pt_nr_pages ?pt = pt_nr_pages (mm_page_table second)" "current_base_page ?pt = 0" "medium_buffer_page ?pt = None"
    using page_table_clear_wf[of "mm_page_table second"] s(1,2) by (simp_all add: page_table_clear_def mm_ok_def)
  have snap: "gc_ready statics objs gc (snapshot_world (w_memory w0) L w0 (snapshot_taken w0)) \<and>
      live_objects statics (snapshot_world (w_memory w0) L w0 (snapshot_taken w0)) \<subseteq> live_objects statics w0"
  proof (rule ready_keep[OF ready])
    have "roots_of (snapshot_taken w0) = roots_of w0" by (simp add: roots_of_def snapshot_taken_def Let_def)
    then show "set (concat (roots_of (snapshot_world (w_memory w0) L w0 (snapshot_taken w0)))) \<subseteq> live_objects statics w0"
      using L roots_live[of w0 statics] by simp
  qed (simp_all add: lasting_heap_objects[OF g(3)])
  moreover have "set L \<subseteq> live_objects statics (snapshot_world (w_memory w0) L w0 (snapshot_taken w0))"
    using roots_live[of "snapshot_world (w_memory w0) L w0 (snapshot_taken w0)" statics] by simp
  moreover have "mark_core (types_ops statics) ?tm (w_memory w0) objs (heap_info_of (ss_mm (w_shared w0)) second)
      (ss_mark_true_bit (w_shared w0)) builder_new [] ?st"
    by (rule mark_inv_core[OF types.mark_inv_start[where roots = "[]"]]) (use g(5) clear in simp_all)
  moreover have "flushed (snapshot_taken w0)" using fl by (simp add: flushed_def snapshot_taken_def Let_def)
  ultimately have "mark_world statics objs gc w0 second L (w_memory w0) [] ?st (snapshot_taken w0)"
    using L second clear(4) ctx_room_fresh[OF clear(5,6)]
    by (intro mark_worldI) (auto simp: snapshot_taken_def Let_def)
  then show thesis
    by (rule that[rotated -1]) (simp_all add: marking_start_def snapshot_args_def marker_new_def snapshot_taken_def Let_def)
qed

text \<open>No live object loses a pointer.\<close>

definition careful :: "static_memory \<Rightarrow> types_state world \<Rightarrow> types_state world \<Rightarrow> bool" where
  "careful statics w w' \<longleftrightarrow> mutation statics w w' \<and>
     (\<forall>x \<in> live_objects statics w. set (pointers_of statics (w_memory w) x) \<subseteq> set (pointers_of statics (w_memory w') x))"

lemma tricolour_mutation:
  assumes inv: "mark_world statics objs gc w0 second L m order st w" "mark_world statics objs gc w0 second L m' order st' w'"
    and tri: "tricolour statics w0 L m order st roots" and st': "ms_stack st' = ms_stack st"
    and rest: "\<forall>y \<in> objs - live_objects statics w. pointers_of statics m' y = pointers_of statics m y"
    and kept: "\<forall>x \<in> live_objects statics w. set (pointers_of statics (w_memory w) x) \<subseteq> set (pointers_of statics (w_memory w') x)"
  shows "tricolour statics w0 L m' order st' roots"
proof -
  note o = mark_world_objects[OF inv(1)] and o' = mark_world_objects[OF inv(2)]
  have "set (pointers_of statics m x) \<subseteq> set (pointers_of statics m' x)" if "x \<in> set L" for x
  proof -
    have "x \<in> objs" using that o(1) by blast
    with rest bspec[OF kept, of x] o(5)[OF this] o'(5)[OF this] show ?thesis
      by (cases "x \<in> live_objects statics w") simp_all
  qed
  then have "set (pointers_of statics (w_memory w0) x) \<subseteq> (if x \<in> fst ` set order
      then fst ` set order \<union> set (ms_stack st) else set (pointers_of statics m' x))" if "x \<in> set L" for x
    using tricolourD(3,4)[OF tri that] that by (cases "x \<in> fst ` set order") auto
  with tricolourD(1,2)[OF tri] show ?thesis unfolding tricolour_def st' by blast
qed

lemma marking_run_inv:
  assumes run: "marking_run statics (heap_info_of (ss_mm (w_shared w0)) second) (ss_mark_true_bit (w_shared w0)) (careful statics)
      (concat (roots_of w0), st0, w1) n c"
    and start: "mark_world statics objs gc w0 second L (w_memory w0) [] st0 w1" "ms_stack st0 = []"
      "set L = live_objects statics w0"
  shows "\<exists>m order. case c of (roots, st, w) \<Rightarrow> mark_world statics objs gc w0 second L m order st w \<and>
    tricolour statics w0 L m order st roots \<and>
    n + marking_work statics w0 L order st roots \<le> marking_work statics w0 L [] st0 (concat (roots_of w0))"
  using run
proof induction
  case marking_begin
  have "tricolour statics w0 L (w_memory w0) [] st0 (concat (roots_of w0))"
    using roots_live[of w0 statics] start(2,3) unfolding tricolour_def by simp
  with start show ?case by (intro exI[of _ "w_memory w0"] exI[of _ "[]"]) simp
next
  case (marking_step n c c')
  obtain roots st w where c: "c = (roots, st, w)" by (cases c)
  from marking_step.IH obtain m order where i: "mark_world statics objs gc w0 second L m order st w" "tricolour statics w0 L m order st roots"
    "n + marking_work statics w0 L order st roots \<le> marking_work statics w0 L [] st0 (concat (roots_of w0))" by (auto simp: c)
  from marking_step.hyps(2)[unfolded c] show ?case
  proof (cases rule: marker_iterate_cases)
    case (root obj roots')
    from mark_world_root[OF i(1) root(2) i(2)[unfolded root(1)]] i(3) show ?thesis
      unfolding root by (intro exI[of _ m] exI[of _ order]) simp
  next
    case (object obj rest st')
    show ?thesis
    proof (cases "obj \<in> fst ` set order")
      case True
      note o = mark_world_old[OF i(1) object(1) True i(2)]
      have "st' = st\<lparr>ms_stack := rest, ms_total := ms_total st + 1\<rparr>" using o(1) object(2) by simp
      with o(2-4) i(3) show ?thesis unfolding object(3) by (intro exI[of _ m] exI[of _ order]) simp
    next
      case False
      from mark_world_fresh[OF i(1) object(1) False i(2)] object(2) obtain d where
        "mark_world statics objs gc w0 second L m (order @ [(obj, d)]) st' (w\<lparr>w_memory := ms_memory st'\<rparr>)"
        "tricolour statics w0 L m (order @ [(obj, d)]) st' roots"
        "Suc (marking_work statics w0 L (order @ [(obj, d)]) st' roots) \<le> marking_work statics w0 L order st roots"
        by (metis sum.inject(2))
      with i(3) show ?thesis unfolding object(3) by (intro exI[of _ m] exI[of _ "order @ [(obj, d)]"]) simp
    qed
  qed
next
  case (marking_mutate n roots st w w')
  then obtain m order where i: "mark_world statics objs gc w0 second L m order st w" "tricolour statics w0 L m order st roots"
    "n + marking_work statics w0 L order st roots \<le> marking_work statics w0 L [] st0 (concat (roots_of w0))" by auto
  have step: "mutation statics w w'"
    "\<forall>x \<in> live_objects statics w. set (pointers_of statics (w_memory w) x) \<subseteq> set (pointers_of statics (w_memory w') x)"
    using marking_mutate(2) by (simp_all add: careful_def)
  from mark_world_mutation[OF i(1) step(1)] obtain m' where
    m': "mark_world statics objs gc w0 second L m' order (st\<lparr>ms_memory := w_memory w'\<rparr>) w'"
      "\<forall>y \<in> objs - live_objects statics w. pointers_of statics m' y = pointers_of statics m y" .
  from tricolour_mutation[OF i(1) m'(1) i(2) _ m'(2) step(2)] m'(1) i(3) show ?case
    by (intro exI[of _ m'] exI[of _ order]) (simp add: marking_work_def)
qed

text \<open>When the marker is done it has marked what was live when the roots were saved.\<close>

lemma marking_complete:
  assumes inv: "mark_world statics objs gc w0 second L m order st w" and tri: "tricolour statics w0 L m order st []"
    and st: "ms_stack st = []" and L: "set L = live_objects statics w0"
  shows "fst ` set order = set L"
proof -
  note i = mark_worldD[OF inv] and t = tricolourD[OF tri]
  have "set (concat (roots_of w0)) \<subseteq> fst ` set order" using t(2) st by simp
  then have "live_objects statics w0 \<subseteq> fst ` set order"
    by (rule live_closed) (use t(3) i(4) st in \<open>fastforce simp: subset_iff\<close>)
  then show ?thesis using i(4) L by simp
qed

section \<open>Properties\<close>

lemma live_list:
  assumes "gc_ready statics objs gc w"
  obtains L where "set L = live_objects statics w" "distinct L"
  using finite_distinct_list[OF gc_ready_finite[OF assms]] by blast

text \<open>Progress: an iteration that is due does not panic, in any state that a run can reach.\<close>

lemma marking_progress:
  assumes inv: "mark_world statics objs gc w0 second L m order st w" "tricolour statics w0 L m order st roots"
    and left: "\<not> marking_done (roots, st, w)"
  shows "\<exists>c'. marker_iterate statics (heap_info_of (ss_mm (w_shared w0)) second) (ss_mark_true_bit (w_shared w0)) (roots, st, w) =
    Some (Inr c')"
proof (cases "ms_stack st")
  case Nil
  with left obtain obj rest where "roots = obj # rest" by (cases roots) (auto simp: marking_done_def)
  with Nil show ?thesis by (simp add: marker_iterate_def)
next
  case (Cons obj rest)
  show ?thesis
  proof (cases "obj \<in> fst ` set order")
    case True
    from mark_world_old(1)[OF inv(1) Cons True inv(2)] Cons show ?thesis by (simp add: marker_iterate_def)
  next
    case False
    from inv(1) Cons False inv(2) show ?thesis
      by (rule mark_world_fresh) (simp add: marker_iterate_def Cons)
  qed
qed

text \<open>Two steps for a root and one for a field of an object that is live at the snapshot.\<close>

definition marking_bound :: "static_memory \<Rightarrow> types_state world \<Rightarrow> nat" where
  "marking_bound statics w =
     2 * length (concat (roots_of w)) + (\<Sum>x \<in> live_objects statics w. length (fields_of statics (w_memory w) x))"

lemma marking_reached:
  assumes ready: "gc_ready statics objs gc w0" and fl: "flushed w0" and second: "ss_second_mm (w_shared w0) = [second]"
    and L: "set L = live_objects statics w0"
    and run: "marking_run statics (heap_info_of (ss_mm (w_shared w0)) second) (ss_mark_true_bit (w_shared w0)) (careful statics)
      (marking_start marker_new builder_new (snapshot_args w0 second) (snapshot_taken w0)) n (roots, st, w)"
  obtains m order where "mark_world statics objs gc w0 second L m order st w" "tricolour statics w0 L m order st roots"
    "n \<le> marking_bound statics w0"
proof -
  from mark_world_start[OF ready fl second L] obtain st0 where
    st0: "marking_start marker_new builder_new (snapshot_args w0 second) (snapshot_taken w0) = (concat (roots_of w0), st0, snapshot_taken w0)"
      "ms_stack st0 = []" "mark_world statics objs gc w0 second L (w_memory w0) [] st0 (snapshot_taken w0)" by metis
  from marking_run_inv[OF run[unfolded st0(1)] st0(3,2) L] obtain m order where
    "mark_world statics objs gc w0 second L m order st w" "tricolour statics w0 L m order st roots"
    "n + marking_work statics w0 L order st roots \<le> marking_work statics w0 L [] st0 (concat (roots_of w0))" by auto
  then show thesis using st0(2) L by (intro that) (simp_all add: marking_work_def marking_bound_def)
qed

text \<open>
  C4: The marker and careful mutators, interleaved in any order. From a heap that is ready for a cycle
  step 1 saves the roots without a panic. After that let mutators run between the iterations of the
  marker: they join, replace their roots by live objects, write data, and write pointers to live objects
  into fields, but do not allocate, and no live object loses a pointer. In every state that is reached the
  marker has made at most two iterations for a root and one for a field of an object that was live at
  the snapshot; it is done, or its next iteration does not panic; what the mutators can reach was live at
  the snapshot; and when the marker is done it has marked exactly what was live then.
\<close>

theorem concurrent_marking_correct:
  assumes "gc_ready statics objs gc w0" "flushed w0"
  shows "\<exists>args w1. gc_step1 (types_ops statics) (gc_init gc) w0 = Inr (args, w1) \<and>
    (\<forall>n roots st w. marking_run statics (s2_heap args) (s2_mark_true_bit args) (careful statics)
        (marking_start marker_new builder_new args w1) n (roots, st, w) \<longrightarrow>
      n \<le> marking_bound statics w0 \<and>
      (let step = marker_iterate statics (s2_heap args) (s2_mark_true_bit args) (roots, st, w) in
       (step = None \<or> (\<exists>c'. step = Some (Inr c'))) \<and>
       live_objects statics w \<subseteq> live_objects statics w0 \<and>
       (step = None \<longrightarrow>
         (\<forall>x \<in> objs. obj_marked (s2_mark_true_bit args) (w_memory w) x \<longleftrightarrow> x \<in> live_objects statics w0))))"
proof -
  obtain L where L: "set L = live_objects statics w0" "distinct L" by (rule live_list[OF assms(1)])
  obtain second where second: "ss_second_mm (w_shared w0) = [second]" by (rule gc_ready_second[OF assms(1)])
  let ?args = "snapshot_args w0 second"
  have args: "s2_heap ?args = heap_info_of (ss_mm (w_shared w0)) second" "s2_mark_true_bit ?args = ss_mark_true_bit (w_shared w0)"
    by (simp_all add: snapshot_args_def)
  have "n \<le> marking_bound statics w0 \<and> live_objects statics w \<subseteq> live_objects statics w0 \<and>
      (\<not> marking_done (roots, st, w) \<longrightarrow>
        (\<exists>c'. marker_iterate statics (s2_heap ?args) (s2_mark_true_bit ?args) (roots, st, w) = Some (Inr c'))) \<and>
      (marking_done (roots, st, w) \<longrightarrow>
        (\<forall>x \<in> objs. obj_marked (s2_mark_true_bit ?args) (w_memory w) x \<longleftrightarrow> x \<in> live_objects statics w0))"
    if "marking_run statics (s2_heap ?args) (s2_mark_true_bit ?args) (careful statics)
      (marking_start marker_new builder_new ?args (snapshot_taken w0)) n (roots, st, w)" for n roots st w
  proof -
    from marking_reached[OF assms second L(1) that[unfolded args]] obtain m order where
      i: "mark_world statics objs gc w0 second L m order st w" "tricolour statics w0 L m order st roots"
        "n \<le> marking_bound statics w0" .
    have "obj_marked (ss_mark_true_bit (w_shared w0)) (w_memory w) x \<longleftrightarrow> x \<in> live_objects statics w0"
      if "marking_done (roots, st, w)" "x \<in> objs" for x
      using that marking_complete[OF i(1) _ _ L(1)] i(2) mark_coreD(2)[OF mark_worldD(3)[OF i(1)]] mark_worldD(6)[OF i(1)] L(1)
      by (simp add: marking_done_def)
    then show ?thesis using i(3) marking_progress[OF i(1,2)] mark_world_objects(3)[OF i(1)] L(1) unfolding args by simp
  qed
  then show ?thesis
    unfolding Let_def marker_iterate_done
    by (intro exI[of _ ?args] exI[of _ "snapshot_taken w0"] conjI[OF gc_step1_eq[OF gc_readyD(1)[OF assms(1)] second]]) blast
qed

lemma sample_world_flushed: "flushed sample_world"
  by (simp add: flushed_def sample_world_def mm_context_new_def)

lemma sample_world_reroot: "careful statics w (set_roots thread [] w)"
  by (auto simp: careful_def intro: mutation.reroot)

theorem concurrent_marking_correct_witness:
  "\<exists>args w1 w c'. gc_step1 (types_ops sample_statics) (gc_init None) sample_world = Inr (args, w1) \<and>
     marking_run sample_statics (s2_heap args) (s2_mark_true_bit args) (careful sample_statics)
       (marking_start marker_new builder_new args w1) 0 w \<and>
     marker_iterate sample_statics (s2_heap args) (s2_mark_true_bit args) w = Some (Inr c')"
proof -
  from concurrent_marking_correct[OF sample_world_ready sample_world_flushed] obtain args w1 where
    a: "gc_step1 (types_ops sample_statics) (gc_init None) sample_world = Inr (args, w1)"
      "\<And>n roots st w. marking_run sample_statics (s2_heap args) (s2_mark_true_bit args) (careful sample_statics)
        (marking_start marker_new builder_new args w1) n (roots, st, w) \<Longrightarrow>
        marker_iterate sample_statics (s2_heap args) (s2_mark_true_bit args) (roots, st, w) = None \<or>
        (\<exists>c'. marker_iterate sample_statics (s2_heap args) (s2_mark_true_bit args) (roots, st, w) = Some (Inr c'))"
    unfolding Let_def by blast
  obtain second where second: "ss_second_mm (w_shared sample_world) = [second]" by (rule gc_ready_second[OF sample_world_ready])
  have args: "args = snapshot_args sample_world second" using a(1) gc_step1_eq[OF refl second] by simp
  obtain st where c: "marking_start marker_new builder_new args w1 = (concat (roots_of sample_world), st, w1)"
    unfolding args by (simp add: marking_start_def snapshot_args_def)
  have run: "marking_run sample_statics (s2_heap args) (s2_mark_true_bit args) (careful sample_statics)
    (marking_start marker_new builder_new args w1) 0
    (concat (roots_of sample_world), st\<lparr>ms_memory := w_memory (set_roots 1 [] w1)\<rparr>, set_roots 1 [] w1)"
    unfolding c
    by (rule marking_mutate[where mutators = "careful sample_statics", OF _ sample_world_reroot]) (rule marking_begin)
  have "\<not> marking_done (concat (roots_of sample_world), st\<lparr>ms_memory := w_memory (set_roots 1 [] w1)\<rparr>, set_roots 1 [] w1)"
    by (simp add: marking_done_def roots_of_def sample_world_def)
  with a(2)[OF run] a(1) run show ?thesis unfolding marker_iterate_done by blast
qed

end
