(* ===== verification/Concurrent_Cycle.thy ===== *)
theory Concurrent_Cycle
  imports Concurrent_Marking
begin

text \<open>
  A whole cycle with mutators running in it: step 1, the marker interleaved with careful mutators,
  more mutators until step 3 stops the world, steps 3 and 4, and mutators, who may now allocate in
  the new space, until step 5. Every panic of these steps is excluded, and mutators see their objects
  moved and nothing else. At the end: what happens when mutators are not careful.
\<close>

section \<open>The queue of cleared spaces\<close>

text \<open>No step of a mutator looks at the queue, so step 5 could as well come before it.\<close>

definition queued :: "heap_mm list \<Rightarrow> 'tm world \<Rightarrow> 'tm world" where
  "queued q w = w\<lparr>w_shared := (w_shared w)\<lparr>ss_second_mm := q\<rparr>\<rparr>"

lemma queued_simps [simp]:
  "ss_mm (w_shared (queued q w)) = ss_mm (w_shared w)" "ss_second_mm (w_shared (queued q w)) = q"
  "ss_contexts (w_shared (queued q w)) = ss_contexts (w_shared w)"
  "ss_mark_true_bit (w_shared (queued q w)) = ss_mark_true_bit (w_shared w)"
  "ss_type_manager (w_shared (queued q w)) = ss_type_manager (w_shared w)"
  "w_memory (queued q w) = w_memory w" "roots_of (queued q w) = roots_of w"
  "live_objects statics (queued q w) = live_objects statics w" "roots_in thread (queued q w) = roots_in thread w"
  "within_budget statics (queued q w) \<longleftrightarrow> within_budget statics w"
  by (simp_all add: queued_def roots_of_def live_objects_def roots_in_def within_budget_def)

lemma queued_steps:
  "set_roots thread roots (queued q w) = queued q (set_roots thread roots w)"
  "add_context thread roots (queued q w) = queued q (add_context thread roots w)"
  "write_world a p (queued q w) = queued q (write_world a p w)"
  "poke_world a v (queued q w) = queued q (poke_world a v w)"
  "root_object thread obj m (queued q w) = queued q (root_object thread obj m w)"
  by (simp_all add: queued_def set_roots_def add_context_def new_context_def write_world_def poke_world_def
      root_object_def roots_in_def Let_def split: option.split)

lemma queued_alloc_fast:
  "alloc_fast checks ops thread ty extra (queued q w) =
     bind_res (alloc_fast checks ops thread ty extra w) (\<lambda>(w', ret). Inr (queued q w', ret))"
proof (cases w)
  case (fields ss c m)
  then show ?thesis
    by (cases ss) (simp add: alloc_fast_def Let_def queued_def bind_res_def split: sum.split option.split prod.split)
qed

lemma queued_alloc:
  assumes "alloc_fast checks ops thread ty extra w = Inr (w', ret)"
  shows "alloc_fast checks ops thread ty extra (queued q w) = Inr (queued q w', ret)"
    "ss_second_mm (w_shared w') = ss_second_mm (w_shared w)"
proof -
  show "alloc_fast checks ops thread ty extra (queued q w) = Inr (queued q w', ret)"
    using assms by (simp add: queued_alloc_fast)
  show "ss_second_mm (w_shared w') = ss_second_mm (w_shared w)"
    using assms by (auto simp: alloc_fast_def Let_def res_eq_simps split: option.splits)
qed

lemma queued_mutation:
  assumes "mutation statics w w'"
  shows "mutation statics (queued q w) (queued q w')"
  using assms
proof cases
  case (add_thread roots thread)
  show ?thesis unfolding add_thread(1) queued_steps(2)[symmetric] by (rule mutation.add_thread) (simp add: add_thread)
next
  case (reroot roots thread)
  show ?thesis unfolding reroot(1) queued_steps(1)[symmetric] by (rule mutation.reroot) (simp add: reroot)
next
  case (store_pointer x a p)
  show ?thesis unfolding store_pointer(1) queued_steps(3)[symmetric]
    by (rule mutation.store_pointer) (use store_pointer in simp_all)
next
  case (store_data x a v)
  show ?thesis unfolding store_data(1) queued_steps(4)[symmetric]
    by (rule mutation.store_data) (use store_data in simp_all)
qed

lemma queued_mutator_step:
  assumes "mutator_step statics w w'"
  shows "mutator_step statics (queued q w) (queued q w')" "ss_second_mm (w_shared w') = ss_second_mm (w_shared w)"
proof -
  have "mutator_step statics (queued q w) (queued q w') \<and> ss_second_mm (w_shared w') = ss_second_mm (w_shared w)"
    using assms
  proof cases
    case (allocate thread cs ty sz extra n checks w1 obj m)
    have "mutator_step statics (queued q w) (root_object thread obj m (queued q w1))"
      by (rule mutator_step.allocate[OF _ _ _ _ _ _ queued_alloc(1)])
        (use allocate(2-10) in \<open>simp_all add: queued_steps\<close>)
    then show ?thesis using allocate(1) queued_alloc(2)[OF allocate(8)] by (simp add: queued_steps)
  next
    case mutate
    from mutation_frame(1)[OF this] have "ss_second_mm (w_shared w') = ss_second_mm (w_shared w)"
      by (metis shared_state.select_convs(2) shared_state.surjective shared_state.update_convs(3))
    then show ?thesis using queued_mutation[OF mutate] by (simp add: mutator_step.mutate)
  qed
  then show "mutator_step statics (queued q w) (queued q w')" "ss_second_mm (w_shared w') = ss_second_mm (w_shared w)"
    by simp_all
qed

lemma queued_mutator_steps:
  assumes "rtranclp (mutator_step statics) w w'"
  shows "rtranclp (mutator_step statics) (queued q w) (queued q w') \<and> ss_second_mm (w_shared w') = ss_second_mm (w_shared w)"
  using assms
proof induction
  case (step w1 w2)
  with queued_mutator_step(1)[OF step.hyps(2), of q] queued_mutator_step(2)[OF step.hyps(2)] show ?case
    by (auto intro: rtranclp.rtrancl_into_rtrancl)
qed simp

lemma mutator_steps_inv:
  "rtranclp (mutator_step statics) w w' \<Longrightarrow> system_inv statics gc w \<Longrightarrow> system_inv statics gc w'"
  by (induction rule: rtranclp_induct) (auto intro: mutator_step_inv)

section \<open>Step 5\<close>

text \<open>
  Objects have been moved by \<open>f\<close>, and so have the roots. Step 5 moves nothing.
\<close>

definition moved :: "static_memory \<Rightarrow> (object_ptr \<Rightarrow> object_ptr) \<Rightarrow> types_state world \<Rightarrow> types_state world \<Rightarrow> bool" where
  "moved statics f w w' \<longleftrightarrow>
     inj_on f (live_objects statics w) \<and>
     (\<forall>obj \<in> live_objects statics w. relocated statics (w_memory w) (w_memory w') f obj) \<and>
     roots_of w' = map (map f) (roots_of w)"

lemma clear_ready:
  assumes ready: "gc_ready statics objs gc w" and al: "heap_allocated statics objs w"
    and second: "ss_second_mm (w_shared w) = [second]"
  defines "w' \<equiv> w\<lparr>w_memory := mm_clear second (w_memory w)\<rparr>"
  shows "gc_ready statics objs gc w'" "heap_allocated statics objs w'" "moved statics (\<lambda>x. x) w w'"
proof -
  note g = gc_readyD[OF ready]
  have apart: "mm_area (ss_mm (w_shared w)) \<inter> mm_area second = {}"
    using gc_ready_second[OF ready] second by (metis list.inject)
  have same: "w_memory w' a = w_memory w a" if "x \<in> objs" "a \<in> block x (size_of statics (w_memory w) x)" for x a
  proof -
    have "a \<notin> mm_area second" using g(6)[OF that(1)] that(2) apart by blast
    then show ?thesis by (simp add: w'_def mm_clear_def zero_range_def mm_area_def del: in_block)
  qed
  note o = types.same_object[OF lasting_heap_objects[OF g(3)] same]
  have shared: "w_shared w' = w_shared w" "roots_of w' = roots_of w" by (simp_all add: w'_def roots_of_def)
  show "gc_ready statics objs gc w'"
    using ready_keep[OF ready, of w'] o shared roots_live[of w statics] by simp
  show "heap_allocated statics objs w'"
    by (rule allocated_keep[OF al]) (use o shared heap_allocatedD(2,3)[OF al] in auto)
  have "relocated statics (w_memory w) (w_memory w') (\<lambda>x. x) x" if "x \<in> live_objects statics w" for x
  proof -
    have x: "x \<in> objs" using that gc_ready_live(1)[OF ready] by blast
    then show ?thesis using o[OF x x] same[OF x] by (simp add: relocated_def)
  qed
  then show "moved statics (\<lambda>x. x) w w'" by (simp add: moved_def shared)
qed

lemma step5_ready:
  assumes inv: "system_inv statics gc (queued [second] w)" and empty: "ss_second_mm (w_shared w) = []"
    and step: "gc_step5 \<lparr>s5_gc = gc_init None, s5_second_mm = second\<rparr> w = (gc', w')"
  shows "system_inv statics (Some gc') w'" "moved statics (\<lambda>x. x) w w'"
proof -
  let ?w = "queued [second] w"
  obtain objs where i: "gc_ready statics objs gc ?w" "heap_allocated statics objs ?w" using inv by (auto simp: system_inv_def)
  have w': "gc' = gc_init None" "w' = ?w\<lparr>w_memory := mm_clear second (w_memory ?w)\<rparr>"
    using step empty by (simp_all add: gc_step5_def enqueue_to_be_cleared_mm_def queued_def)
  note c = clear_ready[OF i, of second, folded w'(2)]
  have "gc_ready statics objs (Some gc') w'"
    using c(1) unfolding gc_ready_def Let_def w'(1) gc_init_again by simp
  then show "system_inv statics (Some gc') w'" using c(2) by (auto simp: system_inv_def)
  show "moved statics (\<lambda>x. x) w w'" using c(3) by (simp add: moved_def)
qed

section \<open>Steps 3 and 4\<close>

text \<open>What \<open>Marker::start\<close> does when its last root has been visited, and the result of step 2.\<close>

definition marker_end :: "heap_info \<Rightarrow> mark_state \<Rightarrow> mark_state res" where
  "marker_end hi st =
     bind_res (usub (hi_used_end hi) (hi_start hi)) (\<lambda>used.
     bind_res (usub (get_top_addr (snd (ms_alloc st))) (get_base_addr (snd (ms_alloc st)))) (\<lambda>compacted.
       Inr st))"

definition marking_result :: "step2_args \<Rightarrow> mark_state \<Rightarrow> step3_args" where
  "marking_result args st =
     \<lparr>s3_gc = (s2_gc args)\<lparr>ps_cached_registry := None, ps_cached_marker := Some \<lparr>mk_stack = ms_stack st\<rparr>\<rparr>,
      s3_second_mm = (s2_second_mm args)\<lparr>mm_page_table := snd (ms_alloc st)\<rparr>,
      s3_relocation_registry = ms_registry st, s3_heap = s2_heap args\<rparr>"

text \<open>The world after step 4.\<close>

definition relocated_world :: "types_state world \<Rightarrow> heap_mm \<Rightarrow> (object_ptr \<times> nat) list \<Rightarrow> mark_state \<Rightarrow> memory
    \<Rightarrow> types_state world \<Rightarrow> types_state world" where
  "relocated_world w0 second order st M w =
     w\<lparr>w_shared := (w_shared w)\<lparr>ss_mm := second\<lparr>mm_page_table := snd (ms_alloc st)\<rparr>,
          ss_contexts := map (\<lambda>(thread, cs). (thread, cs\<lparr>cs_root_set := map (new_place order) (cs_root_set cs)\<rparr>))
            (ss_contexts (w_shared w)),
          ss_type_manager := types_wipe_deads (types_assume_all_dead (ss_type_manager (w_shared w0)))\<rparr>,
        w_memory := M\<rparr>"

lemma relocated_world_simps [simp]:
  "ss_mm (w_shared (relocated_world w0 second order st M w)) = second\<lparr>mm_page_table := snd (ms_alloc st)\<rparr>"
  "ss_second_mm (w_shared (relocated_world w0 second order st M w)) = ss_second_mm (w_shared w)"
  "ss_mark_true_bit (w_shared (relocated_world w0 second order st M w)) = ss_mark_true_bit (w_shared w)"
  "ss_contexts (w_shared (relocated_world w0 second order st M w)) =
     map (\<lambda>(thread, cs). (thread, cs\<lparr>cs_root_set := map (new_place order) (cs_root_set cs)\<rparr>)) (ss_contexts (w_shared w))"
  "w_memory (relocated_world w0 second order st M w) = M"
  "roots_of (relocated_world w0 second order st M w) = map (map (new_place order)) (roots_of w)"
  by (simp_all add: relocated_world_def roots_of_def o_def split_def)

lemma mark_world_shared:
  assumes "mark_world statics objs gc w0 second L m order st w"
  shows "ss_mm (w_shared w) = ss_mm (w_shared w0)" "ss_second_mm (w_shared w) = []"
    "ss_mark_true_bit (w_shared w) = bit_not (ss_mark_true_bit (w_shared w0))"
    "ss_type_manager (w_shared w) = types_assume_all_dead (ss_type_manager (w_shared w0))"
  by (subst mark_worldD(8)[OF assms], simp)+

text \<open>At the end of marking, the invariant of the marker holds for the unmarked memory.\<close>

lemma mark_world_done:
  assumes inv: "mark_world statics objs gc w0 second L m order st w" and st: "ms_stack st = []"
    and all: "fst ` set order = set L"
  shows "mark_inv (types_ops statics) (types_assume_all_dead (ss_type_manager (w_shared w0))) m objs
    (heap_info_of (ss_mm (w_shared w0)) second) (ss_mark_true_bit (w_shared w0)) builder_new
    (concat (roots_of (snapshot_world m L w0 w))) order st"
proof -
  note i = mark_worldD[OF inv] and o = mark_world_objects[OF inv]
  let ?tm = "types_assume_all_dead (ss_type_manager (w_shared w0))"
  have "obj_pointers (types_ops statics) ?tm m x = pointers_of statics m x" if "x \<in> set L" for x
    using lasting_object(3)[OF lasting_heap_objects[OF gc_readyD(3)[OF i(1)]], of x ?tm] that o(1) by auto
  then have "\<forall>x \<in> set L. set (obj_pointers (types_ops statics) ?tm m x) \<subseteq> set L" using o(7) by simp
  then show ?thesis using i(3) unfolding mark_inv_def all st by (auto intro: reaches.root)
qed

lemma steps_3_4:
  assumes inv: "mark_world statics objs gc w0 second L m order st w" and st: "ms_stack st = []"
    and all: "fst ` set order = set L" and os: "kernel_ok os" and jobs: "schedules_ok schedule"
  obtains args4 w4 M where
    "gc_step3 (types_ops statics) checks (marking_result (snapshot_args w0 second) st) w = Inr (args4, w4)"
    "gc_step4 (types_ops statics) os schedule args4 w4 =
      Inr (\<lparr>s5_gc = gc_init None, s5_second_mm = ss_mm (w_shared w0)\<rparr>, relocated_world w0 second order st M w)"
    "cycle_result statics objs (snapshot_world m L w0 w) second order st M"
proof -
  let ?G = "snapshot_world m L w0 w" and ?ss = "w_shared w0"
  let ?tm = "types_assume_all_dead (ss_type_manager ?ss)" and ?hi = "heap_info_of (ss_mm ?ss) second"
  note i = mark_worldD[OF inv] and o = mark_world_objects[OF inv] and sh = mark_world_shared[OF inv]
  have sum: "(\<Sum>x \<in> set L. alloc_need (size_of statics m x)) = (\<Sum>x \<in> set L. alloc_need (size_of statics (w_memory w0) x))"
    using i(9) by (intro sum.cong) simp_all
  obtain m' where
    "copier_finish (types_ops statics) (types_wipe_deads (types_assume_all_dead (ss_type_manager (w_shared ?G)))) os
        (schedule (copier_of (heap_info_of (ss_mm (w_shared ?G)) second) st (ss_mm (w_shared ?G))))
        (copier_of (heap_info_of (ss_mm (w_shared ?G)) second) st (ss_mm (w_shared ?G))) (ms_memory st) =
      Inr (builder_freeze (ms_registry st), ss_mm (w_shared ?G), m')"
    "cycle_result statics objs ?G second order st (mm_clear (ss_mm (w_shared ?G)) m')"
    "\<forall>x \<in> live_objects statics ?G. fix_root (heap_info_of (ss_mm (w_shared ?G)) second) (builder_freeze (ms_registry st)) x =
      Inr (new_place order x)"
  proof (rule copy_phase[OF i(1) os jobs, where second = second and order = order and st = st])
    show "mark_inv (types_ops statics) (types_assume_all_dead (ss_type_manager (w_shared ?G))) (w_memory ?G) objs
        (heap_info_of (ss_mm (w_shared ?G)) second) (ss_mark_true_bit (w_shared ?G)) builder_new
        (concat (roots_of ?G)) order st"
      using mark_world_done[OF inv st all] by simp
    show "fresh_room (pt_nr_pages (mm_page_table second)) \<le> ctx_room (ms_alloc st) +
        (\<Sum>x \<in> live_objects statics ?G. alloc_need (size_of statics (w_memory ?G) x))"
      using i(2,12) all sum by simp
  qed (simp_all add: st all i(2,11,13))
  then have m': "copier_finish (types_ops statics) (types_wipe_deads ?tm) os (schedule (copier_of ?hi st (ss_mm ?ss)))
      (copier_of ?hi st (ss_mm ?ss)) (ms_memory st) = Inr (builder_freeze (ms_registry st), ss_mm ?ss, m')"
    "cycle_result statics objs ?G second order st (mm_clear (ss_mm ?ss) m')"
    "\<forall>x \<in> set L. fix_root ?hi (builder_freeze (ms_registry st)) x = Inr (new_place order x)"
    using i(2) by simp_all
  have roots: "fix_contexts (fix_root ?hi (builder_freeze (ms_registry st))) (ss_contexts (w_shared w)) =
      Inr (map (\<lambda>(thread, cs). (thread, cs\<lparr>cs_root_set := map (new_place order) (cs_root_set cs)\<rparr>)) (ss_contexts (w_shared w)))"
    using m'(3) o(2) by (intro fix_contexts_total) (fastforce simp: roots_of_def)
  let ?w4 = "w\<lparr>w_shared := (w_shared w)\<lparr>
      ss_contexts := map (\<lambda>(thread, cs). (thread, cs\<lparr>cs_root_set := map (new_place order) (cs_root_set cs)\<rparr>)) (ss_contexts (w_shared w)),
      ss_type_manager := types_wipe_deads ?tm, ss_mm := second\<lparr>mm_page_table := snd (ms_alloc st)\<rparr>\<rparr>\<rparr>"
  let ?args4 = "\<lparr>s4_gc = \<lparr>ps_cached_registry = None, ps_cached_marker = Some marker_new, ps_copier = None\<rparr>,
    s4_copier = copier_of ?hi st (ss_mm ?ss)\<rparr>"
  have s3: "gc_step3 (types_ops statics) checks (marking_result (snapshot_args w0 second) st) w = Inr (?args4, ?w4)"
    using roots sh st
    by (simp add: gc_step3_def marking_result_def snapshot_args_def Let_def copier_of_def gc_init_new marker_new_def)
  have mem: "w_memory w = ms_memory st" by (rule i(6))
  have "gc_step4 (types_ops statics) os schedule ?args4 ?w4 =
      Inr (\<lparr>s5_gc = gc_init None, s5_second_mm = ss_mm ?ss\<rparr>, ?w4\<lparr>w_memory := mm_clear (ss_mm ?ss) m'\<rparr>)"
    using m'(1) by (simp add: gc_step4_def unfreeze_builder gc_init_new mem)
  moreover have "?w4\<lparr>w_memory := mm_clear (ss_mm ?ss) m'\<rparr> = relocated_world w0 second order st (mm_clear (ss_mm ?ss) m') w"
    by (cases "w_shared w") (simp add: relocated_world_def)
  ultimately show thesis using s3 m'(2) by (intro that) simp_all
qed

lemma relocated_ready:
  assumes inv: "mark_world statics objs gc w0 second L m order st w"
    and res: "cycle_result statics objs (snapshot_world m L w0 w) second order st M"
  defines "w5 \<equiv> relocated_world w0 second order st M w"
  shows "moved statics (new_place order) w w5"
    "system_inv statics (Some (gc_init None)) (queued [ss_mm (w_shared w0)] w5)"
proof -
  let ?G = "snapshot_world m L w0 w" and ?f = "new_place order" and ?q = "queued [ss_mm (w_shared w0)] w5"
  let ?cw = "cycle_world ?G second order st M"
  note i = mark_worldD[OF inv] and o = mark_world_objects[OF inv] and sh = mark_world_shared[OF inv]
  have heap: "lasting_heap statics m objs" using gc_readyD(3)[OF i(1)] by simp
  have mem: "w_memory ?cw = M" "ss_mm (w_shared ?cw) = ss_mm (w_shared w5)"
    "ss_second_mm (w_shared ?cw) = [ss_mm (w_shared w0)]" "ss_mark_true_bit (w_shared ?cw) = ss_mark_true_bit (w_shared w5)"
    using sh by (simp_all add: cycle_world_def Let_def w5_def)
  show "moved statics ?f w w5"
    unfolding moved_def
  proof (intro conjI ballI)
    show "inj_on ?f (live_objects statics w)"
      using cycle_inj[OF i(1) res] o(3) i(2) by (simp add: inj_on_subset)
    show "roots_of w5 = map (map ?f) (roots_of w)" by (simp add: w5_def)
    fix x assume "x \<in> live_objects statics w"
    then have x: "x \<in> live_objects statics ?G" "x \<in> objs" using o(1,3) i(2) by blast+
    note v = types.variant_same[OF heap mark_coreD(1)[OF i(3)] x(2), folded i(6)]
    show "relocated statics (w_memory w) (w_memory w5) ?f x"
      using cycle_object(1)[OF i(1) res x(1)] v(2-6) by (simp add: relocated_def w5_def)
  qed
  have s: "ss_second_mm (w_shared ?G) = [second]" using i(13) by simp
  note ready = cycle_ready[OF i(1) s res]
  have "gc_ready statics (?f ` live_objects statics ?G) (Some (gc_init None)) ?q \<and>
      live_objects statics ?q \<subseteq> live_objects statics ?cw"
  proof (rule ready_keep[OF ready])
    have "set (concat (roots_of ?q)) \<subseteq> set (concat (roots_of ?cw))"
      unfolding cycle_world_roots by (auto simp: w5_def)
    then show "set (concat (roots_of ?q)) \<subseteq> live_objects statics ?cw" using roots_live[of ?cw statics] by blast
  qed (use mem lasting_heap_objects[OF gc_readyD(3)[OF ready]] in \<open>simp_all add: w5_def\<close>)
  moreover have "context_ok (cs_mm_context cs) (snd (ms_alloc st))" if "(th, cs) \<in> set (ss_contexts (w_shared w))" for th cs
    using flushed_buffer[OF i(7) that] by (simp add: context_ok_def)
  then have "heap_allocated statics (?f ` live_objects statics ?G) ?q"
    using cycle_placed[OF i(1) res] i(7) unfolding heap_allocated_def Let_def flushed_def
    by (auto simp: w5_def o_def split_def simp del: in_block)
  ultimately show "system_inv statics (Some (gc_init None)) ?q" by (auto simp: system_inv_def)
qed

lemma mark_world_mutations:
  assumes "rtranclp (mutation statics) w w'" "mark_world statics objs gc w0 second L m order st w"
  shows "\<exists>m'. mark_world statics objs gc w0 second L m' order (st\<lparr>ms_memory := w_memory w'\<rparr>) w'"
  using assms
proof induction
  case base
  have "st\<lparr>ms_memory := w_memory w\<rparr> = st" using mark_worldD(6)[OF base] by simp
  with base show ?case by metis
next
  case (step w1 w2)
  then obtain m1 where "mark_world statics objs gc w0 second L m1 order (st\<lparr>ms_memory := w_memory w1\<rparr>) w1" by blast
  from mark_world_mutation[OF this step.hyps(2)] obtain m2 where
    "mark_world statics objs gc w0 second L m2 order (st\<lparr>ms_memory := w_memory w1, ms_memory := w_memory w2\<rparr>) w2" .
  then show ?case by auto
qed

lemma marker_end_ok:
  assumes "gc_ready statics objs gc w0" "ss_second_mm (w_shared w0) = [second]"
  shows "marker_end (heap_info_of (ss_mm (w_shared w0)) second) st = Inr st"
proof -
  have "mm_ok (ss_mm (w_shared w0))" by (rule gc_readyD(2)[OF assms(1)])
  then show ?thesis by (simp add: marker_end_def mm_ok_def get_top_addr_def get_base_addr_def)
qed

text \<open>The marker as one step: nothing moves.\<close>

lemma cycle_end:
  assumes "ss_second_mm (w_shared w5) = []" "system_inv statics (Some (gc_init None)) (queued [second] w5)"
    and "rtranclp (mutator_step statics) w5 w6" "gc_step5 \<lparr>s5_gc = gc_init None, s5_second_mm = second\<rparr> w6 = (gc', w7)"
  shows "moved statics (\<lambda>x. x) w6 w7 \<and> system_inv statics (Some gc') w7"
proof -
  from queued_mutator_steps[OF assms(3)] assms(1) have q: "rtranclp (mutator_step statics)
      (queued [second] w5) (queued [second] w6)" "ss_second_mm (w_shared w6) = []" by simp_all
  from step5_ready[OF mutator_steps_inv[OF q(1) assms(2)] q(2) assms(4)] show ?thesis by blast
qed

lemma atomic_marking:
  assumes ready: "gc_ready statics objs gc w0" and second: "ss_second_mm (w_shared w0) = [second]"
  obtains n st where
    "gc_step2 (types_ops statics) (snapshot_args w0 second) (snapshot_taken w0) =
      Some (Inr (marking_result (snapshot_args w0 second) st, (snapshot_taken w0)\<lparr>w_memory := ms_memory st\<rparr>))"
    "marking_run statics (s2_heap (snapshot_args w0 second)) (s2_mark_true_bit (snapshot_args w0 second)) (careful statics)
      (marking_start marker_new builder_new (snapshot_args w0 second) (snapshot_taken w0)) n
      ([], st, (snapshot_taken w0)\<lparr>w_memory := ms_memory st\<rparr>)" "ms_stack st = []"
    "moved statics (\<lambda>x. x) w0 ((snapshot_taken w0)\<lparr>w_memory := ms_memory st\<rparr>)"
proof -
  let ?args = "snapshot_args w0 second" and ?w = "snapshot_taken w0"
  note g = gc_readyD[OF ready]
  from mark_ready_total[OF gc_ready_mark[OF ready second, of "ss_type_manager (w_shared ?w)"]] obtain order st where
    st: "marker_start (types_ops statics) (ss_type_manager (w_shared ?w)) (w_memory w0) marker_new (roots_of w0)
      (mm_page_table second) builder_new (heap_info_of (ss_mm (w_shared w0)) second) (ss_mark_true_bit (w_shared w0)) = Some (Inr st)"
    "mark_inv (types_ops statics) (ss_type_manager (w_shared ?w)) (w_memory w0) objs
      (heap_info_of (ss_mm (w_shared w0)) second) (ss_mark_true_bit (w_shared w0)) builder_new (concat (roots_of w0)) order st" .
  have mem: "w_memory ?w = w_memory w0" "roots_of ?w = roots_of w0" by (simp_all add: snapshot_taken_def Let_def roots_of_def)
  have start: "marker_start (types_ops statics) (ss_type_manager (w_shared ?w)) (w_memory ?w) marker_new (s2_root ?args)
      (mm_page_table (s2_second_mm ?args)) builder_new (s2_heap ?args) (s2_mark_true_bit ?args) = Some (Inr st)"
    using st(1) by (simp add: mem snapshot_args_def)
  then have step2: "gc_step2 (types_ops statics) ?args ?w = Some (Inr (marking_result ?args st, ?w\<lparr>w_memory := ms_memory st\<rparr>))"
    by (simp add: gc_step2_def gc_init_new marking_result_def snapshot_args_def)
  note v = types.variant_same[OF g(3) mark_invD(1)[OF st(2)]]
  have "relocated statics (w_memory w0) (ms_memory st) (\<lambda>x. x) x" if "x \<in> live_objects statics w0" for x
  proof -
    have "x \<in> objs" using gc_ready_live(1)[OF ready] that by blast
    then show ?thesis using v(2,3,5,6)[of x] by (simp add: relocated_def)
  qed
  moreover have "roots_of (?w\<lparr>w_memory := ms_memory st\<rparr>) = roots_of w0" using mem(2) by (simp add: roots_of_def)
  ultimately have "moved statics (\<lambda>x. x) w0 (?w\<lparr>w_memory := ms_memory st\<rparr>)" by (simp add: moved_def)
  moreover have "mk_stack marker_new = []" by (simp add: marker_new_def)
  from marker_start_run[OF start this, of "careful statics"] obtain n where
    "marking_run statics (s2_heap ?args) (s2_mark_true_bit ?args) (careful statics)
      (marking_start marker_new builder_new ?args ?w) n ([], st, ?w\<lparr>w_memory := ms_memory st\<rparr>)" "ms_stack st = []" by blast
  ultimately show thesis using step2 by (intro that)
qed

section \<open>The cycle\<close>

text \<open>From a complete run of the marker on.\<close>

lemma cycle_after_marking:
  assumes ready: "gc_ready statics objs gc w0" and fl: "flushed w0" and os: "kernel_ok os" and jobs: "schedules_ok schedule"
    and second: "ss_second_mm (w_shared w0) = [second]"
    and run: "marking_run statics (s2_heap (snapshot_args w0 second)) (s2_mark_true_bit (snapshot_args w0 second)) (careful statics)
      (marking_start marker_new builder_new (snapshot_args w0 second) (snapshot_taken w0)) n ([], st, w2)" "ms_stack st = []"
    and muts: "rtranclp (mutation statics) w2 w3"
  obtains f args4 w4 w5 where
    "gc_step3 (types_ops statics) checks (marking_result (snapshot_args w0 second) st) w3 = Inr (args4, w4)"
    "gc_step4 (types_ops statics) os schedule args4 w4 = Inr (\<lparr>s5_gc = gc_init None, s5_second_mm = ss_mm (w_shared w0)\<rparr>, w5)"
    "moved statics f w3 w5" "ss_second_mm (w_shared w5) = []"
    "system_inv statics (Some (gc_init None)) (queued [ss_mm (w_shared w0)] w5)"
proof -
  obtain L where L: "set L = live_objects statics w0" "distinct L" by (rule live_list[OF ready])
  from mark_world_start[OF ready fl second L(1)] obtain st0 where
    st0: "marking_start marker_new builder_new (snapshot_args w0 second) (snapshot_taken w0) = (concat (roots_of w0), st0, snapshot_taken w0)"
      "ms_stack st0 = []" "mark_world statics objs gc w0 second L (w_memory w0) [] st0 (snapshot_taken w0)" by metis
  have hi: "s2_heap (snapshot_args w0 second) = heap_info_of (ss_mm (w_shared w0)) second"
    "s2_mark_true_bit (snapshot_args w0 second) = ss_mark_true_bit (w_shared w0)"
    by (simp_all add: snapshot_args_def)
  from marking_run_inv[OF run(1)[unfolded st0(1) hi] st0(3,2) L(1)] obtain m order where
    i: "mark_world statics objs gc w0 second L m order st w2" "tricolour statics w0 L m order st []" by auto
  from marking_complete[OF i run(2) L(1)] have all: "fst ` set order = set L" .
  from mark_world_mutations[OF muts i(1)] obtain m3 where
    i3: "mark_world statics objs gc w0 second L m3 order (st\<lparr>ms_memory := w_memory w3\<rparr>) w3" ..
  have st3: "ms_stack (st\<lparr>ms_memory := w_memory w3\<rparr>) = []"
    "marking_result (snapshot_args w0 second) (st\<lparr>ms_memory := w_memory w3\<rparr>) = marking_result (snapshot_args w0 second) st"
    using run(2) by (simp_all add: marking_result_def)
  from steps_3_4[OF i3 st3(1) all os jobs, of checks] obtain args4 w4 M where
    s: "gc_step3 (types_ops statics) checks (marking_result (snapshot_args w0 second) st) w3 = Inr (args4, w4)"
      "gc_step4 (types_ops statics) os schedule args4 w4 = Inr (\<lparr>s5_gc = gc_init None, s5_second_mm = ss_mm (w_shared w0)\<rparr>,
        relocated_world w0 second order (st\<lparr>ms_memory := w_memory w3\<rparr>) M w3)"
      "cycle_result statics objs (snapshot_world m3 L w0 w3) second order (st\<lparr>ms_memory := w_memory w3\<rparr>) M"
    unfolding st3(2) by metis
  from s(1,2) relocated_ready[OF i3 s(3)] mark_world_shared(2)[OF i3] show thesis
    by (intro that) simp_all
qed

text \<open>
  C2: A cycle with mutators in it is correct. The world is that of a running system and the looper has
  flushed the buffer pages. Step 1 does not panic. Let the marker then run interleaved with careful
  mutators, who do not allocate and keep the pointers of live objects: it comes to its end within a
  bound, and no iteration panics. Let the marker be done, and mutators of any kind that do not allocate run
  on until step 3 stops the world. Then the end of the marker and steps 3 and 4 do not panic; every
  object that the mutators can reach is moved injectively, with kind, size, data and pointers kept, and so
  are their roots. Now let mutators run, and allocate, in the new space, until step 5: it changes nothing
  they can see, and the world is again one in which the system can go on.
\<close>

theorem concurrent_cycle_correct:
  assumes "system_inv statics gc w0" "flushed w0" "kernel_ok os" "schedules_ok schedule"
  shows "\<exists>args w1. gc_step1 (types_ops statics) (gc_init gc) w0 = Inr (args, w1) \<and>
    (\<forall>n roots st w2. marking_run statics (s2_heap args) (s2_mark_true_bit args) (careful statics)
        (marking_start marker_new builder_new args w1) n (roots, st, w2) \<longrightarrow>
      n \<le> marking_bound statics w0 \<and>
      (let step = marker_iterate statics (s2_heap args) (s2_mark_true_bit args) (roots, st, w2) in
       (step = None \<or> (\<exists>c'. step = Some (Inr c'))) \<and>
       (\<forall>w3. step = None \<longrightarrow> rtranclp (mutation statics) w2 w3 \<longrightarrow>
         marker_end (s2_heap args) st = Inr st \<and>
         (\<exists>f args4 w4 args5 w5. gc_step3 (types_ops statics) checks (marking_result args st) w3 = Inr (args4, w4) \<and>
           gc_step4 (types_ops statics) os schedule args4 w4 = Inr (args5, w5) \<and> moved statics f w3 w5 \<and>
           (\<forall>w6 gc' w7. rtranclp (mutator_step statics) w5 w6 \<longrightarrow> gc_step5 args5 w6 = (gc', w7) \<longrightarrow>
             moved statics (\<lambda>x. x) w6 w7 \<and> system_inv statics (Some gc') w7)))))"
proof -
  obtain objs where ready: "gc_ready statics objs gc w0" using assms(1) by (auto simp: system_inv_def)
  obtain second where second: "ss_second_mm (w_shared w0) = [second]" by (rule gc_ready_second[OF ready])
  obtain L where L: "set L = live_objects statics w0" by (rule live_list[OF ready])
  let ?args = "snapshot_args w0 second"
  have args: "s2_heap ?args = heap_info_of (ss_mm (w_shared w0)) second" "s2_mark_true_bit ?args = ss_mark_true_bit (w_shared w0)"
    by (simp_all add: snapshot_args_def)
  let ?run = "marking_run statics (s2_heap ?args) (s2_mark_true_bit ?args) (careful statics)
    (marking_start marker_new builder_new ?args (snapshot_taken w0))"
  have progress: "n \<le> marking_bound statics w0 \<and> (\<not> marking_done (roots, st, w2) \<longrightarrow>
      (\<exists>c'. marker_iterate statics (s2_heap ?args) (s2_mark_true_bit ?args) (roots, st, w2) = Some (Inr c')))"
    if run: "?run n (roots, st, w2)" for n roots st w2
    by (rule marking_reached[OF ready assms(2) second L run[unfolded args]])
      (use marking_progress in \<open>auto simp: args\<close>)
  have result: "marker_end (s2_heap ?args) st = Inr st \<and>
      (\<exists>f args4 w4 args5 w5. gc_step3 (types_ops statics) checks (marking_result ?args st) w3 = Inr (args4, w4) \<and>
        gc_step4 (types_ops statics) os schedule args4 w4 = Inr (args5, w5) \<and> moved statics f w3 w5 \<and>
        (\<forall>w6 gc' w7. rtranclp (mutator_step statics) w5 w6 \<longrightarrow> gc_step5 args5 w6 = (gc', w7) \<longrightarrow>
          moved statics (\<lambda>x. x) w6 w7 \<and> system_inv statics (Some gc') w7))"
    if run: "?run n (roots, st, w2)" and over: "marking_done (roots, st, w2)" and muts: "rtranclp (mutation statics) w2 w3"
    for n roots st w2 w3
  proof -
    have r: "?run n ([], st, w2)" "ms_stack st = []" using run over by (simp_all add: marking_done_def)
    from cycle_after_marking[OF ready assms(2-4) second r muts, of checks] obtain f args4 w4 w5 where
      s: "gc_step3 (types_ops statics) checks (marking_result ?args st) w3 = Inr (args4, w4)"
        "gc_step4 (types_ops statics) os schedule args4 w4 = Inr (\<lparr>s5_gc = gc_init None, s5_second_mm = ss_mm (w_shared w0)\<rparr>, w5)"
        "moved statics f w3 w5" "ss_second_mm (w_shared w5) = []"
        "system_inv statics (Some (gc_init None)) (queued [ss_mm (w_shared w0)] w5)" .
    have "moved statics (\<lambda>x. x) w6 w7 \<and> system_inv statics (Some gc') w7"
      if "rtranclp (mutator_step statics) w5 w6"
        "gc_step5 \<lparr>s5_gc = gc_init None, s5_second_mm = ss_mm (w_shared w0)\<rparr> w6 = (gc', w7)" for w6 gc' w7
      by (rule cycle_end[OF s(4,5) that])
    with s(1-3) marker_end_ok[OF ready second, of st] show ?thesis by (auto simp: snapshot_args_def)
  qed
  show ?thesis
    unfolding Let_def marker_iterate_done
    by (intro exI[of _ ?args] exI[of _ "snapshot_taken w0"] conjI[OF gc_step1_eq[OF gc_readyD(1)[OF ready] second]] allI impI conjI)
      (use progress result in blast)+
qed

theorem concurrent_cycle_correct_witness:
  "\<exists>args w1 n st w2 args4 w4. gc_step1 (types_ops sample_statics) (gc_init None) sample_world = Inr (args, w1) \<and>
     marking_run sample_statics (s2_heap args) (s2_mark_true_bit args) (careful sample_statics)
       (marking_start marker_new builder_new args w1) n ([], st, w2) \<and>
     gc_step3 (types_ops sample_statics) True (marking_result args st) (set_roots 1 [] w2) = Inr (args4, w4)"
proof -
  obtain second where second: "ss_second_mm (w_shared sample_world) = [second]" by (rule gc_ready_second[OF sample_world_ready])
  let ?args = "snapshot_args sample_world second" and ?w = "snapshot_taken sample_world"
  have step1: "gc_step1 (types_ops sample_statics) (gc_init None) sample_world = Inr (?args, ?w)"
    by (rule gc_step1_eq[OF refl second])
  from atomic_marking[OF sample_world_ready second] obtain n st where
    run: "marking_run sample_statics (s2_heap ?args) (s2_mark_true_bit ?args) (careful sample_statics)
      (marking_start marker_new builder_new ?args ?w) n ([], st, ?w\<lparr>w_memory := ms_memory st\<rparr>)" "ms_stack st = []" by metis
  have muts: "rtranclp (mutation sample_statics) (?w\<lparr>w_memory := ms_memory st\<rparr>) (set_roots 1 [] (?w\<lparr>w_memory := ms_memory st\<rparr>))"
    by (rule r_into_rtranclp) (simp add: mutation.reroot)
  have "marking_done ([], st, ?w\<lparr>w_memory := ms_memory st\<rparr>)" using run(2) by (simp add: marking_done_def)
  with concurrent_cycle_correct[OF sample_world_inv sample_world_flushed sample_kernel_ok eager_schedule_ok, of True] step1 run(1) muts
  obtain args4 w4 where "gc_step3 (types_ops sample_statics) True (marking_result ?args st) (set_roots 1 [] (?w\<lparr>w_memory := ms_memory st\<rparr>)) =
      Inr (args4, w4)"
    unfolding Let_def marker_iterate_done by fastforce
  with step1 run(1) show ?thesis by blast
qed

section \<open>Cycles of the looper\<close>

text \<open>
  The closure that \<open>gc_thread\<close> runs for every cycle (\<open>gc_thread_cycle\<close>): in it the marker runs as one
  step, and \<open>env\<close> is what mutators do between flushing and step 1, between the marker and step 3, and
  between steps 4 and 5.
\<close>

definition env_ok :: "static_memory \<Rightarrow> (phase \<Rightarrow> types_state world \<Rightarrow> types_state world) \<Rightarrow> bool" where
  "env_ok statics env \<longleftrightarrow>
     (\<forall>w. rtranclp (mutation statics) w (env After_Flush w) \<and> rtranclp (mutation statics) w (env Marking w) \<and>
        rtranclp (mutator_step statics) w (env Relocating w))"

lemma quiet_ok: "env_ok statics quiet"
  by (simp add: env_ok_def quiet_def)




section \<open>The system\<close>






end
