(* ===== verification/Hazards.thy ===== *)
theory Hazards
  imports Concurrent_Cycle
begin

text \<open>
  Where the collector and the mutators meet badly. The correctness of a cycle (\<open>Collection\<close>) is shown
  for mutators that neither allocate nor take pointers out of objects while the marker runs, and for
  heaps of small objects; the theorems here show that these conditions are needed: an object whose
  pointer is taken out of the heap during marking is lost, what a mutator allocates then is unknown to step 3, a
  mutator's buffer page is looked up in the wrong space after it, and an object that is allocated
  after a huge one is not found by the copier.
\<close>

lemma step3_panics:
  assumes "x \<in> set (concat (roots_of w))" "fix_root (s3_heap args) (builder_freeze (s3_relocation_registry args)) x = Inl e"
  shows "\<exists>e. gc_step3 ops checks args w = Inl e"
proof -
  obtain thread cs where cs: "(thread, cs) \<in> set (ss_contexts (w_shared w))" "x \<in> set (cs_root_set cs)"
    using assms(1) by (auto simp: roots_of_def)
  have "\<not> ok (fix_contexts (fix_root (s3_heap args) (builder_freeze (s3_relocation_registry args))) (ss_contexts (w_shared w)))"
    using cs assms(2) by (rule fix_contexts_panics)
  then show ?thesis unfolding gc_step3_def by (auto simp: Let_def bind_res_def ok_def split: sum.splits)
qed

text \<open>An address in the old space that is in no object the marker has met has no record.\<close>

lemma unmarked_root:
  assumes ready: "mark_ready statics tm m objs roots pt hi t"
    and inv: "mark_inv (types_ops statics) tm m objs hi t builder_new (concat roots) order st"
    and x: "hi_start hi \<le> x" "\<forall>obj \<in> fst ` set order. x \<notin> block obj (obj_size (types_ops statics) tm m obj)"
  shows "fix_root hi (builder_freeze (ms_registry st)) x = Inl Unwrap_None"
proof -
  have wf: "heap_wf (types_ops statics) tm (sane_type statics tm) m objs" and above: "\<forall>x \<in> objs. hi_start hi \<le> x"
    using ready by (auto simp: mark_ready_def)
  have "map_src_to_dest (builder_freeze (ms_registry st)) (x - hi_start hi) = Inr None"
    using x by (intro types.marker_forwards(5)[OF wf above inv]) (simp del: in_block)
  then show ?thesis using x(1) by (simp add: fix_root_def)
qed

section \<open>Allocation during marking\<close>

text \<open>
  A root to an object that was allocated while the marker ran stops the collector. If, when step 3
  has stopped the world, some context's root set holds a pointer into the old space that is in no
  live object of the marker's snapshot, the cycle panics, whatever else the mutators did: the
  registry has no record for it, and step 3 unwraps the missing one.
\<close>

theorem unrecorded_root_panics:
  assumes ready: "gc_ready statics objs gc w"
    and root: "\<forall>w1. ss_contexts (w_shared w1) = ss_contexts (w_shared w) \<and> ss_mm (w_shared w1) = ss_mm (w_shared w) \<longrightarrow>
      x \<in> set (concat (roots_of (env Marking w1)))"
    and x: "map_ptr (mm_mapping (ss_mm (w_shared w))) \<le> x"
      "\<forall>obj \<in> live_objects statics w. x \<notin> block obj (size_of statics (w_memory w) obj)"
  shows "\<exists>e. do_cycle (types_ops statics) checks os schedule env gc w = Some (Inl e)"
proof -
  let ?tm = "types_assume_all_dead (ss_type_manager (w_shared w))"
  note d = gc_readyD[OF ready]
  obtain second where second: "ss_second_mm (w_shared w) = [second]" by (rule gc_ready_second[OF ready])
  let ?hi = "heap_info_of (ss_mm (w_shared w)) second" and ?args = "snapshot_args w second" and ?w = "snapshot_taken w"
  note mr = gc_ready_mark[OF ready second, of ?tm]
  from mark_ready_total[OF mr] obtain order st where
    st: "marker_start (types_ops statics) ?tm (w_memory w) marker_new (roots_of w)
      (mm_page_table second) builder_new ?hi (ss_mark_true_bit (w_shared w)) = Some (Inr st)"
    "mark_inv (types_ops statics) ?tm (w_memory w) objs ?hi (ss_mark_true_bit (w_shared w)) builder_new
      (concat (roots_of w)) order st"
    "fst ` set order = live_objects statics w"
    unfolding gc_ready_live(2)[OF ready] .
  have "obj_size (types_ops statics) ?tm (w_memory w) obj = size_of statics (w_memory w) obj"
    if "obj \<in> live_objects statics w" for obj
    using lasting_object(2)[OF lasting_heap_objects[OF d(3)], of obj] gc_ready_live(1)[OF ready] that by blast
  then have visit: "fix_root ?hi (builder_freeze (ms_registry st)) x = Inl Unwrap_None"
    using x by (intro unmarked_root[OF mr st(2)]) (simp_all add: st(3) del: in_block)
  let ?w2 = "?w\<lparr>w_memory := ms_memory st\<rparr>"
  have step2: "gc_step2 (types_ops statics) ?args ?w = Some (Inr (marking_result ?args st, ?w2))"
    using st(1) by (simp add: gc_step2_def gc_init_new marking_result_def snapshot_args_def snapshot_taken_def Let_def)
  have "x \<in> set (concat (roots_of (env Marking ?w2)))" using root by (simp add: snapshot_taken_def Let_def)
  then have "\<exists>e. gc_step3 (types_ops statics) checks (marking_result ?args st) (env Marking ?w2) = Inl e"
    by (rule step3_panics) (simp add: marking_result_def snapshot_args_def visit)
  then show ?thesis using gc_step1_eq[OF d(1) second] step2 by (auto simp: do_cycle_def)
qed

definition marking_mutator :: "phase \<Rightarrow> types_state world \<Rightarrow> types_state world" where
  "marking_mutator phase w =
     (if phase = Marking
      then w\<lparr>w_shared := (w_shared w)\<lparr>ss_contexts :=
        map (\<lambda>(thread, cs). (thread, cs\<lparr>cs_root_set := 2097248 # cs_root_set cs\<rparr>)) (ss_contexts (w_shared w))\<rparr>\<rparr>
      else w)"

theorem unrecorded_root_panics_witness:
  "\<exists>e. do_cycle (types_ops sample_statics) True sample_kernel eager_schedule marking_mutator None sample_world =
     Some (Inl e)"
proof (rule unrecorded_root_panics[OF sample_world_ready, where x = 2097248])
  show "\<forall>w1. ss_contexts (w_shared w1) = ss_contexts (w_shared sample_world) \<and>
      ss_mm (w_shared w1) = ss_mm (w_shared sample_world) \<longrightarrow>
      2097248 \<in> set (concat (roots_of (marking_mutator Marking w1)))"
    by (simp add: marking_mutator_def roots_of_def sample_world_def)
  show "map_ptr (mm_mapping (ss_mm (w_shared sample_world))) \<le> 2097248" by (simp add: sample_world_def)
  show "\<forall>obj \<in> live_objects sample_statics sample_world.
      2097248 \<notin> block obj (size_of sample_statics (w_memory sample_world) obj)"
  proof
    fix obj assume "obj \<in> live_objects sample_statics sample_world"
    then have "obj \<in> {2097152, 2097184, 2097216}" using gc_ready_live(1)[OF sample_world_ready] by blast
    then show "2097248 \<notin> block obj (size_of sample_statics (w_memory sample_world) obj)"
      using sample_sizes by (auto simp: sample_world_def)
  qed
qed

section \<open>Pointers overwritten during marking\<close>

lemma marking_run_trans:
  assumes "marking_run statics hi t mutators c1 n2 c2" "marking_run statics hi t mutators c0 n1 c1"
  shows "marking_run statics hi t mutators c0 (n1 + n2) c2"
  using assms by induction (auto intro: marking_run.intros)

lemma marking_run_mutations:
  assumes "rtranclp mutators w w'" "ms_memory st = w_memory w"
  shows "marking_run statics hi t mutators (roots, st, w) 0 (roots, st\<lparr>ms_memory := w_memory w'\<rparr>, w')"
  using assms
proof induction
  case base
  then have "st\<lparr>ms_memory := w_memory w\<rparr> = st" by simp
  then show ?case using marking_begin[of statics hi t mutators "(roots, st, w)"] by metis
next
  case (step w1 w2)
  from marking_mutate[where mutators = mutators, OF step.IH[OF step.prems] step.hyps(2)] show ?case by simp
qed

lemma variant_heap:
  assumes heap: "lasting_heap statics m objs" and v: "marked_variant objs m m'"
  shows "lasting_heap statics m' objs"
proof -
  note s = types.variant_same[OF heap v]
  have "object_wf (lasting statics) m' x \<and> 8 dvd size_of statics m' x \<and> set (pointers_of statics m' x) \<subseteq> objs"
    if "x \<in> objs" for x
    using s(1-3)[OF that] heap that by (simp add: heap_wf_def)
  then show ?thesis using heap s(2) unfolding heap_wf_def by simp
qed

lemma mark_world_unmarked:
  assumes inv: "mark_world statics objs gc w0 second L m [] st w" and roots: "set (concat (roots_of w0)) \<subseteq> set L"
  shows "mark_ready statics (types_assume_all_dead (ss_type_manager (w_shared w0))) (w_memory w) objs (roots_of w0)
    (mm_page_table second) (heap_info_of (ss_mm (w_shared w0)) second) (ss_mark_true_bit (w_shared w0))"
proof -
  let ?tm = "types_assume_all_dead (ss_type_manager (w_shared w0))"
  let ?live = "{x. live statics ?tm (w_memory w) (roots_of w0) x}"
  note i = mark_worldD[OF inv] and o = mark_world_objects[OF inv]
  have "lasting_heap statics m objs" using gc_readyD(3)[OF i(1)] by simp
  then have heap: "lasting_heap statics (w_memory w) objs"
    using mark_coreD(1)[OF i(3)] unfolding i(6) by (rule variant_heap)
  have ptrs: "obj_pointers (types_ops statics) ?tm (w_memory w) x = pointers_of statics m x"
    "obj_size (types_ops statics) ?tm (w_memory w) x = size_of statics m x" if "x \<in> objs" for x
    using lasting_object(2,3)[OF lasting_heap_objects[OF heap that], of ?tm] o(4,5)[OF that] by simp_all
  have sub: "?live \<subseteq> set L"
  proof
    fix x assume "x \<in> ?live"
    then have "live statics ?tm (w_memory w) (roots_of w0) x" by simp
    then show "x \<in> set L"
      using roots
    proof (rule reaches_closed)
      fix y assume y: "y \<in> set L"
      then have "y \<in> objs" using o(1) by blast
      with ptrs(1) o(7)[OF y] show "set (obj_pointers (types_ops statics) ?tm (w_memory w) y) \<subseteq> set L" by simp
    qed
  qed
  have "(\<Sum>x \<in> ?live. alloc_need (obj_size (types_ops statics) ?tm (w_memory w) x)) \<le>
      (\<Sum>x \<in> set L. alloc_need (obj_size (types_ops statics) ?tm (w_memory w) x))"
    by (rule sum_mono2) (use sub in auto)
  also have "\<dots> = (\<Sum>x \<in> set L. alloc_need (size_of statics m x))"
    using ptrs(2) o(1) by (intro sum.cong) auto
  also have "\<dots> \<le> fresh_room (pt_nr_pages (mm_page_table (ss_mm (w_shared w0))))"
    using gc_readyD(8)[OF i(1)] i(2) by simp
  finally have room: "(\<Sum>x \<in> ?live. alloc_need (obj_size (types_ops statics) ?tm (w_memory w) x)) \<le>
      fresh_room (pt_nr_pages (mm_page_table second))"
    using gc_ready_second[OF i(1)] i(13) by (metis list.inject snapshot_world_simps(1,2))
  have "\<forall>x \<in> objs. \<not> obj_marked (ss_mark_true_bit (w_shared w0)) (w_memory w) x"
    using mark_coreD(2)[OF i(3)] i(6) by simp
  moreover have "mark_ready statics ?tm m objs (roots_of w @ [L]) (mm_page_table second)
      (heap_info_of (ss_mm (w_shared w0)) second) (ss_mark_true_bit (w_shared w0))"
    using gc_ready_mark[OF i(1), of second ?tm] i(13) by simp
  ultimately show ?thesis
    using lasting_heap_wf[OF heap, of ?tm] room roots o(1) unfolding mark_ready_def by auto
qed

text \<open>The marker alone, over a heap in which some root has become unreachable from the saved roots.\<close>

lemma lost_root_unmarked:
  assumes inv: "mark_world statics objs gc w0 second L m [] st0 w" and L: "set L = live_objects statics w0"
    and x: "x \<in> set (concat (roots_of w))" "\<not> live statics types_new (w_memory w) (roots_of w0) x"
  defines "hi \<equiv> heap_info_of (ss_mm (w_shared w0)) second"
  obtains st where
    "marker_start (types_ops statics) (types_assume_all_dead (ss_type_manager (w_shared w0))) (w_memory w) marker_new (roots_of w0)
       (mm_page_table second) builder_new hi (ss_mark_true_bit (w_shared w0)) = Some (Inr st)"
    "fix_root hi (builder_freeze (ms_registry st)) x = Inl Unwrap_None"
proof -
  let ?tm = "types_assume_all_dead (ss_type_manager (w_shared w0))" and ?t = "ss_mark_true_bit (w_shared w0)"
  note o = mark_world_objects[OF inv]
  have mr: "mark_ready statics ?tm (w_memory w) objs (roots_of w0) (mm_page_table second) hi ?t"
    using mark_world_unmarked[OF inv] roots_live[of w0 statics] L unfolding hi_def by simp
  from mark_ready_total[OF mr] obtain order st where
    st: "marker_start (types_ops statics) ?tm (w_memory w) marker_new (roots_of w0) (mm_page_table second) builder_new hi ?t =
        Some (Inr st)"
      "mark_inv (types_ops statics) ?tm (w_memory w) objs hi ?t builder_new (concat (roots_of w0)) order st"
      "fst ` set order = {x. live statics ?tm (w_memory w) (roots_of w0) x}" .
  have xo: "x \<in> objs" using x(1) o(1,2) by blast
  have heap: "lasting_heap statics (w_memory w) objs"
    using variant_heap[OF _ mark_coreD(1)[OF mark_worldD(3)[OF inv]]] gc_readyD(3)[OF mark_worldD(1)[OF inv]]
      mark_worldD(6)[OF inv] by simp
  have roots: "set (concat (roots_of w0)) \<subseteq> objs" using mr by (simp add: mark_ready_def)
  have "x \<notin> block y (obj_size (types_ops statics) ?tm (w_memory w) y)" if "y \<in> fst ` set order" for y
  proof -
    have y: "live statics types_new (w_memory w) (roots_of w0) y"
      using that reaches_lasting[OF heap roots, of ?tm y] by (simp add: st(3))
    then have "y \<in> objs" "y \<noteq> x" using reaches_in_heap[OF heap roots] x(2) by auto
    moreover have "x \<in> block x (size_of statics (w_memory w) x)"
      using types.obj_size_ge[OF lasting_heap_objects[OF heap xo]] by simp
    ultimately show ?thesis
      using object_apart[OF heap xo \<open>y \<in> objs\<close>] lasting_object(2)[OF lasting_heap_objects[OF heap \<open>y \<in> objs\<close>], of ?tm] by simp
  qed
  then have "fix_root hi (builder_freeze (ms_registry st)) x = Inl Unwrap_None"
    using mr xo by (intro unmarked_root[OF mr st(2)]) (auto simp: mark_ready_def simp del: in_block)
  with st(1) show thesis by (rule that)
qed

text \<open>
  C37: Without a write barrier the marker loses objects. Let mutators take a pointer out of the heap
  after step 1 has saved the roots: some context's root set holds \<open>x\<close>, which can no longer be reached
  from the saved roots. Each of their steps is one that the system allows at any other time. Then there
  is a run of the marker to its end after which step 3, which unwraps the missing record of \<open>x\<close>,
  panics.
\<close>

theorem lost_object_panics:
  assumes "gc_ready statics objs gc w0" "flushed w0"
    and "gc_step1 (types_ops statics) (gc_init gc) w0 = Inr (args, w1)"
    and "rtranclp (mutation statics) w1 w2" "x \<in> set (concat (roots_of w2))"
      "\<not> live statics types_new (w_memory w2) (roots_of w0) x"
  shows "\<exists>n st w3 e. marking_run statics (s2_heap args) (s2_mark_true_bit args) (mutation statics)
      (marking_start marker_new builder_new args w1) n ([], st, w3) \<and> ms_stack st = [] \<and>
    gc_step3 (types_ops statics) checks (marking_result args st) w3 = Inl e"
proof -
  obtain L where L: "set L = live_objects statics w0" "distinct L" by (rule live_list[OF assms(1)])
  obtain second where second: "ss_second_mm (w_shared w0) = [second]" by (rule gc_ready_second[OF assms(1)])
  have args: "args = snapshot_args w0 second" "w1 = snapshot_taken w0"
    using assms(3) gc_step1_eq[OF gc_readyD(1)[OF assms(1)] second] by simp_all
  let ?tm = "types_assume_all_dead (ss_type_manager (w_shared w0))" and ?hi = "heap_info_of (ss_mm (w_shared w0)) second"
  let ?t = "ss_mark_true_bit (w_shared w0)"
  from mark_world_start[OF assms(1,2) second L(1)] obtain st0 where
    st0: "marking_start marker_new builder_new args w1 = (concat (roots_of w0), st0, w1)"
      "mark_world statics objs gc w0 second L (w_memory w0) [] st0 w1" unfolding args by metis
  from mark_world_mutations[OF assms(4) st0(2)] obtain m where
    i: "mark_world statics objs gc w0 second L m [] (st0\<lparr>ms_memory := w_memory w2\<rparr>) w2" ..
  from lost_root_unmarked[OF i L(1) assms(5,6)] obtain st where
    st: "marker_start (types_ops statics) ?tm (w_memory w2) marker_new (roots_of w0) (mm_page_table second) builder_new ?hi ?t =
        Some (Inr st)"
      "fix_root ?hi (builder_freeze (ms_registry st)) x = Inl Unwrap_None" .
  have mk: "mk_stack marker_new = []" by (simp add: marker_new_def)
  have hi: "s2_heap args = ?hi" "s2_mark_true_bit args = ?t" "s2_root args = roots_of w0" "s2_second_mm args = second"
    by (simp_all add: args snapshot_args_def)
  have "marking_start marker_new builder_new args w2 = (concat (roots_of w0), st0\<lparr>ms_memory := w_memory w2\<rparr>, w2)"
    using st0(1) by (auto simp: marking_start_def hi)
  with marker_start_run[of statics w2 marker_new args builder_new ?hi ?t st "mutation statics"] st(1) mk
    mark_world_shared(4)[OF i] obtain n where
    n: "marking_run statics ?hi ?t (mutation statics) (concat (roots_of w0), st0\<lparr>ms_memory := w_memory w2\<rparr>, w2) n
      ([], st, w2\<lparr>w_memory := ms_memory st\<rparr>)" "ms_stack st = []"
    unfolding hi by auto
  have "marking_run statics ?hi ?t (mutation statics) (concat (roots_of w0), st0, w1) 0
      (concat (roots_of w0), st0\<lparr>ms_memory := w_memory w2\<rparr>, w2)"
    using assms(4) mark_worldD(6)[OF st0(2)] by (intro marking_run_mutations) simp_all
  from marking_run_trans[OF n(1) this]
  have run: "marking_run statics ?hi ?t (mutation statics) (concat (roots_of w0), st0, w1) n ([], st, w2\<lparr>w_memory := ms_memory st\<rparr>)"
    by simp
  have "x \<in> set (concat (roots_of (w2\<lparr>w_memory := ms_memory st\<rparr>)))" using assms(5) by (simp add: roots_of_def)
  then have "\<exists>e. gc_step3 (types_ops statics) checks (marking_result args st) (w2\<lparr>w_memory := ms_memory st\<rparr>) = Inl e"
    by (rule step3_panics) (simp add: marking_result_def hi st(2))
  with run n(2) show ?thesis unfolding hi st0(1) by blast
qed

text \<open>The program: the mutator loads the pointer to the second object and clears the field it came from.\<close>

theorem lost_object_panics_witness:
  "\<exists>args w1 n st w3 e. gc_step1 (types_ops sample_statics) (gc_init None) sample_world = Inr (args, w1) \<and>
     marking_run sample_statics (s2_heap args) (s2_mark_true_bit args) (mutation sample_statics)
       (marking_start marker_new builder_new args w1) n ([], st, w3) \<and>
     gc_step3 (types_ops sample_statics) True (marking_result args st) w3 = Inl e"
proof -
  obtain second where second: "ss_second_mm (w_shared sample_world) = [second]" by (rule gc_ready_second[OF sample_world_ready])
  let ?w1 = "snapshot_taken sample_world"
  let ?w2 = "set_roots 1 [2097152, 2097184] ?w1"
  let ?w3 = "write_world 2097168 0 ?w2"
  have step1: "gc_step1 (types_ops sample_statics) (gc_init None) sample_world = Inr (snapshot_args sample_world second, ?w1)"
    by (rule gc_step1_eq[OF refl second])
  have mem: "w_memory ?w1 = sample_memory" "roots_of ?w1 = [[2097152]]" "roots_of sample_world = [[2097152]]"
    by (simp_all add: snapshot_taken_def sample_world_def Let_def roots_of_def)
  have ctx: "ss_contexts (w_shared ?w1) = [(1, \<lparr>cs_mm_context = mm_context_new, cs_root_set = [2097152]\<rparr>)]"
    by (simp add: snapshot_taken_def sample_world_def Let_def)
  have roots: "roots_of ?w2 = [[2097152, 2097184]]" using ctx by (simp add: set_roots_def roots_of_def)
  have live: "2097152 \<in> live_objects sample_statics ?w1" "2097184 \<in> live_objects sample_statics ?w1"
    using reaches.root[of 2097152 "[2097152]"] reaches.step[OF reaches.root, of 2097152 "[2097152]" 2097184 "types_ops sample_statics"
        types_new sample_memory] by (simp_all add: sample_pointers live_objects_def mem)
  have field: "fields_of sample_statics sample_memory 2097152 = [2097168]"
    by (simp add: field_addrs_def sample_simps types_offsets_def object_data_def METADATA_SIZE_def)
  have "mutation sample_statics ?w1 ?w2" by (rule mutation.reroot) (use live in simp)
  moreover have "mutation sample_statics ?w2 ?w3"
  proof (rule mutation.store_pointer)
    show "2097152 \<in> live_objects sample_statics ?w2"
      unfolding live_objects_def by (rule CollectI, rule reaches.root) (simp add: roots del: One_nat_def)
    show "2097168 \<in> set (fields_of sample_statics (w_memory ?w2) 2097152)" by (simp add: mem field)
  qed simp
  ultimately have muts: "rtranclp (mutation sample_statics) ?w1 ?w3" by (simp add: rtranclp.rtrancl_into_rtrancl r_into_rtranclp)
  have "obj_kind (sample_memory(2097168 := 0)) 2097152 = NotPlainOldData 4096"
    by (simp add: obj_kind_def sample_memory_def)
  then have "pointers_of sample_statics (sample_memory(2097168 := 0)) 2097152 = []"
    by (simp add: obj_pointers_def concrete_iterate_gc_pointers_def sample_simps METADATA_SIZE_def
        object_data_def load_pointer_def)
  then have "y = 2097152" if "live sample_statics types_new (w_memory ?w3) (roots_of sample_world) y" for y
    using reaches_closed[OF that, of "{2097152}"] by (simp add: mem)
  then have gone: "\<not> live sample_statics types_new (w_memory ?w3) (roots_of sample_world) 2097184" by force
  have "2097184 \<in> set (concat (roots_of ?w3))" by (simp add: roots del: One_nat_def)
  from lost_object_panics[OF sample_world_ready sample_world_flushed step1 muts this gone, of True] show ?thesis
    using step1 by blast
qed

section \<open>Buffer pages\<close>

lemma fix_contexts_context:
  "fix_contexts visitor ctxs = Inr ctxs' \<Longrightarrow> map_of ctxs thread = Some cs \<Longrightarrow>
   \<exists>roots. map_of ctxs' thread = Some (cs\<lparr>cs_root_set := roots\<rparr>)"
proof (induction ctxs arbitrary: ctxs')
  case (Cons c ctxs)
  obtain th cs0 where c: "c = (th, cs0)" by (cases c)
  with Cons.prems(1) obtain roots rest where
    r: "fix_contexts visitor ctxs = Inr rest" "ctxs' = (th, cs0\<lparr>cs_root_set := roots\<rparr>) # rest"
    by (auto simp: bind_res_eq_Inr)
  show ?case
  proof (cases "th = thread")
    case True
    with Cons.prems(2) r(2) c show ?thesis by auto
  next
    case False
    with Cons.prems(2) Cons.IH[OF r(1)] r(2) c show ?thesis by simp
  qed
qed simp

text \<open>
  A buffer page does not survive the exchange of the spaces. Step 3 leaves the contexts' buffer
  pages as they are (only the looper flushes them, before the cycle), so a buffer that a mutator got
  while the marker ran is then a page number in the other space; when that page is not in use
  there, the next small allocation of the mutator panics.
\<close>

theorem stale_buffer_panics:
  assumes step: "gc_step3 ops checks args w = Inr (args', w')"
    and ctx: "map_of (ss_contexts (w_shared w)) thread = Some cs" "local_buffer_page (cs_mm_context cs) = Some b"
    and page: "page_at (mm_page_table (ss_mm (w_shared w'))) b = Inl Unwrap_None"
    and small: "get_size_of_alloc True ops (ss_type_manager (w_shared w')) ty = Inr n" "8 dvd n + extra_bytes"
      "n + extra_bytes < max_object_size Small"
  shows "alloc_fast checks ops thread ty extra_bytes w' = Inl Unwrap_None"
proof -
  obtain ctxs where "fix_contexts (fix_root (s3_heap args) (builder_freeze (s3_relocation_registry args)))
      (ss_contexts (w_shared w)) = Inr ctxs" "ss_contexts (w_shared w') = ctxs"
    using step by (auto simp: gc_step3_def Let_def res_eq_simps)
  with fix_contexts_context[OF _ ctx(1)] obtain roots where
    "map_of (ss_contexts (w_shared w')) thread = Some (cs\<lparr>cs_root_set := roots\<rparr>)" by blast
  moreover have "n + extra_bytes < 2 ^ 64" using small(3) by (simp add: BASE_PAGE_SIZE_def)
  ultimately show ?thesis using ctx(2) page small(2,3) alloc_size_in[OF small(1)]
    by (simp add: alloc_fast_def mm_alloc_def alloc_from_page_table_def Let_def)
qed

definition buffering_world :: "types_state world" where
  "buffering_world = sample_world\<lparr>w_shared := (w_shared sample_world)\<lparr>
     ss_contexts := [(1, \<lparr>cs_mm_context = mm_context_new\<lparr>local_buffer_page := Some 0\<rparr>, cs_root_set = []\<rparr>)]\<rparr>\<rparr>"

definition empty_step3 :: step3_args where
  "empty_step3 = \<lparr>s3_gc = gc_init None, s3_second_mm = \<lparr>mm_mapping = \<lparr>map_ptr = 16777216, map_len = 12582912\<rparr>,
       mm_page_table = page_table_new 16777216 6\<rparr>, s3_relocation_registry = builder_new, s3_heap = sample_hi\<rparr>"

theorem stale_buffer_panics_witness:
  "\<exists>args' w'. gc_step3 (types_ops sample_statics) True empty_step3 buffering_world = Inr (args', w') \<and>
     alloc_fast True (types_ops sample_statics) 1 (Plain 32) 0 w' = Inl Unwrap_None"
proof -
  obtain args' w' where step: "gc_step3 (types_ops sample_statics) True empty_step3 buffering_world = Inr (args', w')"
    and pt: "mm_page_table (ss_mm (w_shared w')) = page_table_new 16777216 6"
    by (simp add: gc_step3_def empty_step3_def buffering_world_def sample_world_def sample_hi_def get_used_end_page_def
        page_table_new_def gc_init_def Let_def)
  have "alloc_fast True (types_ops sample_statics) 1 (Plain 32) 0 w' = Inl Unwrap_None"
  proof (rule stale_buffer_panics[OF step, where b = 0 and n = 48 and
      cs = "\<lparr>cs_mm_context = mm_context_new\<lparr>local_buffer_page := Some 0\<rparr>, cs_root_set = []\<rparr>"])
    show "8 dvd (48 + 0 :: nat)" by presburger
  qed (simp_all add: buffering_world_def pt page_at_def page_table_new_def METADATA_SIZE_def)
  with step show ?thesis by blast
qed

section \<open>Records out of order\<close>

lemma alloc_small_huge_small:
  assumes "8 dvd n" "8 dvd k" "8 dvd l" "n < 256 * 1024" "l < 256 * 1024" "1024 * 1024 \<le> k" "k \<le> BASE_PAGE_SIZE"
    and "0 < base" "base + 2 * BASE_PAGE_SIZE < 2 ^ 64"
  shows "\<exists>s. alloc_seq alloc_from_page_table (mm_context_new, page_table_new base 2) [n, k, l] =
    Inr (s, [(base, n), (base + BASE_PAGE_SIZE, k), (base + n, l)])"
proof -
  have huge: "div_ceil k 2097152 = 1" using assms(6,7) unfolding BASE_PAGE_SIZE_def div_ceil_def
    by (cases "k = 2097152") (simp_all add: div_eq_0_iff)
  show ?thesis
    using assms
    by (simp add: alloc_from_page_table_def mm_context_new_def page_table_new_def new_local_buffer_def alloc_page_def
        flex_page_new_def page_at_def alloc_in_page_def fp_alloc_def fp_free_def fp_size_def fp_used_def pt_alloc_def
        huge Let_def BASE_PAGE_SIZE_def numeral_2_eq_2)
qed

lemma query_stops_at_huge:
  fixes n k l :: nat
  assumes "0 < n" "n + l \<le> BASE_PAGE_SIZE" "0 < k" "0 < l"
  defines "rs \<equiv> [\<lparr>rr_src = 0, rr_dest = 0, rr_size = n\<rparr>, \<lparr>rr_src = n, rr_dest = BASE_PAGE_SIZE, rr_size = k\<rparr>,
    \<lparr>rr_src = n + k, rr_dest = n, rr_size = l\<rparr>]"
  shows "iterate_records_in_dest_range (builder_freeze (insert_all builder_new rs)) (0, BASE_PAGE_SIZE) = Inr [rs ! 0]"
proof -
  let ?f = "range_cmp get_dest_range 0"
  have cmp: "?f (rs ! 0) = Inr Equal" "?f (rs ! 1) = Inr Greater"
    using assms(1,3) by (simp_all add: rs_def range_cmp_def Let_def get_dest_range_def in_range_def)
  have len: "length rs = 3" by (simp add: rs_def)
  have "bsearch_loop ?f rs 0 1 = Inr 0" by (subst bsearch_loop.simps) simp
  then have "bsearch_loop ?f rs 0 2 = Inr 0" using cmp(2) len by (subst bsearch_loop.simps) simp
  then have "bsearch_loop ?f rs 0 3 = Inr 0" using cmp(2) len by (subst bsearch_loop.simps) simp
  then have "binary_search_by ?f rs = Inr (Inr 0)" using cmp(1) len by (auto simp: binary_search_by_def)
  then show ?thesis using assms(1,2)
    by (simp add: iterate_records_in_dest_range_def iterate_records_in_range_by_def freeze_records)
      (auto simp: rs_def get_dest_range_def)
qed

text \<open>
  C39: The copier loses objects behind a huge one. The marker inserts records in the order in which it
  allocates, and \<open>freeze\<close> sorts only the copy by source. For a small object, a huge one and another
  small one, in this order in the old space, the allocator of the new space puts the last behind the
  first, in the first page, and the huge one in the second; the query for the first page stops at
  the huge record and never returns the last object, so its bytes are not copied.
\<close>

theorem record_behind_huge_is_lost:
  assumes "8 dvd n" "8 dvd k" "8 dvd l" "0 < n" "n < 256 * 1024" "0 < l" "l < 256 * 1024"
    "1024 * 1024 \<le> k" "k \<le> BASE_PAGE_SIZE" "0 < base" "base + 2 * BASE_PAGE_SIZE < 2 ^ 64"
  defines "rs \<equiv> \<lambda>d1 d2 d3. [\<lparr>rr_src = 0, rr_dest = d1 - base, rr_size = n\<rparr>,
    \<lparr>rr_src = n, rr_dest = d2 - base, rr_size = k\<rparr>, \<lparr>rr_src = n + k, rr_dest = d3 - base, rr_size = l\<rparr>]"
  shows "\<exists>s d1 d2 d3. alloc_seq alloc_from_page_table (mm_context_new, page_table_new base 2) [n, k, l] =
      Inr (s, [(d1, n), (d2, k), (d3, l)]) \<and>
    iterate_records_in_dest_range (builder_freeze (insert_all builder_new (rs d1 d2 d3))) (0, BASE_PAGE_SIZE) =
      Inr [rs d1 d2 d3 ! 0] \<and>
    overlaps (get_dest_range (rs d1 d2 d3 ! 2)) (0, BASE_PAGE_SIZE)"
proof -
  obtain s where "alloc_seq alloc_from_page_table (mm_context_new, page_table_new base 2) [n, k, l] =
      Inr (s, [(base, n), (base + BASE_PAGE_SIZE, k), (base + n, l)])"
    using alloc_small_huge_small[OF assms(1-3,5,7-11)] by blast
  moreover have "n + l \<le> BASE_PAGE_SIZE" using assms(5,7) by (simp add: BASE_PAGE_SIZE_def)
  moreover from query_stops_at_huge[OF assms(4) this, of k] assms(6,8) have
    "iterate_records_in_dest_range (builder_freeze (insert_all builder_new (rs base (base + BASE_PAGE_SIZE) (base + n))))
      (0, BASE_PAGE_SIZE) = Inr [rs base (base + BASE_PAGE_SIZE) (base + n) ! 0]"
    by (simp add: rs_def)
  ultimately show ?thesis using assms(6)
    by (intro exI[of _ s] exI[of _ base] exI[of _ "base + BASE_PAGE_SIZE"] exI[of _ "base + n"])
      (simp add: rs_def overlaps_def get_dest_range_def)
qed

theorem record_behind_huge_is_lost_witness:
  "\<exists>s d1 d2 d3. alloc_seq alloc_from_page_table (mm_context_new, page_table_new 2097152 2) [32, 1048576, 32] =
      Inr (s, [(d1, 32), (d2, 1048576), (d3, 32)])"
proof -
  have "8 dvd (32 :: nat)" "8 dvd (1048576 :: nat)" by presburger+
  from record_behind_huge_is_lost[OF this(1,2,1), of 2097152] show ?thesis by (auto simp: BASE_PAGE_SIZE_def)
qed

end
