(* ===== verification/Profiler.thy ===== *)
theory Profiler
  imports Prelude
begin

text \<open>
  \<open>uwugc/src/profiler.rs\<close>: a tree of sections with the time spent in each. Durations are numbers of
  clock ticks. The code that is profiled is a \<open>profiled\<close> value: it works for some ticks or runs a
  closure in a named section; \<open>run_section\<close> is \<open>SectionCookie::section\<close> on it. An \<open>IndexMap\<close> is a list
  of entries in order of insertion with distinct keys. Shown are that the times add up
  (\<open>profile_adds_up\<close>) and that the traversal with an explicit stack visits the tree in pre-order
  (\<open>iter_sections_preorder\<close>), so that \<open>report\<close> writes one aligned line per section
  (\<open>report_lines_correct\<close>). How \<open>f32\<close> times and ratios are printed is a parameter.
\<close>

section \<open>Sections\<close>

datatype profile_section =
  Section (sec_name: string) (sec_this: nat) (sec_total: nat)
    (subsections: "(string \<times> profile_section) list option")

definition section_new :: "string \<Rightarrow> profile_section" where
  "section_new name = Section name 0 0 (Some [])"

definition clone_without_subsections :: "profile_section \<Rightarrow> profile_section" where
  "clone_without_subsections s = Section (sec_name s) (sec_this s) (sec_total s) None"

definition profiler_new :: profile_section where
  "profiler_new = section_new ''root''"

text \<open>\<open>entry(name).or_insert_with(|| Section::new(name))\<close> as the section, and writing it back.\<close>

definition entry_or_new :: "string \<Rightarrow> (string \<times> profile_section) list \<Rightarrow> profile_section" where
  "entry_or_new name subs = (case map_of subs name of Some s \<Rightarrow> s | None \<Rightarrow> section_new name)"

fun put_entry :: "string \<Rightarrow> profile_section \<Rightarrow> (string \<times> profile_section) list \<Rightarrow> (string \<times> profile_section) list" where
  "put_entry name s [] = [(name, s)]"
| "put_entry name s ((k, x) # subs) = (if k = name then (k, s) # subs else (k, x) # put_entry name s subs)"

section \<open>Profiling\<close>

datatype profiled = Work nat | In_Section string "profiled list"

text \<open>A cookie: the section it points to and \<open>start_of_self\<close>; then the clock.\<close>

record section_cookie =
  ck_section :: profile_section
  ck_start_of_self :: nat

definition add_this :: "nat \<Rightarrow> profile_section \<Rightarrow> profile_section" where
  "add_this d s = Section (sec_name s) (sec_this s + d) (sec_total s) (subsections s)"

definition add_total :: "nat \<Rightarrow> profile_section \<Rightarrow> profile_section" where
  "add_total d s = Section (sec_name s) (sec_this s) (sec_total s + d) (subsections s)"

definition set_total :: "nat \<Rightarrow> profile_section \<Rightarrow> profile_section" where
  "set_total d s = Section (sec_name s) (sec_this s) d (subsections s)"

definition set_subsections :: "(string \<times> profile_section) list \<Rightarrow> profile_section \<Rightarrow> profile_section" where
  "set_subsections subs s = Section (sec_name s) (sec_this s) (sec_total s) (Some subs)"

fun run_section :: "profiled \<Rightarrow> section_cookie \<times> nat \<Rightarrow> (section_cookie \<times> nat) res"
  and run_body :: "profiled list \<Rightarrow> section_cookie \<times> nat \<Rightarrow> (section_cookie \<times> nat) res" where
  "run_section (Work d) (cookie, now) = Inr (cookie, now + d)"
| "run_section (In_Section name body) (cookie, now) =
     (let start = now;
          section = add_this (start - ck_start_of_self cookie) (ck_section cookie) in
      bind_res (unwrap (subsections section)) (\<lambda>subs.
      bind_res (run_body body (\<lparr>ck_section = entry_or_new name subs, ck_start_of_self = start\<rparr>, now))
        (\<lambda>(inner, now).
          let stop = now;
              sub = add_total (stop - start) (add_this (stop - ck_start_of_self inner) (ck_section inner)) in
          Inr (\<lparr>ck_section = set_subsections (put_entry name sub subs) section, ck_start_of_self = stop\<rparr>, now))))"
| "run_body [] (cookie, now) = Inr (cookie, now)"
| "run_body (p # ps) (cookie, now) = bind_res (run_section p (cookie, now)) (run_body ps)"

definition profiler_start :: "profiled list \<Rightarrow> profile_section \<Rightarrow> nat \<Rightarrow> (profile_section \<times> nat) res" where
  "profiler_start body root now =
     (let start = now in
      bind_res (run_body body (\<lparr>ck_section = root, ck_start_of_self = start\<rparr>, now)) (\<lambda>(cookie, now).
        let stop = now in
        Inr (set_total (stop - start) (add_this (stop - ck_start_of_self cookie) (ck_section cookie)), now)))"

section \<open>The traversal of \<open>report\<close>\<close>

text \<open>A visit: the section, its parent (without subsections) and the depth.\<close>

type_synonym visit = "profile_section \<times> profile_section option \<times> nat"

type_synonym visit_stack = "(profile_section \<times> (string \<times> profile_section) list) list"

definition stack_size :: "visit_stack \<Rightarrow> nat" where
  "stack_size stack = (\<Sum>(_, items) \<leftarrow> stack. size_list (size_prod (\<lambda>_. 0) size) items + 1)"

text \<open>
  The \<open>while let Some(tail)\<close> loop, the top of the stack first; it returns the visits. \<open>depth\<close> is a \<open>u32\<close>.
\<close>

function visit_loop :: "bool \<Rightarrow> nat \<Rightarrow> visit_stack \<Rightarrow> visit list res" where
  "visit_loop checks depth [] = Inr []"
| "visit_loop checks depth ((parent, []) # stack) = bind_res (usub depth 1) (\<lambda>depth. visit_loop checks depth stack)"
| "visit_loop checks depth ((parent, (name, item) # items) # stack) =
     (case subsections item of
        None \<Rightarrow> Inl Unwrap_None
      | Some subs \<Rightarrow>
          bind_res (u32_in checks (depth + 1)) (\<lambda>deeper.
          bind_res (visit_loop checks deeper ((clone_without_subsections item, subs) # (parent, items) # stack))
            (\<lambda>vs. Inr ((item, Some parent, depth) # vs))))"
  by pat_completeness auto
termination
proof (relation "measure (\<lambda>(_, _, stack). stack_size stack)")
  fix checks depth parent name item items stack subs deeper
  assume "subsections item = Some subs"
  then have "size item = size_list (size_prod (\<lambda>_. 0) size) subs + 2"
    by (cases item) simp
  then show "((checks, deeper, (clone_without_subsections item, subs) # (parent, items) # stack),
      checks, depth, (parent, (name, item) # items) # stack) \<in> measure (\<lambda>(_, _, stack). stack_size stack)"
    by (simp add: stack_size_def)
qed (auto simp: stack_size_def)

definition iter_sections :: "bool \<Rightarrow> profile_section \<Rightarrow> visit list res" where
  "iter_sections checks root =
     bind_res (unwrap (subsections root)) (\<lambda>subs.
     bind_res (visit_loop checks 1 [(clone_without_subsections root, subs)]) (\<lambda>vs. Inr ((root, None, 0) # vs)))"

section \<open>The traversal is pre-order\<close>

text \<open>The reference: a section, then its subsections one level deeper.\<close>

fun preorder :: "profile_section option \<Rightarrow> nat \<Rightarrow> profile_section \<Rightarrow> visit list" where
  "preorder parent depth (Section name th tot None) = [(Section name th tot None, parent, depth)]"
| "preorder parent depth (Section name th tot (Some subs)) =
     (let s = Section name th tot (Some subs) in
      (s, parent, depth) #
        concat (map (\<lambda>(_, sub). preorder (Some (clone_without_subsections s)) (depth + 1) sub) subs))"

text \<open>Every section has its \<open>subsections\<close>; only the clones have none.\<close>

fun complete :: "profile_section \<Rightarrow> bool" where
  "complete (Section name th tot None) = False"
| "complete (Section name th tot (Some subs)) = (\<forall>(_, sub) \<in> set subs. complete sub)"

lemma complete_iff:
  "complete s \<longleftrightarrow> (\<exists>subs. subsections s = Some subs \<and> (\<forall>(_, sub) \<in> set subs. complete sub))"
  by (cases s rule: complete.cases) auto

lemma preorder_eq:
  "subsections s = Some subs \<Longrightarrow> preorder parent depth s =
     (s, parent, depth) #
       concat (map (\<lambda>(_, sub). preorder (Some (clone_without_subsections s)) (depth + 1) sub) subs)"
  by (cases s) (simp add: Let_def)

fun stack_visits :: "nat \<Rightarrow> visit_stack \<Rightarrow> visit list" where
  "stack_visits depth [] = []"
| "stack_visits depth ((parent, items) # stack) =
     concat (map (\<lambda>(_, sub). preorder (Some parent) depth sub) items) @ stack_visits (depth - 1) stack"

lemma visit_loop_preorder:
  "\<forall>(_, items) \<in> set stack. \<forall>(_, sub) \<in> set items. complete sub \<Longrightarrow> depth = length stack \<Longrightarrow>
   \<forall>(_, _, d) \<in> set (stack_visits depth stack). d + 1 < 2 ^ 32 \<Longrightarrow>
   visit_loop checks depth stack = Inr (stack_visits depth stack)"
proof (induction checks depth stack rule: visit_loop.induct)
  case (2 checks depth parent stack)
  then have "usub depth 1 = Inr (depth - 1)" "depth - 1 = length stack" by simp_all
  with "2.IH"[of "depth - 1"] "2.prems" show ?case by simp
next
  case (3 checks depth parent name item items stack)
  then have "complete item" by simp
  then obtain subs where subs: "subsections item = Some subs" "\<forall>(_, sub) \<in> set subs. complete sub"
    using complete_iff[of item] by blast
  have visits: "stack_visits depth ((parent, (name, item) # items) # stack) = (item, Some parent, depth) #
      stack_visits (depth + 1) ((clone_without_subsections item, subs) # (parent, items) # stack)"
    by (simp add: preorder_eq[OF subs(1)])
  then have small: "depth + 1 < 2 ^ 32" using "3.prems"(3) by (simp only: list.set) simp
  have "visit_loop checks (depth + 1) ((clone_without_subsections item, subs) # (parent, items) # stack) =
      Inr (stack_visits (depth + 1) ((clone_without_subsections item, subs) # (parent, items) # stack))"
  proof (rule "3.IH"[OF subs(1)])
    show "u32_in checks (depth + 1) = Inr (depth + 1)" using small by (rule u32_in_small)
    show "\<forall>(_, _, d) \<in> set (stack_visits (depth + 1) ((clone_without_subsections item, subs) # (parent, items) # stack)). d + 1 < 2 ^ 32"
      using "3.prems"(3) unfolding visits by (simp only: list.set ball_simps) blast
  qed (use "3.prems" subs in auto)
  then show ?case unfolding visits using u32_in_small[OF small, of checks] by (simp add: subs(1))
qed simp

text \<open>No section is nested deeper than twice the depth fits into a \<open>u32\<close>.\<close>

definition shallow :: "profile_section \<Rightarrow> bool" where
  "shallow root \<longleftrightarrow> (\<forall>(_, _, depth) \<in> set (preorder None 0 root). depth * 2 < 2 ^ 32)"

lemma iter_sections_total:
  assumes "complete root" "shallow root"
  shows "iter_sections checks root = Inr (preorder None 0 root)"
proof -
  obtain subs where subs: "subsections root = Some subs" "\<forall>(_, sub) \<in> set subs. complete sub"
    using complete_iff[of root] assms by blast
  let ?stack = "[(clone_without_subsections root, subs)]"
  have pre: "preorder None 0 root = (root, None, 0) # stack_visits 1 ?stack"
    by (simp add: preorder_eq[OF subs(1)])
  have "\<forall>(_, _, d) \<in> set (stack_visits 1 ?stack). d + 1 < 2 ^ 32"
    using assms(2) unfolding shallow_def pre by fastforce
  then have "visit_loop checks 1 ?stack = Inr (stack_visits 1 ?stack)"
    using subs(2) by (intro visit_loop_preorder) auto
  then show ?thesis unfolding pre by (simp add: iter_sections_def subs(1))
qed

text \<open>
  The traversal of \<open>report\<close> ends for every tree of sections, does not panic (its \<open>depth\<close> never
  underflows and no \<open>unwrap\<close> fails), and visits exactly what the recursive pre-order visits, each
  section with its parent and its depth.
\<close>

theorem iter_sections_preorder:
  assumes "complete root" "shallow root"
  shows "iter_sections checks root = Inr (preorder None 0 root)"
  using assms by (rule iter_sections_total)

theorem iter_sections_preorder_witness:
  "iter_sections True (Section ''root'' 1 5 (Some [(''a'', Section ''a'' 4 4 (Some []))])) =
     Inr (preorder None 0 (Section ''root'' 1 5 (Some [(''a'', Section ''a'' 4 4 (Some []))])))"
  by (rule iter_sections_preorder) (simp_all add: shallow_def Let_def)

section \<open>The report\<close>

text \<open>\<open>{:02}\<close> and \<open>{:<padding$}\<close>.\<close>

fun digits :: "nat \<Rightarrow> string" where
  "digits n = (if n < 10 then [char_of (48 + n)] else digits (n div 10) @ [char_of (48 + n mod 10)])"

declare digits.simps [simp del]

definition pad_zero :: "nat \<Rightarrow> nat \<Rightarrow> string" where
  "pad_zero k n = replicate (k - length (digits n)) (CHR ''0'') @ digits n"

definition pad_right :: "nat \<Rightarrow> string \<Rightarrow> string" where
  "pad_right k s = s @ replicate (k - length s) (CHR '' '')"

text \<open>\<open>16u32.checked_sub(depth * 2).unwrap_or(0)\<close>, and \<open>depth\<close> times a bar.\<close>

definition report_padding :: "bool \<Rightarrow> nat \<Rightarrow> nat res" where
  "report_padding checks depth =
     bind_res (u32_in checks (depth * 2)) (\<lambda>bars. Inr (if bars \<le> 16 then 16 - bars else 0))"

definition report_filling :: "nat \<Rightarrow> string" where
  "report_filling depth = concat (replicate depth ''| '')"

text \<open>
  A line of \<open>report\<close> (\<open>ADVANCE_MODE\<close> is off). \<open>percent a b\<close> is \<open>a / b\<close> in per cent as \<open>{:6.2}\<close> prints it,
  \<open>millis a\<close> the time in milliseconds as \<open>{:8.2}\<close>.
\<close>

definition report_label :: "nat \<Rightarrow> visit \<Rightarrow> string" where
  "report_label padding = (\<lambda>(s, parent, depth).
     ''['' @ pad_zero 2 depth @ ''] '' @ report_filling depth @ pad_right padding (sec_name s))"

definition report_line :: "(nat \<Rightarrow> nat \<Rightarrow> string) \<Rightarrow> (nat \<Rightarrow> string) \<Rightarrow> nat \<Rightarrow> nat \<Rightarrow> visit \<Rightarrow> string" where
  "report_line percent millis root_total_time padding = (\<lambda>(s, parent, depth).
     report_label padding (s, parent, depth) @ '' - '' @
     (case parent of None \<Rightarrow> percent 1 1 | Some x \<Rightarrow> percent (sec_total s) (sec_total x)) @ ''%/'' @
     percent (sec_total s) root_total_time @ ''% '' @ millis (sec_total s) @ '' ms'')"

text \<open>
  The visitor writes a line and unwraps the result: \<open>put\<close> is the writer, which takes a line or fails.
\<close>

fun report_visits ::
    "bool \<Rightarrow> (nat \<Rightarrow> nat \<Rightarrow> string) \<Rightarrow> (nat \<Rightarrow> string) \<Rightarrow> nat \<Rightarrow> (string \<Rightarrow> 'w \<Rightarrow> 'w option) \<Rightarrow> visit list \<Rightarrow> 'w \<Rightarrow> 'w res" where
  "report_visits checks percent millis root_total_time put [] out = Inr out"
| "report_visits checks percent millis root_total_time put ((s, parent, depth) # visits) out =
     bind_res (report_padding checks depth) (\<lambda>padding.
     bind_res (unwrap (put (report_line percent millis root_total_time padding (s, parent, depth)) out)) (\<lambda>out.
       report_visits checks percent millis root_total_time put visits out))"

definition report ::
    "bool \<Rightarrow> (nat \<Rightarrow> nat \<Rightarrow> string) \<Rightarrow> (nat \<Rightarrow> string) \<Rightarrow> (string \<Rightarrow> 'w \<Rightarrow> 'w option) \<Rightarrow> profile_section \<Rightarrow> 'w \<Rightarrow> 'w res" where
  "report checks percent millis put root out =
     bind_res (iter_sections checks root) (\<lambda>visits.
       report_visits checks percent millis (sec_total root) put visits out)"

text \<open>The reference: the lines of all sections are written one after the other, until the writer fails.\<close>

definition padded_line :: "(nat \<Rightarrow> nat \<Rightarrow> string) \<Rightarrow> (nat \<Rightarrow> string) \<Rightarrow> nat \<Rightarrow> visit \<Rightarrow> string" where
  "padded_line percent millis root_total_time = (\<lambda>(s, parent, depth).
     report_line percent millis root_total_time (16 - 2 * depth) (s, parent, depth))"

fun write_lines :: "(string \<Rightarrow> 'w \<Rightarrow> 'w option) \<Rightarrow> string list \<Rightarrow> 'w \<Rightarrow> 'w option" where
  "write_lines put [] out = Some out"
| "write_lines put (line # lines) out = Option.bind (put line out) (write_lines put lines)"

lemma report_visits_lines:
  "\<forall>(_, _, depth) \<in> set visits. depth * 2 < 2 ^ 32 \<Longrightarrow>
   report_visits checks percent millis all_time put visits out =
     unwrap (write_lines put (map (padded_line percent millis all_time) visits) out)"
proof (induction visits arbitrary: out)
  case (Cons v visits)
  obtain s parent depth where v: "v = (s, parent, depth)" by (cases v)
  have "report_padding checks depth = Inr (16 - 2 * depth)"
    using Cons.prems by (simp add: v report_padding_def mult.commute)
  then show ?case
    using Cons by (cases "put (padded_line percent millis all_time v) out") (simp_all add: v padded_line_def)
qed simp

lemma digits_length: "n < 100 \<Longrightarrow> length (pad_zero 2 n) = 2"
  using div_less_iff_less_mult[of 10 n 10]
  by (cases "n < 10") (simp_all add: pad_zero_def digits.simps[of n] digits.simps[of "n div 10"])

lemma report_label_length:
  assumes "depth \<le> 8" "length (sec_name s) \<le> 16 - 2 * depth"
  shows "length (report_label (16 - 2 * depth) (s, parent, depth)) = 21"
proof -
  have "length (report_filling depth) = 2 * depth" by (simp add: report_filling_def length_concat sum_list_replicate)
  with assms digits_length[of depth] show ?thesis
    by (simp add: report_label_def pad_right_def)
qed

text \<open>
  C31: \<open>report\<close> writes one line for each section, in pre-order, and panics exactly when the writer fails on
  one of them. This holds for every tree of sections that is no clone without subsections (\<open>complete\<close>)
  and is not nested so deep that twice the depth overflows a \<open>u32\<close>. Down to depth 8 the bars and the
  padding make up for each other, so that for sections whose names fit into the padding the figures
  start in the same column.
\<close>

theorem report_lines_correct:
  assumes "complete root" "shallow root"
  shows "report checks percent millis put root out =
      unwrap (write_lines put (map (padded_line percent millis (sec_total root)) (preorder None 0 root)) out) \<and>
    (\<forall>(s, parent, depth) \<in> set (preorder None 0 root). depth \<le> 8 \<longrightarrow> length (sec_name s) \<le> 16 - 2 * depth \<longrightarrow>
      (\<exists>label figures. padded_line percent millis (sec_total root) (s, parent, depth) = label @ '' - '' @ figures \<and>
        length label = 21))"
proof -
  have "\<exists>label figures. padded_line percent millis (sec_total root) (s, parent, depth) = label @ '' - '' @ figures \<and>
      length label = 21"
    if "depth \<le> 8" "length (sec_name s) \<le> 16 - 2 * depth" for s parent depth
    using report_label_length[OF that, of parent] by (auto simp: padded_line_def report_line_def)
  moreover have "report checks percent millis put root out =
      unwrap (write_lines put (map (padded_line percent millis (sec_total root)) (preorder None 0 root)) out)"
    using assms(2) unfolding report_def iter_sections_total[OF assms] shallow_def by (simp add: report_visits_lines)
  ultimately show ?thesis by auto
qed

text \<open>A writer that takes any line, and one that takes a single one.\<close>

theorem report_lines_correct_witness:
  "\<exists>l1 l2. report True (\<lambda>a b. ''x'') (\<lambda>a. ''y'') (\<lambda>line out. Some (out @ [line]))
       (Section ''root'' 1 5 (Some [(''a'', Section ''a'' 4 4 (Some []))])) [] = Inr [l1, l2] \<and>
     take 24 l2 = ''[01] | a              - '' \<and>
     report True (\<lambda>a b. ''x'') (\<lambda>a. ''y'') (\<lambda>line out. if out = [] then Some (out @ [line]) else None)
       (Section ''root'' 1 5 (Some [(''a'', Section ''a'' 4 4 (Some []))])) [] = Inl Unwrap_None"
proof -
  let ?a = "Section ''a'' 4 4 (Some [])" and ?root = "Section ''root'' 1 5 (Some [(''a'', Section ''a'' 4 4 (Some []))])"
  let ?parent = "clone_without_subsections ?root"
  have label: "report_label 14 (?a, Some ?parent, 1) = ''[01] | a             ''"
  proof -
    have n: "pad_zero 2 1 = ''01''" by code_simp
    show ?thesis unfolding report_label_def prod.case n by (simp add: report_filling_def pad_right_def eval_nat_numeral)
  qed
  have tree: "complete ?root" "shallow ?root" by (simp_all add: shallow_def Let_def)
  have line: "padded_line (\<lambda>a b. ''x'') (\<lambda>a. ''y'') 5 (?a, Some ?parent, 1) = ''[01] | a              - x%/x% y ms''"
    using label by (simp add: padded_line_def report_line_def)
  have "report True (\<lambda>a b. ''x'') (\<lambda>a. ''y'') (\<lambda>line out. Some (out @ [line])) ?root [] =
      Inr [padded_line (\<lambda>a b. ''x'') (\<lambda>a. ''y'') 5 (?root, None, 0), padded_line (\<lambda>a b. ''x'') (\<lambda>a. ''y'') 5 (?a, Some ?parent, 1)]"
    using conjunct1[OF report_lines_correct[OF tree, where put = "\<lambda>line out. Some (out @ [line])" and out = "[]"]]
    by (simp add: Let_def)
  moreover have "report True (\<lambda>a b. ''x'') (\<lambda>a. ''y'') (\<lambda>line out. if out = [] then Some (out @ [line]) else None) ?root [] =
      Inl Unwrap_None"
    using conjunct1[OF report_lines_correct[OF tree, where put = "\<lambda>line out. if out = [] then Some (out @ [line]) else None" and out = "[]"]]
    by (simp add: Let_def)
  ultimately show ?thesis unfolding line by auto
qed

section \<open>The times add up\<close>

text \<open>A section accounts for its time: its total is its own time and the totals of its subsections.\<close>

fun accounts :: "profile_section \<Rightarrow> bool" where
  "accounts (Section name th tot None) = False"
| "accounts (Section name th tot (Some subs)) =
     (distinct (map fst subs) \<and> tot = th + (\<Sum>(_, sub) \<leftarrow> subs. sec_total sub) \<and>
      (\<forall>(_, sub) \<in> set subs. accounts sub))"

lemma accounts_iff:
  "accounts s \<longleftrightarrow> (\<exists>subs. subsections s = Some subs \<and> distinct (map fst subs) \<and>
     sec_total s = sec_this s + (\<Sum>(_, sub) \<leftarrow> subs. sec_total sub) \<and> (\<forall>(_, sub) \<in> set subs. accounts sub))"
  by (cases s rule: accounts.cases) auto

text \<open>
  A section that is running: its own time and its subsections are ahead of its total by what has
  passed since it was entered up to \<open>start_of_self\<close>.
\<close>

definition running :: "nat \<Rightarrow> section_cookie \<Rightarrow> nat \<Rightarrow> bool" where
  "running entered cookie now \<longleftrightarrow>
     entered \<le> ck_start_of_self cookie \<and> ck_start_of_self cookie \<le> now \<and>
     (\<exists>subs. subsections (ck_section cookie) = Some subs \<and> distinct (map fst subs) \<and>
       sec_total (ck_section cookie) + (ck_start_of_self cookie - entered) =
         sec_this (ck_section cookie) + (\<Sum>(_, sub) \<leftarrow> subs. sec_total sub) \<and>
       (\<forall>(_, sub) \<in> set subs. accounts sub))"

lemma put_entry_keys: "fst ` set (put_entry name s subs) = insert name (fst ` set subs)"
  by (induction name s subs rule: put_entry.induct) auto

lemma put_entry_distinct: "distinct (map fst subs) \<Longrightarrow> distinct (map fst (put_entry name s subs))"
  by (induction name s subs rule: put_entry.induct) (auto simp: put_entry_keys)

lemma put_entry_all: "\<forall>(_, sub) \<in> set subs. P sub \<Longrightarrow> P s \<Longrightarrow> \<forall>(_, sub) \<in> set (put_entry name s subs). P sub"
  by (induction name s subs rule: put_entry.induct) auto

lemma put_entry_total:
  "sec_total (entry_or_new name subs) \<le> sec_total s \<Longrightarrow>
   (\<Sum>(_, sub) \<leftarrow> put_entry name s subs. sec_total sub) =
     (\<Sum>(_, sub) \<leftarrow> subs. sec_total sub) + (sec_total s - sec_total (entry_or_new name subs))"
  by (induction name s subs rule: put_entry.induct) (auto simp: entry_or_new_def section_new_def)

lemma entry_or_new_accounts:
  assumes "\<forall>(_, sub) \<in> set subs. accounts sub"
  shows "accounts (entry_or_new name subs)"
  using assms by (auto simp: entry_or_new_def section_new_def dest: map_of_SomeD split: option.splits)

lemmas section_fields = add_this_def add_total_def set_total_def set_subsections_def

text \<open>Closing a section that ran: its own time and its total are brought up to date.\<close>

lemma running_closed:
  assumes "running entered cookie now"
  shows "accounts (add_total (now - entered) (add_this (now - ck_start_of_self cookie) (ck_section cookie)))"
  using assms unfolding accounts_iff[of "add_total _ _"] by (auto simp: running_def section_fields)

lemma run_keeps_running:
  "running entered (fst x) (snd x) \<Longrightarrow> \<exists>cookie' now'. run_section p x = Inr (cookie', now') \<and>
     running entered cookie' now' \<and> sec_total (ck_section cookie') = sec_total (ck_section (fst x))"
  "running entered (fst x) (snd x) \<Longrightarrow> \<exists>cookie' now'. run_body ps x = Inr (cookie', now') \<and>
     running entered cookie' now' \<and> sec_total (ck_section cookie') = sec_total (ck_section (fst x))"
proof (induction p x and ps x arbitrary: entered and entered rule: run_section_run_body.induct)
  case (1 d cookie now)
  then show ?case by (auto simp: running_def)
next
  case (2 name body cookie now)
  obtain subs where subs: "subsections (ck_section cookie) = Some subs" "distinct (map fst subs)"
      "sec_total (ck_section cookie) + (ck_start_of_self cookie - entered) =
         sec_this (ck_section cookie) + (\<Sum>(_, sub) \<leftarrow> subs. sec_total sub)"
      "\<forall>(_, sub) \<in> set subs. accounts sub"
    and le: "entered \<le> ck_start_of_self cookie" "ck_start_of_self cookie \<le> now"
    using "2.prems" by (auto simp: running_def)
  have "accounts (entry_or_new name subs)" using subs(4) by (rule entry_or_new_accounts)
  then have "running now \<lparr>ck_section = entry_or_new name subs, ck_start_of_self = now\<rparr> now"
    unfolding accounts_iff[of "entry_or_new name subs"] by (auto simp: running_def)
  moreover have "unwrap (subsections (add_this (now - ck_start_of_self cookie) (ck_section cookie))) = Inr subs"
    by (simp add: add_this_def subs(1))
  ultimately obtain inner now' where inner:
    "run_body body (\<lparr>ck_section = entry_or_new name subs, ck_start_of_self = now\<rparr>, now) = Inr (inner, now')"
    "running now inner now'" "sec_total (ck_section inner) = sec_total (entry_or_new name subs)"
    using "2.IH"[OF refl refl, of subs now] by auto
  let ?sub = "add_total (now' - now) (add_this (now' - ck_start_of_self inner) (ck_section inner))"
  have sub: "accounts ?sub" "sec_total ?sub = sec_total (entry_or_new name subs) + (now' - now)" "now \<le> now'"
    using running_closed[OF inner(2)] inner(2,3) by (auto simp: section_fields running_def)
  have sum: "(\<Sum>(_, sub) \<leftarrow> put_entry name ?sub subs. sec_total sub) =
      (\<Sum>(_, sub) \<leftarrow> subs. sec_total sub) + (now' - now)"
    using put_entry_total[of name subs ?sub] sub(2) by simp
  let ?section = "set_subsections (put_entry name ?sub subs) (add_this (now - ck_start_of_self cookie) (ck_section cookie))"
  have "running entered \<lparr>ck_section = ?section, ck_start_of_self = now'\<rparr> now'"
    unfolding running_def
    using subs(3) le sub(3) put_entry_distinct[OF subs(2)] put_entry_all[OF subs(4) sub(1)] sum
    by (simp add: set_subsections_def add_this_def)
  moreover have "run_section (In_Section name body) (cookie, now) =
      Inr (\<lparr>ck_section = ?section, ck_start_of_self = now'\<rparr>, now')"
    using inner(1) subs(1) by (simp add: Let_def add_this_def)
  ultimately show ?case by (simp add: set_subsections_def add_this_def)
next
  case (3 cookie now)
  then show ?case by simp
next
  case (4 p ps cookie now)
  from "4.IH"(1)[OF "4.prems"] obtain cookie1 now1 where
    "run_section p (cookie, now) = Inr (cookie1, now1)" "running entered cookie1 now1"
    "sec_total (ck_section cookie1) = sec_total (ck_section cookie)" by auto
  with "4.IH"(2)[of "(cookie1, now1)" entered] show ?case by auto
qed

fun ticks :: "profiled \<Rightarrow> nat" where
  "ticks (Work d) = d"
| "ticks (In_Section name body) = sum_list (map ticks body)"

lemma run_clock:
  "run_section p x = Inr (cookie', now') \<Longrightarrow> now' = snd x + ticks p"
  "run_body ps x = Inr (cookie', now') \<Longrightarrow> now' = snd x + sum_list (map ticks ps)"
  by (induction p x and ps x arbitrary: cookie' now' and cookie' now' rule: run_section_run_body.induct)
    (fastforce simp: bind_res_eq_Inr Let_def)+

lemma accounts_complete: "accounts s \<Longrightarrow> complete s"
  by (induction s rule: accounts.induct) auto

lemma sum_concat_visits:
  "(\<And>k sub. (k, sub) \<in> set subs \<Longrightarrow> (\<Sum>(v, _) \<leftarrow> f sub. sec_this v) = sec_total sub) \<Longrightarrow>
   (\<Sum>(v, _) \<leftarrow> concat (map (\<lambda>(_, sub). f sub) subs). sec_this v) = (\<Sum>(_, sub) \<leftarrow> subs. sec_total sub)"
proof (induction subs)
  case (Cons entry subs)
  obtain k sub where entry: "entry = (k, sub)" by (cases entry)
  have "(\<Sum>(v, _) \<leftarrow> f sub. sec_this v) = sec_total sub" by (rule Cons.prems[of k]) (simp add: entry)
  moreover have "(\<Sum>(v, _) \<leftarrow> concat (map (\<lambda>(_, sub). f sub) subs). sec_this v) = (\<Sum>(_, sub) \<leftarrow> subs. sec_total sub)"
    by (rule Cons.IH) (metis Cons.prems list.set_intros(2))
  ultimately show ?case by (simp add: entry)
qed simp

lemma accounts_preorder: "accounts s \<Longrightarrow> (\<Sum>(v, _) \<leftarrow> preorder parent depth s. sec_this v) = sec_total s"
proof (induction parent depth s rule: preorder.induct)
  case (2 parent depth name th tot subs)
  let ?s = "Section name th tot (Some subs)"
  have sub: "(\<Sum>(v, _) \<leftarrow> preorder (Some (clone_without_subsections ?s)) (depth + 1) sub. sec_this v) = sec_total sub"
    if "(k, sub) \<in> set subs" for k sub
    using "2.IH"[OF refl that refl] "2.prems" that by auto
  have "(\<Sum>(v, _) \<leftarrow> concat (map (\<lambda>(_, sub). preorder (Some (clone_without_subsections ?s)) (depth + 1) sub) subs).
      sec_this v) = (\<Sum>(_, sub) \<leftarrow> subs. sec_total sub)"
    using sub by (rule sum_concat_visits)
  then show ?case using "2.prems" by (simp add: Let_def)
qed simp

text \<open>
  The profile of a run adds up. \<open>Profiler::start\<close> on a new profiler does not panic whatever sections
  the closure opens, in whatever nesting and repetition; in every section of the result the total is
  the section's own time and its subsections' totals, the root's total is the time that has passed,
  and the own times of the sections that \<open>report\<close> visits sum to it (if they are not nested too deep for it).
\<close>

theorem profile_adds_up:
  "\<exists>root. profiler_start body profiler_new now = Inr (root, now + sum_list (map ticks body)) \<and>
    accounts root \<and> sec_total root = sum_list (map ticks body) \<and>
    (shallow root \<longrightarrow>
      (\<exists>vs. iter_sections checks root = Inr vs \<and> (\<Sum>(v, _) \<leftarrow> vs. sec_this v) = sum_list (map ticks body)))"
proof -
  let ?c = "\<lparr>ck_section = profiler_new, ck_start_of_self = now\<rparr>"
  have "running now ?c now" by (simp add: running_def profiler_new_def section_new_def)
  with run_keeps_running(2)[of now "(?c, now)" body] obtain cookie now' where
    run: "run_body body (?c, now) = Inr (cookie, now')" "running now cookie now'" "sec_total (ck_section cookie) = 0"
    by (auto simp: profiler_new_def section_new_def)
  have now': "now' = now + sum_list (map ticks body)" using run_clock(2)[OF run(1)] by simp
  let ?root = "set_total (now' - now) (add_this (now' - ck_start_of_self cookie) (ck_section cookie))"
  have "?root = add_total (now' - now) (add_this (now' - ck_start_of_self cookie) (ck_section cookie))"
    by (simp add: section_fields run(3))
  with running_closed[OF run(2)] have acc: "accounts ?root" by simp
  have "shallow ?root \<Longrightarrow> iter_sections checks ?root = Inr (preorder None 0 ?root)"
    using accounts_complete[OF acc] by (rule iter_sections_total)
  moreover have "sec_total ?root = sum_list (map ticks body)" by (simp add: set_total_def now')
  ultimately show ?thesis
    using acc accounts_preorder[OF acc, of None 0] run(1) now' by (simp add: profiler_start_def Let_def)
qed

end
