(* ===== verification/Has_Descriptor.thy ===== *)
theory Has_Descriptor
  imports Types
begin

text \<open>
  \<open>uwugc-plus/src/has_descriptor.rs\<close>, the \<open>HasDescriptor\<close> instances of \<open>gcbox.rs\<close>, \<open>array.rs\<close> and
  \<open>zero_or_init.rs\<close>, and the derive macro \<open>uwugc-plus-derive/src/lib.rs\<close>: which descriptor a type gets.
  A \<open>rust_type\<close> is a type with the layout the compiler chose for it (sizes, alignment and the offsets
  \<open>offset_of!\<close> gives); the primitives have the sizes they have on a 64-bit target. A failing \<open>const\<close> assertion is a panic of \<open>descriptor_of\<close>. Shown are
  that a derived descriptor says where the pointers are (\<open>derived_descriptor_exact\<close>) and which derived
  types the collector can walk (\<open>derived_type_sane\<close>); last, which sizes cannot be allocated.
\<close>

section \<open>Types and their descriptors\<close>

datatype primitive =
    Bool | U8 | U16 | U32 | U64 | U128 | Usize | I8 | I16 | I32 | I64 | I128 | Isize
  | AtomicBool | AtomicU8 | AtomicU16 | AtomicU32 | AtomicU64 | AtomicU128 | AtomicUsize
  | AtomicI8 | AtomicI16 | AtomicI32 | AtomicI64 | AtomicI128 | AtomicIsize

fun primitive_size :: "primitive \<Rightarrow> nat" where
  "primitive_size Bool = 1" | "primitive_size AtomicBool = 1"
| "primitive_size U8 = 1" | "primitive_size I8 = 1" | "primitive_size AtomicU8 = 1" | "primitive_size AtomicI8 = 1"
| "primitive_size U16 = 2" | "primitive_size I16 = 2" | "primitive_size AtomicU16 = 2" | "primitive_size AtomicI16 = 2"
| "primitive_size U32 = 4" | "primitive_size I32 = 4" | "primitive_size AtomicU32 = 4" | "primitive_size AtomicI32 = 4"
| "primitive_size U64 = 8" | "primitive_size I64 = 8" | "primitive_size AtomicU64 = 8" | "primitive_size AtomicI64 = 8"
| "primitive_size Usize = 8" | "primitive_size Isize = 8"
| "primitive_size AtomicUsize = 8" | "primitive_size AtomicIsize = 8"
| "primitive_size U128 = 16" | "primitive_size I128 = 16" | "primitive_size AtomicU128 = 16" | "primitive_size AtomicI128 = 16"

datatype rust_type =
    Primitive primitive
  | Primitive_Array primitive nat                   \<comment> \<open>\<open>[T; N]\<close>\<close>
  | Std_Generic nat                                 \<comment> \<open>\<open>Option<T>\<close>, \<open>Rc<T>\<close>, ... over \<open>Copy\<close> types; its size\<close>
  | Tuple_Type nat                                  \<comment> \<open>a tuple of up to 8 \<open>Copy\<close> types; its size\<close>
  | GC_Pointer                                      \<comment> \<open>\<open>GCBox<T>\<close> and \<open>GCBoxOption<T>\<close>\<close>
  | Struct_Type nat nat "(nat \<times> rust_type) list"    \<comment> \<open>alignment, size, fields with offsets\<close>
  | Zero_Or_Init_Type rust_type
  | Array_Type rust_type                            \<comment> \<open>\<open>Array<T>\<close>: header, then the elements\<close>

text \<open>The implementations by \<open>decl_primitive\<close>, \<open>decl_static_array\<close>, \<open>decl_generic\<close> and those for tuples.\<close>

definition primitive_descriptor :: "primitive \<Rightarrow> descriptor" where
  "primitive_descriptor p = descriptor_new (Borrowed []) (primitive_size p)"

definition static_array_descriptor :: "primitive \<Rightarrow> nat \<Rightarrow> descriptor" where
  "static_array_descriptor p n = descriptor_new (Borrowed []) (primitive_size p * n)"

definition generic_descriptor :: "nat \<Rightarrow> descriptor" where
  "generic_descriptor sz = descriptor_new (Borrowed []) sz"

definition tuple_descriptor :: "nat \<Rightarrow> descriptor" where
  "tuple_descriptor sz = descriptor_new (Borrowed []) sz"

lemmas plain_descriptor_defs = primitive_descriptor_def static_array_descriptor_def generic_descriptor_def
  tuple_descriptor_def

definition gc_box_descriptor :: descriptor where
  "gc_box_descriptor = descriptor_new (Borrowed [0]) POINTER_SIZE"

text \<open>\<open>Self::DESCRIPTOR\<close>; the derive macro's list of \<open>(offset_of!, DESCRIPTOR)\<close> pairs.\<close>

fun descriptor_of :: "rust_type \<Rightarrow> descriptor res"
  and derive_fields :: "(nat \<times> rust_type) list \<Rightarrow> (nat \<times> descriptor) list res" where
  "descriptor_of (Primitive p) = Inr (primitive_descriptor p)"
| "descriptor_of (Primitive_Array p n) = Inr (static_array_descriptor p n)"
| "descriptor_of (Std_Generic sz) = Inr (generic_descriptor sz)"
| "descriptor_of (Tuple_Type sz) = Inr (tuple_descriptor sz)"
| "descriptor_of GC_Pointer = Inr gc_box_descriptor"
| "descriptor_of (Struct_Type align sz fs) =
     assert_then (align \<le> 8)
       (bind_res (derive_fields fs) (\<lambda>unflattened.
         Inr (descriptor_new_unflattened (Borrowed []) sz unflattened)))"
| "descriptor_of (Zero_Or_Init_Type t) = descriptor_of t"
| "descriptor_of (Array_Type t) = bind_res (descriptor_of t) descriptor_to_array"
| "derive_fields [] = Inr []"
| "derive_fields ((offset, t) # fs) =
     bind_res (descriptor_of t) (\<lambda>d. bind_res (derive_fields fs) (\<lambda>us. Inr ((offset, d) # us)))"

section \<open>Where the pointers of a type are\<close>

fun size_of_type :: "rust_type \<Rightarrow> nat" where
  "size_of_type (Primitive p) = primitive_size p"
| "size_of_type (Primitive_Array p n) = primitive_size p * n"
| "size_of_type (Std_Generic sz) = sz"
| "size_of_type (Tuple_Type sz) = sz"
| "size_of_type GC_Pointer = POINTER_SIZE"
| "size_of_type (Struct_Type align sz fs) = sz"
| "size_of_type (Zero_Or_Init_Type t) = size_of_type t"
| "size_of_type (Array_Type t) = size_of_type t"  \<comment> \<open>of one element\<close>

fun pointers_in :: "rust_type \<Rightarrow> nat list" where
  "pointers_in (Primitive p) = []"
| "pointers_in (Primitive_Array p n) = []"
| "pointers_in (Std_Generic sz) = []"
| "pointers_in (Tuple_Type sz) = []"
| "pointers_in GC_Pointer = [0]"
| "pointers_in (Struct_Type align sz fs) =
     concat (map (\<lambda>(off, t). map (\<lambda>p. off + p) (pointers_in t)) fs)"
| "pointers_in (Zero_Or_Init_Type t) = pointers_in t"
| "pointers_in (Array_Type t) = pointers_in t"

text \<open>
  What the layout of a type guarantees: fields lie inside the struct, do not overlap, and those with
  pointers are aligned to 8.
\<close>

definition apart :: "nat \<times> rust_type \<Rightarrow> nat \<times> rust_type \<Rightarrow> bool" where
  "apart f g \<longleftrightarrow> fst f + size_of_type (snd f) \<le> fst g \<or> fst g + size_of_type (snd g) \<le> fst f"

fun pairwise_apart :: "(nat \<times> rust_type) list \<Rightarrow> bool" where
  "pairwise_apart [] = True"
| "pairwise_apart (f # fs) = ((\<forall>g \<in> set fs. apart f g) \<and> pairwise_apart fs)"

fun layout_ok :: "rust_type \<Rightarrow> bool" where
  "layout_ok (Primitive p) = True"
| "layout_ok (Primitive_Array p n) = True"
| "layout_ok (Std_Generic sz) = True"
| "layout_ok (Tuple_Type sz) = True"
| "layout_ok GC_Pointer = True"
| "layout_ok (Struct_Type align sz fs) =
     (align \<le> 8 \<and> pairwise_apart fs \<and>
      (\<forall>(off, t) \<in> set fs. layout_ok t \<and> off + size_of_type t \<le> sz \<and> (pointers_in t \<noteq> [] \<longrightarrow> 8 dvd off)))"
| "layout_ok (Zero_Or_Init_Type t) = layout_ok t"
| "layout_ok (Array_Type t) = (layout_ok t \<and> (pointers_in t \<noteq> [] \<longrightarrow> 8 dvd size_of_type t))"

lemma pointers_fit: "layout_ok t \<Longrightarrow> offsets_fit (pointers_in t) (size_of_type t)"
proof (induction t)
  case (Struct_Type align sz fs)
  have fit: "offsets_fit (pointers_in t) (size_of_type t)" "off + size_of_type t \<le> sz" "pointers_in t \<noteq> [] \<Longrightarrow> 8 dvd off"
    if "(off, t) \<in> set fs" for off t
    using Struct_Type.IH[OF that, of t] Struct_Type.prems that by (auto simp: snds.simps)
  have "pairwise_apart fs" using Struct_Type.prems by simp
  with fit have "distinct (concat (map (\<lambda>(off, t). map (\<lambda>p. off + p) (pointers_in t)) fs))"
  proof (induction fs)
    case (Cons f fs)
    obtain off t where f: "f = (off, t)" by (cases f)
    have "off + p \<noteq> off' + p'"
      if "(off', t') \<in> set fs" "p \<in> set (pointers_in t)" "p' \<in> set (pointers_in t')" for off' t' p p'
    proof -
      have "apart (off, t) (off', t')" using Cons.prems(4) that(1) f by auto
      moreover have "p + 8 \<le> size_of_type t" using Cons.prems(1)[of off t] f that(2) by (auto simp: offsets_fit_def)
      moreover have "p' + 8 \<le> size_of_type t'" using Cons.prems(1)[of off' t'] that by (auto simp: offsets_fit_def)
      ultimately show ?thesis by (auto simp: apart_def)
    qed
    then have "set (map (\<lambda>p. off + p) (pointers_in t)) \<inter>
        set (concat (map (\<lambda>(off, t). map (\<lambda>p. off + p) (pointers_in t)) fs)) = {}"
      by fastforce
    moreover have "distinct (map (\<lambda>p. off + p) (pointers_in t))"
      using Cons.prems(1)[of off t] f by (simp add: offsets_fit_def distinct_map)
    moreover have "distinct (concat (map (\<lambda>(off, t). map (\<lambda>p. off + p) (pointers_in t)) fs))"
    proof (rule Cons.IH)
      fix off t assume "(off, t) \<in> set fs"
      then have mem: "(off, t) \<in> set (f # fs)" by simp
      show "offsets_fit (pointers_in t) (size_of_type t)" "off + size_of_type t \<le> sz" "pointers_in t \<noteq> [] \<Longrightarrow> 8 dvd off"
        by (rule Cons.prems(1-3)[OF mem]; assumption)+
    qed (use Cons.prems(4) in simp)
    ultimately show ?case by (simp add: f)
  qed simp
  moreover have "x + 8 \<le> sz \<and> 8 dvd x"
    if x: "x \<in> set (concat (map (\<lambda>(off, t). map (\<lambda>p. off + p) (pointers_in t)) fs))" for x
  proof -
    from x obtain off t p where p: "(off, t) \<in> set fs" "p \<in> set (pointers_in t)" "x = off + p" by auto
    have "pointers_in t \<noteq> []" using p(2) by auto
    then have "8 dvd off" "p + 8 \<le> size_of_type t" "8 dvd p"
      using fit(1,3)[OF p(1)] p(2) by (simp_all add: offsets_fit_def)
    then show ?thesis using p(3) fit(2)[OF p(1)] by simp
  qed
  ultimately show ?case by (simp add: offsets_fit_def)
qed (simp_all add: offsets_fit_def POINTER_SIZE_def)

lemma descriptor_of_facts:
  "descriptor_of t = Inr d \<Longrightarrow> (\<exists>xs. desc_fields d = Borrowed xs) \<and> desc_size d = size_of_type t \<and>
     (\<forall>base. pointer_offsets_at base d = map (\<lambda>p. base + p) (pointers_in t))"
  "derive_fields fs = Inr us \<Longrightarrow>
     (\<forall>base. concat (map (\<lambda>(off, d). pointer_offsets_at (base + off) d) us) =
       map (\<lambda>p. base + p) (concat (map (\<lambda>(off, t). map (\<lambda>p. off + p) (pointers_in t)) fs)))"
proof (induction t and fs arbitrary: d and us rule: descriptor_of_derive_fields.induct)
  case (6 align sz fs)
  then obtain us where us: "align \<le> 8" "derive_fields fs = Inr us"
    "d = descriptor_new_unflattened (Borrowed []) sz us"
    by (auto simp: res_eq_simps)
  with "6.IH"[of us] show ?case by (simp add: descriptor_new_unflattened_def)
next
  case (8 t)
  then obtain d0 where d0: "descriptor_of t = Inr d0" "descriptor_to_array d0 = Inr d" by (auto simp: res_eq_simps)
  from "8.IH"[OF d0(1)] obtain xs where xs: "desc_fields d0 = Borrowed xs" by blast
  have "pointer_offsets_at base d = pointer_offsets_at base d0" for base
    using d0(2) xs by (cases d0) (auto simp: descriptor_to_array_def)
  then show ?case using "8.IH"[OF d0(1)] d0(2) xs by (auto simp: descriptor_to_array_def)
next
  case (10 offset t fs)
  then obtain d us' where "descriptor_of t = Inr d" "derive_fields fs = Inr us'" "us = (offset, d) # us'"
    by (auto simp: res_eq_simps)
  with "10.IH"(1)[of d] "10.IH"(2)[of d us'] show ?case by (simp add: o_def add.assoc)
qed (simp_all add: plain_descriptor_defs gc_box_descriptor_def descriptor_new_def)

lemma descriptor_of_total:
  "layout_ok t \<Longrightarrow> \<exists>d. descriptor_of t = Inr d"
  "\<forall>(off, t) \<in> set fs. layout_ok t \<Longrightarrow> \<exists>us. derive_fields fs = Inr us"
proof (induction t and fs rule: descriptor_of_derive_fields.induct)
  case (6 align sz fs)
  then show ?case by fastforce
next
  case (8 t)
  then obtain d where d: "descriptor_of t = Inr d" by auto
  then obtain xs where "desc_fields d = Borrowed xs" using descriptor_of_facts(1) by blast
  with d show ?case by (simp add: descriptor_to_array_def)
next
  case (10 offset t fs)
  then show ?case by fastforce
qed simp_all

lemma masked_out: "x AND m = (0 :: 'a::len word) \<Longrightarrow> x AND NOT m = x"
proof (rule bit_word_eqI)
  fix n assume zero: "x AND m = 0" and n: "n < LENGTH('a)"
  have "\<not> (bit x n \<and> bit m n)" using zero by (metis bit_0_eq bit_and_iff bot_apply bot_bool_def)
  then show "bit (x AND NOT m) n = bit x n" using n by (auto simp: bit_and_iff bit_not_iff)
qed

section \<open>Properties\<close>

text \<open>
  C18: The descriptor of a type describes the type. For every type whose layout is what the compiler
  guarantees and whose structs are aligned to at most 8, the constant is computed without a failing
  assertion, its size is the type's, it lists the offsets of exactly the GC pointers that the type
  contains, at every depth, and those lie inside the value, are aligned and do not overlap.
\<close>

theorem derived_descriptor_exact:
  assumes "layout_ok t"
  shows "\<exists>d. descriptor_of t = Inr d \<and> desc_size d = size_of_type t \<and> pointer_offsets_at 0 d = pointers_in t \<and>
    (\<forall>p \<in> set (pointers_in t). p + 8 \<le> desc_size d \<and> 8 dvd p) \<and> distinct (pointers_in t)"
proof -
  obtain d where d: "descriptor_of t = Inr d" using descriptor_of_total(1)[OF assms] by blast
  then show ?thesis using descriptor_of_facts(1)[OF d] pointers_fit[OF assms] by (simp add: offsets_fit_def)
qed

definition list_node :: rust_type where
  "list_node = Struct_Type 8 16 [(0, GC_Pointer), (8, Primitive U32)]"

theorem derived_descriptor_exact_witness:
  "\<exists>d. descriptor_of list_node = Inr d \<and> desc_size d = 16 \<and> pointer_offsets_at 0 d = [0]"
  using derived_descriptor_exact[of list_node] by (simp add: list_node_def POINTER_SIZE_def apart_def)

text \<open>
  Types whose pointers are at most one struct deep: the fields of a struct are leaves, or have no pointers
  in them, at whatever depth.
\<close>

fun leaf_type :: "rust_type \<Rightarrow> bool" where
  "leaf_type (Primitive p) = True"
| "leaf_type (Primitive_Array p n) = True"
| "leaf_type (Std_Generic sz) = True"
| "leaf_type (Tuple_Type sz) = True"
| "leaf_type GC_Pointer = True"
| "leaf_type (Struct_Type align sz fs) = (fs = [])"
| "leaf_type (Zero_Or_Init_Type t) = leaf_type t"
| "leaf_type (Array_Type t) = leaf_type t"

fun flat_type :: "rust_type \<Rightarrow> bool" where
  "flat_type (Struct_Type align sz fs) = (\<forall>(off, t) \<in> set fs. leaf_type t \<or> pointers_in t = [])"
| "flat_type (Zero_Or_Init_Type t) = flat_type t"
| "flat_type (Array_Type t) = flat_type t"
| "flat_type t = True"

lemma to_array_unflattened: "descriptor_to_array d = Inr d' \<Longrightarrow> desc_unflattened d' = desc_unflattened d"
  by (cases "desc_fields d") (auto simp: descriptor_to_array_def)

lemma leaf_descriptor: "leaf_type t \<Longrightarrow> descriptor_of t = Inr d \<Longrightarrow> desc_unflattened d = []"
proof (induction t arbitrary: d rule: leaf_type.induct)
  case (8 t)
  then show ?case by (auto simp: res_eq_simps to_array_unflattened)
qed (auto simp: plain_descriptor_defs gc_box_descriptor_def descriptor_new_def descriptor_new_unflattened_def res_eq_simps)

lemma derive_fields_leaf:
  "derive_fields fs = Inr us \<Longrightarrow> \<forall>(off, t) \<in> set fs. leaf_type t \<or> pointers_in t = [] \<Longrightarrow>
   \<forall>(off, d) \<in> set us. desc_unflattened d = [] \<or> pointer_offsets_at 0 d = []"
proof (induction fs arbitrary: us)
  case (Cons f fs)
  obtain off t where f: "f = (off, t)" by (cases f)
  from Cons.prems(1) obtain d us' where d: "descriptor_of t = Inr d" "derive_fields fs = Inr us'" "us = (off, d) # us'"
    by (auto simp: f res_eq_simps)
  have "desc_unflattened d = [] \<or> pointer_offsets_at 0 d = []"
    using Cons.prems(2) leaf_descriptor[OF _ d(1)] descriptor_of_facts(1)[OF d(1)] by (auto simp: f)
  with Cons.IH[OF d(2)] Cons.prems(2) d(3) show ?case by simp
qed simp

lemma flat_descriptor: "flat_type t \<Longrightarrow> descriptor_of t = Inr d \<Longrightarrow> one_level d"
proof (induction t arbitrary: d rule: flat_type.induct)
  case (1 align sz fs)
  then show ?case using derive_fields_leaf[of fs]
    by (auto simp: res_eq_simps descriptor_new_unflattened_def one_level_def)
next
  case (3 t)
  then show ?case by (auto simp: res_eq_simps to_array_unflattened one_level_def)
qed (auto simp: one_level_def plain_descriptor_defs gc_box_descriptor_def descriptor_new_def)

text \<open>
  C26: Flat types are safe for the collector. When a type's pointers are at most one struct deep (a field
  of a struct is a box, an array or plain data, or has no pointers in it), the iterator visits exactly its
  pointers, and the type id of its static descriptor has the layout that the marker and the copier rely
  on. For an array the size of an element must be a multiple of 8.
\<close>

theorem derived_type_sane:
  assumes "layout_ok t" "flat_type t" "descriptor_of t = Inr d"
    and "statics ptr = Some d" "ptr AND TYPE_TYPE_MASK = 0" "ptr \<noteq> 0" "desc_is_array d \<longrightarrow> 8 dvd size_of_type t"
  shows "iter_all (iter_ptrs d) = pointers_in t \<and> sane_type statics ts ptr"
proof -
  note facts = descriptor_of_facts(1)[OF assms(3)]
  have yield: "yielded_at 0 d = pointers_in t"
    using yielded_one_level[OF flat_descriptor[OF assms(2,3)]] facts by simp
  have "ptr AND NOT TYPE_TYPE_MASK = ptr"
    using assms(5) by (rule masked_out)
  then have "get_type statics ts ptr = Inr (Some (StaticallyKnown d))"
    using assms(4-6) by (simp add: get_type_def)
  moreover have "descriptor_ok d"
    using pointers_fit[OF assms(1)] facts assms(7) by (simp add: descriptor_ok_def yield)
  ultimately show ?thesis by (simp add: sane_type_def iter_all_ptrs yield)
qed

theorem derived_type_sane_witness:
  "\<exists>d. descriptor_of list_node = Inr d \<and> sane_type [4096 \<mapsto> d] types_new 4096"
proof -
  obtain d where d: "descriptor_of list_node = Inr d" "\<not> desc_is_array d"
    by (simp add: list_node_def plain_descriptor_defs gc_box_descriptor_def descriptor_new_unflattened_def)
  have "layout_ok list_node" "flat_type list_node"
    by (simp_all add: list_node_def POINTER_SIZE_def apart_def)
  from derived_type_sane[OF this d(1), of "[4096 \<mapsto> d]" 4096 types_new] d show ?thesis
    by (auto simp: TYPE_TYPE_MASK_def)
qed

text \<open>
  Types of odd sizes cannot be allocated. For a type whose size with the extra bytes is not a
  multiple of 8 (\<open>u32\<close>, or an array of three bytes), \<open>alloc_fast\<close> panics on the page allocator's
  assertion: nothing between the derive macro and the allocator rounds the size up.
\<close>

theorem odd_size_alloc_panics:
  assumes "descriptor_of t = Inr d" "statics ptr = Some d" "ptr AND TYPE_TYPE_MASK = 0" "ptr \<noteq> 0"
    and "map_of (ss_contexts (w_shared w)) thread = Some cs"
    and "\<not> 8 dvd (if desc_is_array d then extra_bytes else size_of_type t + extra_bytes)"
    and "size_of_type t + extra_bytes + METADATA_SIZE + ARRAY_HEADER_SIZE < 2 ^ 64"
  shows "alloc_fast checks (types_ops statics) thread (Typed ptr) extra_bytes w = Inl Assert_Failed"
proof -
  have "ptr AND NOT TYPE_TYPE_MASK = ptr"
    using assms(3) by (rule masked_out)
  then have "get_type statics (ss_type_manager (w_shared w)) ptr = Inr (Some (StaticallyKnown d))"
    using assms(2-4) by (simp add: get_type_def)
  moreover have "\<not> 8 dvd info_static_size (StaticallyKnown d) + METADATA_SIZE + extra_bytes"
    using assms(6) descriptor_of_facts(1)[OF assms(1)]
    by (auto simp: METADATA_SIZE_def ARRAY_HEADER_SIZE_def split: if_splits) presburger+
  moreover have "info_static_size (StaticallyKnown d) + METADATA_SIZE + extra_bytes < 2 ^ 64"
    using assms(7) descriptor_of_facts(1)[OF assms(1)] by auto
  ultimately show ?thesis using assms(5)
    by (simp add: alloc_fast_def types_static_size_def mm_alloc_def alloc_from_page_table_def Let_def)
qed

theorem odd_size_alloc_panics_witness:
  "alloc_fast checks (types_ops [4096 \<mapsto> primitive_descriptor U32]) 1 (Typed 4096) 0
     \<lparr>w_shared = \<lparr>ss_mm = \<lparr>mm_mapping = \<lparr>map_ptr = 2097152, map_len = 2097152\<rparr>, mm_page_table = page_table_new 2097152 1\<rparr>,
        ss_second_mm = [], ss_contexts = [(1, \<lparr>cs_mm_context = mm_context_new, cs_root_set = []\<rparr>)],
        ss_mark_true_bit = Bit1, ss_type_manager = types_new\<rparr>,
      w_controller = controller_new, w_memory = (\<lambda>_. 0)\<rparr> = Inl Assert_Failed"
  by (rule odd_size_alloc_panics[of "Primitive U32" "primitive_descriptor U32"])
    (simp_all add: TYPE_TYPE_MASK_def plain_descriptor_defs descriptor_new_def METADATA_SIZE_def ARRAY_HEADER_SIZE_def)

end
