(* ===== verification/Root_Refs.thy ===== *)
theory Root_Refs
  imports Shared_State
begin

text \<open>
  \<open>uwugc-plus/src/context.rs\<close>, \<open>safepoint.rs\<close> and the allocation functions of
  \<open>uwugc-plus/src/lib.rs\<close>: the root set of a thread as a vector of slots, and the handles
  (\<open>RootRefRaw\<close>) that hold a pointer or, while stored, the number of the slot that holds it. The
  thread-local context and its live handles are one record; a handle is named by its position.
  Shown are the invariant that ties the two counters to slots and handles, and that a safepoint over
  all handles gives each of them what the collector made of its pointer (\<open>safepoint_updates_roots\<close>).
\<close>

section \<open>The root set\<close>

record inner =
  in_set :: "object_ptr option list"
  used_map :: "bool list"
  stored_count :: nat
  exist_count :: nat

record root_ref =
  rf_ptr :: "object_ptr option"
  rf_idx :: nat

record plus_context =
  pc_inner :: inner
  pc_refs :: "root_ref list"

definition plus_context_new :: plus_context where
  "plus_context_new =
     \<lparr>pc_inner = \<lparr>in_set = [], used_map = [], stored_count = 0, exist_count = 0\<rparr>, pc_refs = []\<rparr>"

text \<open>\<open>set.iter().flatten()\<close>, and the same in place.\<close>

definition inner_iter_pointers :: "inner \<Rightarrow> object_ptr list" where
  "inner_iter_pointers inner = concat (map (\<lambda>x. case x of None \<Rightarrow> [] | Some p \<Rightarrow> [p]) (in_set inner))"

fun map_slots :: "(object_ptr \<Rightarrow> object_ptr res) \<Rightarrow> object_ptr option list \<Rightarrow> object_ptr option list res" where
  "map_slots visitor [] = Inr []"
| "map_slots visitor (None # xs) = bind_res (map_slots visitor xs) (\<lambda>ys. Inr (None # ys))"
| "map_slots visitor (Some p # xs) =
     bind_res (visitor p) (\<lambda>q. bind_res (map_slots visitor xs) (\<lambda>ys. Inr (Some q # ys)))"

definition inner_map_pointers :: "(object_ptr \<Rightarrow> object_ptr res) \<Rightarrow> inner \<Rightarrow> inner res" where
  "inner_map_pointers visitor inner =
     bind_res (map_slots visitor (in_set inner)) (\<lambda>slots. Inr (inner\<lparr>in_set := slots\<rparr>))"

text \<open>The contract of the \<open>RootSet\<close> trait, as the collector uses it: mapping agrees with iterating.\<close>

locale root_set_contract =
  fixes iter :: "'s \<Rightarrow> object_ptr list"
    and map_ptrs :: "(object_ptr \<Rightarrow> object_ptr res) \<Rightarrow> 's \<Rightarrow> 's res"
  assumes map_refines: "root_map_pointers visitor (iter s) = bind_res (map_ptrs visitor s) (\<lambda>s'. Inr (iter s'))"
begin

lemma map_total:
  assumes "\<forall>x \<in> set (iter s). visitor x = Inr (f x)"
  shows "\<exists>s'. map_ptrs visitor s = Inr s' \<and> iter s' = map f (iter s)"
  using root_map_pointers_total[OF assms] map_refines[of visitor s] by (auto simp: bind_res_eq_Inr)

end

lemma map_slots_refines:
  "root_map_pointers visitor (concat (map (\<lambda>x. case x of None \<Rightarrow> [] | Some p \<Rightarrow> [p]) cells)) =
   bind_res (map_slots visitor cells) (\<lambda>cells.
     Inr (concat (map (\<lambda>x. case x of None \<Rightarrow> [] | Some p \<Rightarrow> [p]) cells)))"
  by (induction visitor cells rule: map_slots.induct) (auto simp: bind_res_def split: sum.splits)

interpretation plus_roots: root_set_contract inner_iter_pointers inner_map_pointers
  by unfold_locales
    (simp add: inner_iter_pointers_def inner_map_pointers_def map_slots_refines bind_res_def split: sum.splits)

lemma map_slots_total:
  "\<forall>p. Some p \<in> set cells \<longrightarrow> visitor p = Inr (f p) \<Longrightarrow> map_slots visitor cells = Inr (map (map_option f) cells)"
  by (induction visitor cells rule: map_slots.induct) auto

section \<open>Handles\<close>

definition get_ptr :: "root_ref \<Rightarrow> object_ptr res" where
  "get_ptr r = unwrap (rf_ptr r)"

definition root_ref_store :: "root_ref \<Rightarrow> inner \<Rightarrow> (root_ref \<times> inner) res" where
  "root_ref_store r inner =
     bind_res (unwrap (rf_ptr r)) (\<lambda>ptr.
     let r = r\<lparr>rf_ptr := None\<rparr>; inner = inner\<lparr>stored_count := stored_count inner + 1\<rparr> in
     bind_res (index (in_set inner) (rf_idx r)) (\<lambda>slot.
     assert_then (slot = None) (Inr (r, inner\<lparr>in_set := (in_set inner)[rf_idx r := Some ptr]\<rparr>))))"

definition root_ref_load :: "root_ref \<Rightarrow> inner \<Rightarrow> (root_ref \<times> inner) res" where
  "root_ref_load r inner =
     bind_res (usub (stored_count inner) 1) (\<lambda>stored.
     let inner = inner\<lparr>stored_count := stored\<rparr> in
     bind_res (index (in_set inner) (rf_idx r)) (\<lambda>slot.
     assert_then (slot \<noteq> None)
       (bind_res (unwrap slot) (\<lambda>ptr.
         Inr (r\<lparr>rf_ptr := Some ptr\<rparr>, inner\<lparr>in_set := (in_set inner)[rf_idx r := None]\<rparr>)))))"

text \<open>\<open>Drop for RootRefRaw\<close>.\<close>

definition root_ref_drop :: "root_ref \<Rightarrow> inner \<Rightarrow> inner res" where
  "root_ref_drop r inner =
     bind_res (usub (exist_count inner) 1) (\<lambda>exist.
     bind_res (if rf_ptr r = None then usub (stored_count inner) 1 else Inr (stored_count inner)) (\<lambda>stored.
     bind_res (index_set (in_set inner) (rf_idx r) None) (\<lambda>slots.
     bind_res (index_set (used_map inner) (rf_idx r) False) (\<lambda>used.
       Inr \<lparr>in_set = slots, used_map = used, stored_count = stored, exist_count = exist\<rparr>))))"

text \<open>\<open>used_map.first_zero()\<close>.\<close>

fun first_zero :: "bool list \<Rightarrow> nat option" where
  "first_zero [] = None"
| "first_zero (b # bs) = (if \<not> b then Some 0 else map_option Suc (first_zero bs))"

definition add_ptr :: "object_ptr \<Rightarrow> inner \<Rightarrow> (root_ref \<times> inner) res" where
  "add_ptr ptr inner =
     (case first_zero (used_map inner) of
        None \<Rightarrow>
          (let idx = length (in_set inner) in
           Inr (\<lparr>rf_ptr = Some ptr, rf_idx = idx\<rparr>,
             inner\<lparr>in_set := in_set inner @ [None], used_map := used_map inner @ [True],
                   exist_count := exist_count inner + 1\<rparr>))
      | Some free_index \<Rightarrow>
          bind_res (index (in_set inner) free_index) (\<lambda>slot.
          assert_then (slot = None)
            (Inr (\<lparr>rf_ptr = Some ptr, rf_idx = free_index\<rparr>,
               inner\<lparr>in_set := (in_set inner)[free_index := None], used_map := (used_map inner)[free_index := True],
                     exist_count := exist_count inner + 1\<rparr>))))"

section \<open>The context\<close>

text \<open>The operations on the handle at a position; dropping it removes it.\<close>

definition ctx_add :: "object_ptr \<Rightarrow> plus_context \<Rightarrow> plus_context res" where
  "ctx_add ptr c =
     bind_res (add_ptr ptr (pc_inner c)) (\<lambda>(r, inner). Inr (c\<lparr>pc_inner := inner, pc_refs := pc_refs c @ [r]\<rparr>))"

definition ctx_store :: "nat \<Rightarrow> plus_context \<Rightarrow> plus_context res" where
  "ctx_store h c =
     bind_res (root_ref_store (pc_refs c ! h) (pc_inner c)) (\<lambda>(r, inner).
       Inr (c\<lparr>pc_inner := inner, pc_refs := (pc_refs c)[h := r]\<rparr>))"

definition ctx_load :: "nat \<Rightarrow> plus_context \<Rightarrow> plus_context res" where
  "ctx_load h c =
     bind_res (root_ref_load (pc_refs c ! h) (pc_inner c)) (\<lambda>(r, inner).
       Inr (c\<lparr>pc_inner := inner, pc_refs := (pc_refs c)[h := r]\<rparr>))"

definition ctx_drop :: "nat \<Rightarrow> plus_context \<Rightarrow> plus_context res" where
  "ctx_drop h c =
     bind_res (root_ref_drop (pc_refs c ! h) (pc_inner c)) (\<lambda>inner.
       Inr (c\<lparr>pc_inner := inner, pc_refs := take h (pc_refs c) @ drop (Suc h) (pc_refs c)\<rparr>))"

fun ctx_all :: "(nat \<Rightarrow> plus_context \<Rightarrow> plus_context res) \<Rightarrow> nat list \<Rightarrow> plus_context \<Rightarrow> plus_context res" where
  "ctx_all f [] c = Inr c"
| "ctx_all f (h # hs) c = bind_res (f h c) (ctx_all f hs)"

text \<open>
  \<open>Context::safepoint\<close>: the assertion, then the thread may be stopped while the collector visits the
  root set with \<open>gc\<close>. The free function stores and loads the handles of a \<open>Safepoint\<close> list around it.
\<close>

definition context_safepoint :: "(inner \<Rightarrow> inner res) \<Rightarrow> plus_context \<Rightarrow> plus_context res" where
  "context_safepoint gc c =
     assert_then (stored_count (pc_inner c) = exist_count (pc_inner c))
       (bind_res (gc (pc_inner c)) (\<lambda>inner. Inr (c\<lparr>pc_inner := inner\<rparr>)))"

definition before_safepoint :: "nat list \<Rightarrow> plus_context \<Rightarrow> plus_context res" where
  "before_safepoint hs c = ctx_all ctx_store hs c"

definition after_safepoint :: "nat list \<Rightarrow> plus_context \<Rightarrow> plus_context res" where
  "after_safepoint hs c = ctx_all ctx_load hs c"

definition plus_safepoint :: "nat list \<Rightarrow> (inner \<Rightarrow> inner res) \<Rightarrow> plus_context \<Rightarrow> plus_context res" where
  "plus_safepoint hs gc c =
     bind_res (before_safepoint hs c) (\<lambda>c.
     bind_res (context_safepoint gc c) (\<lambda>c. after_safepoint hs c))"

text \<open>
  \<open>alloc\<close> and \<open>alloc_array\<close> up to the initialisation: the fast path, else the slow one between store
  and load. \<open>fast\<close> and \<open>slow\<close> are what the allocator returns, the slow one after a collection.
\<close>

definition context_alloc_slow ::
    "(inner \<Rightarrow> inner res) \<Rightarrow> object_ptr option \<Rightarrow> plus_context \<Rightarrow> (plus_context \<times> bool) res" where
  "context_alloc_slow gc slow c =
     assert_then (stored_count (pc_inner c) = exist_count (pc_inner c))
       (bind_res (gc (pc_inner c)) (\<lambda>inner.
        let c = c\<lparr>pc_inner := inner\<rparr> in
        case slow of
          None \<Rightarrow> Inr (c, False)
        | Some ptr \<Rightarrow> bind_res (ctx_add ptr c) (\<lambda>c. Inr (c, True))))"

definition plus_alloc ::
    "nat list \<Rightarrow> (inner \<Rightarrow> inner res) \<Rightarrow> object_ptr option \<Rightarrow> object_ptr option \<Rightarrow> plus_context
     \<Rightarrow> (plus_context \<times> bool) res" where
  "plus_alloc hs gc fast slow c =
     (case fast of
        Some ptr \<Rightarrow> bind_res (ctx_add ptr c) (\<lambda>c. Inr (c, True))
      | None \<Rightarrow>
          bind_res (before_safepoint hs c) (\<lambda>c.
          bind_res (context_alloc_slow gc slow c) (\<lambda>(c, found).
          bind_res (after_safepoint hs c) (\<lambda>c. Inr (c, found)))))"

section \<open>The invariant\<close>

definition count :: "('a \<Rightarrow> bool) \<Rightarrow> 'a list \<Rightarrow> nat" where
  "count P xs = length (filter P xs)"

definition inner_inv :: "inner \<Rightarrow> bool" where
  "inner_inv inner \<longleftrightarrow>
     length (used_map inner) = length (in_set inner) \<and>
     exist_count inner = count (\<lambda>b. b) (used_map inner) \<and>
     stored_count inner = count (\<lambda>x. x \<noteq> None) (in_set inner) \<and>
     (\<forall>i < length (in_set inner). in_set inner ! i \<noteq> None \<longrightarrow> used_map inner ! i)"

definition refs_inv :: "inner \<Rightarrow> root_ref list \<Rightarrow> bool" where
  "refs_inv inner refs \<longleftrightarrow>
     distinct (map rf_idx refs) \<and>
     set (map rf_idx refs) = {i. i < length (used_map inner) \<and> used_map inner ! i} \<and>
     (\<forall>h < length refs. rf_ptr (refs ! h) = None \<longleftrightarrow> in_set inner ! rf_idx (refs ! h) \<noteq> None)"

definition ctx_inv :: "plus_context \<Rightarrow> bool" where
  "ctx_inv c \<longleftrightarrow> inner_inv (pc_inner c) \<and> refs_inv (pc_inner c) (pc_refs c)"

text \<open>What a handle stands for: the pointer it holds, or the one in its slot.\<close>

definition ref_value :: "plus_context \<Rightarrow> nat \<Rightarrow> object_ptr option" where
  "ref_value c h =
     (case rf_ptr (pc_refs c ! h) of Some p \<Rightarrow> Some p | None \<Rightarrow> in_set (pc_inner c) ! rf_idx (pc_refs c ! h))"

lemma count_simps [simp]:
  "count P [] = 0" "count P (x # xs) = (if P x then 1 else 0) + count P xs"
  "count P (xs @ ys) = count P xs + count P ys"
  by (simp_all add: count_def)

lemma count_update:
  "i < length xs \<Longrightarrow>
   count P (xs[i := y]) + (if P (xs ! i) then 1 else 0) = count P xs + (if P y then 1 else 0)"
proof (induction xs arbitrary: i)
  case (Cons x xs)
  then show ?case by (cases i) (auto simp del: One_nat_def)
qed simp

lemma count_pos: "i < length xs \<Longrightarrow> P (xs ! i) \<Longrightarrow> 1 \<le> count P xs"
  using count_update[of i xs P "xs ! i"] length_pos_if_in_set[of "xs ! i" "filter P xs"]
  by (simp add: count_def Suc_le_eq)

lemma ctx_invD:
  assumes "ctx_inv c"
  shows "length (used_map (pc_inner c)) = length (in_set (pc_inner c))"
    "exist_count (pc_inner c) = count (\<lambda>b. b) (used_map (pc_inner c))"
    "stored_count (pc_inner c) = count (\<lambda>x. x \<noteq> None) (in_set (pc_inner c))"
    "i < length (in_set (pc_inner c)) \<Longrightarrow> in_set (pc_inner c) ! i \<noteq> None \<Longrightarrow> used_map (pc_inner c) ! i"
    "distinct (map rf_idx (pc_refs c))"
    "set (map rf_idx (pc_refs c)) = {i. i < length (used_map (pc_inner c)) \<and> used_map (pc_inner c) ! i}"
    "h < length (pc_refs c) \<Longrightarrow>
       rf_ptr (pc_refs c ! h) = None \<longleftrightarrow> in_set (pc_inner c) ! rf_idx (pc_refs c ! h) \<noteq> None"
  using assms unfolding ctx_inv_def inner_inv_def refs_inv_def by simp_all

lemma ctx_handle:
  assumes "ctx_inv c" "h < length (pc_refs c)"
  shows "rf_idx (pc_refs c ! h) < length (in_set (pc_inner c))"
    "rf_idx (pc_refs c ! h) < length (used_map (pc_inner c))" "used_map (pc_inner c) ! rf_idx (pc_refs c ! h)"
proof -
  have "rf_idx (pc_refs c ! h) \<in> set (map rf_idx (pc_refs c))" using assms(2) by simp
  then show "rf_idx (pc_refs c ! h) < length (in_set (pc_inner c))"
    "rf_idx (pc_refs c ! h) < length (used_map (pc_inner c))" "used_map (pc_inner c) ! rf_idx (pc_refs c ! h)"
    unfolding ctx_invD(6)[OF assms(1)] using ctx_invD(1)[OF assms(1)] by simp_all
qed

lemma handles_differ:
  assumes "ctx_inv c" "h < length (pc_refs c)" "k < length (pc_refs c)" "h \<noteq> k"
  shows "rf_idx (pc_refs c ! h) \<noteq> rf_idx (pc_refs c ! k)"
  using ctx_invD(5)[OF assms(1)] assms(2-4) by (simp add: distinct_conv_nth)

text \<open>A handle and its slot change together.\<close>

lemma ctx_inv_change:
  assumes inv: "ctx_inv c" and h: "h < length (pc_refs c)"
    and flip: "(p = None) \<noteq> (x = None)"
    and stored: "stored' + (if in_set (pc_inner c) ! rf_idx (pc_refs c ! h) \<noteq> None then 1 else 0) =
      stored_count (pc_inner c) + (if x \<noteq> None then 1 else 0)"
  shows "ctx_inv (c\<lparr>pc_inner := (pc_inner c)\<lparr>stored_count := stored',
      in_set := (in_set (pc_inner c))[rf_idx (pc_refs c ! h) := x]\<rparr>,
    pc_refs := (pc_refs c)[h := (pc_refs c ! h)\<lparr>rf_ptr := p\<rparr>]\<rparr>)"
proof -
  let ?i = "rf_idx (pc_refs c ! h)" and ?inner = "pc_inner c" and ?refs = "pc_refs c"
  note idx = ctx_handle[OF inv h]
  have ids: "map rf_idx (?refs[h := (?refs ! h)\<lparr>rf_ptr := p\<rparr>]) = map rf_idx ?refs"
    using h by (simp add: map_update) (metis list_update_id nth_map)
  have "stored' = count (\<lambda>x. x \<noteq> None) ((in_set ?inner)[?i := x])"
    using count_update[OF idx(1), of "\<lambda>x. x \<noteq> None" x] stored ctx_invD(3)[OF inv] by (simp split: if_splits)
  moreover have "used_map ?inner ! j" if "j < length (in_set ?inner)" "(in_set ?inner)[?i := x] ! j \<noteq> None" for j
    using that ctx_invD(4)[OF inv that(1)] idx by (cases "j = ?i") simp_all
  ultimately have "inner_inv (?inner\<lparr>stored_count := stored', in_set := (in_set ?inner)[?i := x]\<rparr>)"
    using ctx_invD(1,2)[OF inv] by (simp add: inner_inv_def)
  moreover have "rf_ptr (?refs[h := (?refs ! h)\<lparr>rf_ptr := p\<rparr>] ! k) = None \<longleftrightarrow>
      (in_set ?inner)[?i := x] ! rf_idx (?refs[h := (?refs ! h)\<lparr>rf_ptr := p\<rparr>] ! k) \<noteq> None"
    if k: "k < length ?refs" for k
    using flip idx(1) h k handles_differ[OF inv h k] ctx_invD(7)[OF inv k] by (cases "k = h") auto
  ultimately show ?thesis
    using ctx_invD(5,6)[OF inv] unfolding ctx_inv_def refs_inv_def by (simp add: ids del: set_map)
qed

definition stored_ctx :: "nat \<Rightarrow> object_ptr \<Rightarrow> plus_context \<Rightarrow> plus_context" where
  "stored_ctx h p c =
     c\<lparr>pc_inner := (pc_inner c)\<lparr>stored_count := stored_count (pc_inner c) + 1,
         in_set := (in_set (pc_inner c))[rf_idx (pc_refs c ! h) := Some p]\<rparr>,
       pc_refs := (pc_refs c)[h := (pc_refs c ! h)\<lparr>rf_ptr := None\<rparr>]\<rparr>"

definition loaded_ctx :: "nat \<Rightarrow> object_ptr \<Rightarrow> plus_context \<Rightarrow> plus_context" where
  "loaded_ctx h p c =
     c\<lparr>pc_inner := (pc_inner c)\<lparr>stored_count := stored_count (pc_inner c) - 1,
         in_set := (in_set (pc_inner c))[rf_idx (pc_refs c ! h) := None]\<rparr>,
       pc_refs := (pc_refs c)[h := (pc_refs c ! h)\<lparr>rf_ptr := Some p\<rparr>]\<rparr>"

lemma ctx_store_ok:
  assumes inv: "ctx_inv c" and h: "h < length (pc_refs c)" and p: "rf_ptr (pc_refs c ! h) = Some p"
  shows "ctx_store h c = Inr (stored_ctx h p c)" "ctx_inv (stored_ctx h p c)"
proof -
  have "in_set (pc_inner c) ! rf_idx (pc_refs c ! h) = None" using ctx_invD(7)[OF inv h] p by simp
  then show "ctx_store h c = Inr (stored_ctx h p c)" "ctx_inv (stored_ctx h p c)"
    using ctx_handle(1)[OF inv h] p ctx_inv_change[OF inv h, of None "Some p"]
    by (simp_all add: ctx_store_def root_ref_store_def stored_ctx_def Let_def)
qed

lemma ctx_load_ok:
  assumes inv: "ctx_inv c" and h: "h < length (pc_refs c)"
    and p: "rf_ptr (pc_refs c ! h) = None" "in_set (pc_inner c) ! rf_idx (pc_refs c ! h) = Some p"
  shows "ctx_load h c = Inr (loaded_ctx h p c)" "ctx_inv (loaded_ctx h p c)"
proof -
  have "1 \<le> stored_count (pc_inner c)"
    using count_pos[OF ctx_handle(1)[OF inv h], of "\<lambda>x. x \<noteq> None"] p(2) ctx_invD(3)[OF inv] by simp
  then show "ctx_load h c = Inr (loaded_ctx h p c)" "ctx_inv (loaded_ctx h p c)"
    using ctx_handle(1)[OF inv h] p ctx_inv_change[OF inv h, of "Some p" None "stored_count (pc_inner c) - 1"]
    by (simp_all add: ctx_load_def root_ref_load_def loaded_ctx_def Let_def)
qed

text \<open>What every store, load and visit leaves alone.\<close>

definition same_handles :: "plus_context \<Rightarrow> plus_context \<Rightarrow> bool" where
  "same_handles c c' \<longleftrightarrow>
     map rf_idx (pc_refs c') = map rf_idx (pc_refs c) \<and> used_map (pc_inner c') = used_map (pc_inner c) \<and>
     exist_count (pc_inner c') = exist_count (pc_inner c)"

lemma same_handles_refl: "same_handles c c"
  by (simp add: same_handles_def)

lemma same_handles_trans: "same_handles c c' \<Longrightarrow> same_handles c' c'' \<Longrightarrow> same_handles c c''"
  by (simp add: same_handles_def)

lemma same_handles_length: "same_handles c c' \<Longrightarrow> length (pc_refs c') = length (pc_refs c)"
  unfolding same_handles_def by (metis length_map)

lemma same_idx: "h < length refs \<Longrightarrow> map rf_idx (refs[h := (refs ! h)\<lparr>rf_ptr := p\<rparr>]) = map rf_idx refs"
  by (simp add: map_update) (metis list_update_id nth_map)

lemma stored_ctx_effect:
  assumes inv: "ctx_inv c" and h: "h < length (pc_refs c)" and p: "rf_ptr (pc_refs c ! h) = Some p"
  shows "same_handles c (stored_ctx h p c)"
    "k < length (pc_refs c) \<Longrightarrow> ref_value (stored_ctx h p c) k = ref_value c k"
    "k < length (pc_refs c) \<Longrightarrow>
       rf_ptr (pc_refs (stored_ctx h p c) ! k) = (if k = h then None else rf_ptr (pc_refs c ! k))"
proof -
  show "same_handles c (stored_ctx h p c)" using h by (simp add: same_handles_def stored_ctx_def same_idx)
  assume k: "k < length (pc_refs c)"
  show "ref_value (stored_ctx h p c) k = ref_value c k"
    using ctx_handle(1)[OF inv h] p h k handles_differ[OF inv h k]
    by (cases "k = h") (simp_all add: ref_value_def stored_ctx_def split: option.split)
  show "rf_ptr (pc_refs (stored_ctx h p c) ! k) = (if k = h then None else rf_ptr (pc_refs c ! k))"
    using h k by (simp add: stored_ctx_def nth_list_update)
qed

lemma loaded_ctx_effect:
  assumes inv: "ctx_inv c" and h: "h < length (pc_refs c)"
    and p: "rf_ptr (pc_refs c ! h) = None" "in_set (pc_inner c) ! rf_idx (pc_refs c ! h) = Some p"
  shows "same_handles c (loaded_ctx h p c)"
    "k < length (pc_refs c) \<Longrightarrow> ref_value (loaded_ctx h p c) k = ref_value c k"
    "k < length (pc_refs c) \<Longrightarrow>
       rf_ptr (pc_refs (loaded_ctx h p c) ! k) = (if k = h then Some p else rf_ptr (pc_refs c ! k))"
proof -
  show "same_handles c (loaded_ctx h p c)" using h by (simp add: same_handles_def loaded_ctx_def same_idx)
  assume k: "k < length (pc_refs c)"
  show "ref_value (loaded_ctx h p c) k = ref_value c k"
    using ctx_handle(1)[OF inv h] p h k handles_differ[OF inv h k]
    by (cases "k = h") (simp_all add: ref_value_def loaded_ctx_def split: option.splits)
  show "rf_ptr (pc_refs (loaded_ctx h p c) ! k) = (if k = h then Some p else rf_ptr (pc_refs c ! k))"
    using h k by (simp add: loaded_ctx_def nth_list_update)
qed

text \<open>Storing, and loading, a list of handles.\<close>

lemma store_all:
  "ctx_inv c \<Longrightarrow> distinct hs \<Longrightarrow> \<forall>h \<in> set hs. h < length (pc_refs c) \<and> rf_ptr (pc_refs c ! h) \<noteq> None \<Longrightarrow>
   \<exists>c'. before_safepoint hs c = Inr c' \<and> ctx_inv c' \<and> same_handles c c' \<and>
     (\<forall>k < length (pc_refs c). ref_value c' k = ref_value c k \<and>
       rf_ptr (pc_refs c' ! k) = (if k \<in> set hs then None else rf_ptr (pc_refs c ! k)))"
  unfolding before_safepoint_def
proof (induction hs arbitrary: c)
  case Nil
  then show ?case by (simp add: same_handles_refl)
next
  case (Cons h hs)
  then obtain p where h: "h < length (pc_refs c)" "rf_ptr (pc_refs c ! h) = Some p" by auto
  let ?c = "stored_ctx h p c"
  note eff = stored_ctx_effect[OF Cons.prems(1) h]
  have len: "length (pc_refs ?c) = length (pc_refs c)" using same_handles_length[OF eff(1)] .
  have "\<forall>k \<in> set hs. k < length (pc_refs ?c) \<and> rf_ptr (pc_refs ?c ! k) \<noteq> None"
    using Cons.prems(2,3) eff(3) len by auto
  from Cons.IH[OF ctx_store_ok(2)[OF Cons.prems(1) h] _ this] Cons.prems(2) obtain c' where
    c': "ctx_all ctx_store hs ?c = Inr c'" "ctx_inv c'" "same_handles ?c c'"
      "\<forall>k < length (pc_refs c). ref_value c' k = ref_value ?c k \<and>
       rf_ptr (pc_refs c' ! k) = (if k \<in> set hs then None else rf_ptr (pc_refs ?c ! k))"
    unfolding len by auto
  then have "\<forall>k < length (pc_refs c). ref_value c' k = ref_value c k \<and>
       rf_ptr (pc_refs c' ! k) = (if k \<in> set (h # hs) then None else rf_ptr (pc_refs c ! k))"
    using eff(2,3) by simp
  then show ?case
    using c'(1,2) same_handles_trans[OF eff(1) c'(3)] ctx_store_ok(1)[OF Cons.prems(1) h] by auto
qed

lemma load_all:
  "ctx_inv c \<Longrightarrow> distinct hs \<Longrightarrow> \<forall>h \<in> set hs. h < length (pc_refs c) \<and> rf_ptr (pc_refs c ! h) = None \<Longrightarrow>
   \<exists>c'. after_safepoint hs c = Inr c' \<and> ctx_inv c' \<and> same_handles c c' \<and>
     (\<forall>k < length (pc_refs c). ref_value c' k = ref_value c k \<and>
       rf_ptr (pc_refs c' ! k) = (if k \<in> set hs then ref_value c k else rf_ptr (pc_refs c ! k)))"
  unfolding after_safepoint_def
proof (induction hs arbitrary: c)
  case Nil
  then show ?case by (simp add: same_handles_refl)
next
  case (Cons h hs)
  then have "h < length (pc_refs c)" "rf_ptr (pc_refs c ! h) = None" by auto
  with ctx_invD(7)[OF Cons.prems(1)] obtain p where
    h: "h < length (pc_refs c)" "rf_ptr (pc_refs c ! h) = None" "in_set (pc_inner c) ! rf_idx (pc_refs c ! h) = Some p"
    by auto
  let ?c = "loaded_ctx h p c"
  note eff = loaded_ctx_effect[OF Cons.prems(1) h]
  have len: "length (pc_refs ?c) = length (pc_refs c)" using same_handles_length[OF eff(1)] .
  have val: "ref_value c h = Some p" using h by (simp add: ref_value_def)
  have "\<forall>k \<in> set hs. k < length (pc_refs ?c) \<and> rf_ptr (pc_refs ?c ! k) = None"
    using Cons.prems(2,3) eff(3) len by auto
  from Cons.IH[OF ctx_load_ok(2)[OF Cons.prems(1) h] _ this] Cons.prems(2) obtain c' where
    c': "ctx_all ctx_load hs ?c = Inr c'" "ctx_inv c'" "same_handles ?c c'"
      "\<forall>k < length (pc_refs c). ref_value c' k = ref_value ?c k \<and>
       rf_ptr (pc_refs c' ! k) = (if k \<in> set hs then ref_value ?c k else rf_ptr (pc_refs ?c ! k))"
    unfolding len by auto
  then have "\<forall>k < length (pc_refs c). ref_value c' k = ref_value c k \<and>
       rf_ptr (pc_refs c' ! k) = (if k \<in> set (h # hs) then ref_value c k else rf_ptr (pc_refs c ! k))"
    using eff(2,3) val by simp
  then show ?case
    using c'(1,2) same_handles_trans[OF eff(1) c'(3)] ctx_load_ok(1)[OF Cons.prems(1) h] by auto
qed

text \<open>The counters agree exactly when no handle holds a pointer.\<close>

lemma all_stored_iff:
  assumes inv: "ctx_inv c"
  shows "stored_count (pc_inner c) = exist_count (pc_inner c) \<longleftrightarrow> (\<forall>h < length (pc_refs c). rf_ptr (pc_refs c ! h) = None)"
proof -
  let ?S = "{i. i < length (in_set (pc_inner c)) \<and> in_set (pc_inner c) ! i \<noteq> None}"
  let ?U = "{i. i < length (used_map (pc_inner c)) \<and> used_map (pc_inner c) ! i}"
  have counts: "stored_count (pc_inner c) = card ?S" "exist_count (pc_inner c) = card ?U"
    using ctx_invD(2,3)[OF inv] by (simp_all add: count_def length_filter_conv_card)
  have fin: "finite ?U" by simp
  have sub: "?S \<subseteq> ?U"
  proof
    fix i assume "i \<in> ?S"
    then show "i \<in> ?U" using ctx_invD(1)[OF inv] ctx_invD(4)[OF inv, of i] by simp
  qed
  have "card ?S = card ?U \<longleftrightarrow> ?S = ?U" 
    by (rule iffI, rule card_subset_eq[OF fin sub], assumption, rule arg_cong[where f = card])
  also have "\<dots> \<longleftrightarrow> ?U \<subseteq> ?S" by (rule iffI, erule equalityD2, rule subset_antisym[OF sub])
  also have "\<dots> \<longleftrightarrow> (\<forall>i \<in> ?U. in_set (pc_inner c) ! i \<noteq> None)"
    unfolding subset_iff Ball_def using ctx_invD(1)[OF inv] by (intro all_cong1) auto
  also have "\<dots> \<longleftrightarrow> (\<forall>h < length (pc_refs c). in_set (pc_inner c) ! rf_idx (pc_refs c ! h) \<noteq> None)"
    unfolding ctx_invD(6)[OF inv, symmetric] by (simp add: all_set_conv_all_nth)
  also have "\<dots> \<longleftrightarrow> (\<forall>h < length (pc_refs c). rf_ptr (pc_refs c ! h) = None)"
    using ctx_invD(7)[OF inv] by auto
  finally show ?thesis using counts by simp
qed

text \<open>The collector's visit of the root set.\<close>

definition moved_ctx :: "(object_ptr \<Rightarrow> object_ptr) \<Rightarrow> plus_context \<Rightarrow> plus_context" where
  "moved_ctx f c = c\<lparr>pc_inner := (pc_inner c)\<lparr>in_set := map (map_option f) (in_set (pc_inner c))\<rparr>\<rparr>"

lemma count_map_option: "count (\<lambda>x. x \<noteq> None) (map (map_option f) xs) = count (\<lambda>x. x \<noteq> None) xs"
  by (induction xs) (simp_all add: option.map_disc_iff del: not_None_eq)

lemma moved_ctx_inv:
  assumes inv: "ctx_inv c"
  shows "ctx_inv (moved_ctx f c)" "same_handles c (moved_ctx f c)"
proof -
  have "inner_inv (pc_inner (moved_ctx f c))"
    using ctx_invD(1-4)[OF inv] by (simp add: inner_inv_def moved_ctx_def count_map_option del: not_None_eq)
  moreover have "refs_inv (pc_inner (moved_ctx f c)) (pc_refs (moved_ctx f c))"
    using ctx_invD(5-7)[OF inv] ctx_handle(1)[OF inv] by (simp add: refs_inv_def moved_ctx_def del: set_map)
  ultimately show "ctx_inv (moved_ctx f c)" by (simp add: ctx_inv_def)
  show "same_handles c (moved_ctx f c)" by (simp add: same_handles_def moved_ctx_def)
qed

lemma context_safepoint_moves:
  assumes inv: "ctx_inv c" and stored: "\<forall>h < length (pc_refs c). rf_ptr (pc_refs c ! h) = None"
    and visitor: "\<And>h p. h < length (pc_refs c) \<Longrightarrow> ref_value c h = Some p \<Longrightarrow> visitor p = Inr (f p)"
  shows "context_safepoint (inner_map_pointers visitor) c = Inr (moved_ctx f c)"
    "h < length (pc_refs c) \<Longrightarrow> ref_value (moved_ctx f c) h = map_option f (ref_value c h)"
proof -
  have "visitor p = Inr (f p)" if "Some p \<in> set (in_set (pc_inner c))" for p
  proof -
    from that obtain i where i: "i < length (in_set (pc_inner c))" "in_set (pc_inner c) ! i = Some p"
      by (auto simp: in_set_conv_nth)
    then have "i \<in> set (map rf_idx (pc_refs c))" unfolding ctx_invD(6)[OF inv]
      using ctx_invD(1)[OF inv] ctx_invD(4)[OF inv i(1)] by simp
    then obtain h where "h < length (pc_refs c)" "rf_idx (pc_refs c ! h) = i" by (auto simp: in_set_conv_nth)
    with i(2) stored visitor show ?thesis by (simp add: ref_value_def)
  qed
  then show "context_safepoint (inner_map_pointers visitor) c = Inr (moved_ctx f c)"
    using all_stored_iff[OF inv] stored map_slots_total[of "in_set (pc_inner c)" visitor f]
    by (simp add: context_safepoint_def inner_map_pointers_def moved_ctx_def)
  show "h < length (pc_refs c) \<Longrightarrow> ref_value (moved_ctx f c) h = map_option f (ref_value c h)"
    using stored ctx_handle(1)[OF inv] by (simp add: ref_value_def moved_ctx_def)
qed

section \<open>Adding and dropping handles\<close>

lemma first_zero_None: "first_zero bs = None \<longleftrightarrow> (\<forall>i < length bs. bs ! i)"
  by (induction bs) (auto simp: less_Suc_eq_0_disj)

lemma first_zero_Some: "first_zero bs = Some i \<Longrightarrow> i < length bs \<and> \<not> bs ! i"
  by (induction bs arbitrary: i) (auto split: if_splits)

lemma ctx_add_ok:
  assumes inv: "ctx_inv c"
  shows "\<exists>c'. ctx_add p c = Inr c' \<and> ctx_inv c' \<and> length (pc_refs c') = length (pc_refs c) + 1 \<and>
    (\<forall>k < length (pc_refs c). ref_value c' k = ref_value c k \<and> rf_ptr (pc_refs c' ! k) = rf_ptr (pc_refs c ! k)) \<and>
    rf_ptr (pc_refs c' ! length (pc_refs c)) = Some p"
proof (cases "first_zero (used_map (pc_inner c))")
  case None
  let ?n = "length (in_set (pc_inner c))"
  let ?c = "c\<lparr>pc_inner := (pc_inner c)\<lparr>in_set := in_set (pc_inner c) @ [None], used_map := used_map (pc_inner c) @ [True],
      exist_count := exist_count (pc_inner c) + 1\<rparr>, pc_refs := pc_refs c @ [\<lparr>rf_ptr = Some p, rf_idx = ?n\<rparr>]\<rparr>"
  have add: "ctx_add p c = Inr ?c" using None by (simp add: ctx_add_def add_ptr_def Let_def)
  have "inner_inv (pc_inner ?c)" using ctx_invD(1-4)[OF inv] by (simp add: inner_inv_def nth_append)
  moreover have "refs_inv (pc_inner ?c) (pc_refs ?c)"
    unfolding refs_inv_def
  proof (intro conjI allI impI)
    have "?n \<notin> set (map rf_idx (pc_refs c))" unfolding ctx_invD(6)[OF inv] using ctx_invD(1)[OF inv] by simp
    then show "distinct (map rf_idx (pc_refs ?c))" using ctx_invD(5)[OF inv] by simp
    show "set (map rf_idx (pc_refs ?c)) = {i. i < length (used_map (pc_inner ?c)) \<and> used_map (pc_inner ?c) ! i}"
      using ctx_invD(1,6)[OF inv] by (auto simp: nth_append less_Suc_eq)
    fix h assume "h < length (pc_refs ?c)"
    then show "rf_ptr (pc_refs ?c ! h) = None \<longleftrightarrow> in_set (pc_inner ?c) ! rf_idx (pc_refs ?c ! h) \<noteq> None"
      using ctx_invD(7)[OF inv, of h] ctx_handle(1)[OF inv, of h] by (auto simp: nth_append less_Suc_eq)
  qed
  moreover have "ref_value ?c k = ref_value c k" if "k < length (pc_refs c)" for k
    using that ctx_handle(1)[OF inv that] by (simp add: ref_value_def nth_append split: option.split)
  ultimately show ?thesis using add by (auto simp: ctx_inv_def nth_append)
next
  case (Some i)
  note free = first_zero_Some[OF Some]
  have i: "i < length (in_set (pc_inner c))" "in_set (pc_inner c) ! i = None"
    using free ctx_invD(1)[OF inv] ctx_invD(4)[OF inv, of i] by (simp, metis)
  let ?c = "c\<lparr>pc_inner := (pc_inner c)\<lparr>in_set := (in_set (pc_inner c))[i := None], used_map := (used_map (pc_inner c))[i := True],
      exist_count := exist_count (pc_inner c) + 1\<rparr>, pc_refs := pc_refs c @ [\<lparr>rf_ptr = Some p, rf_idx = i\<rparr>]\<rparr>"
  have add: "ctx_add p c = Inr ?c" using Some i by (simp add: ctx_add_def add_ptr_def)
  have same: "(in_set (pc_inner c))[i := None] = in_set (pc_inner c)" using i(2) by (metis list_update_id)
  have "count (\<lambda>b. b) ((used_map (pc_inner c))[i := True]) = count (\<lambda>b. b) (used_map (pc_inner c)) + 1"
    using count_update[of i "used_map (pc_inner c)" "\<lambda>b. b" True] free by simp
  then have "inner_inv (pc_inner ?c)"
    using ctx_invD(1-4)[OF inv] i by (auto simp: inner_inv_def same nth_list_update)
  moreover have "refs_inv (pc_inner ?c) (pc_refs ?c)"
    unfolding refs_inv_def
  proof (intro conjI allI impI)
    have "i \<notin> set (map rf_idx (pc_refs c))" unfolding ctx_invD(6)[OF inv] using free by simp
    then show "distinct (map rf_idx (pc_refs ?c))" using ctx_invD(5)[OF inv] by simp
    show "set (map rf_idx (pc_refs ?c)) = {i. i < length (used_map (pc_inner ?c)) \<and> used_map (pc_inner ?c) ! i}"
      using ctx_invD(6)[OF inv] free by (auto simp: nth_list_update)
    fix h assume "h < length (pc_refs ?c)"
    then show "rf_ptr (pc_refs ?c ! h) = None \<longleftrightarrow> in_set (pc_inner ?c) ! rf_idx (pc_refs ?c ! h) \<noteq> None"
      using ctx_invD(7)[OF inv, of h] i(2) by (auto simp: same nth_append less_Suc_eq)
  qed
  moreover have "ref_value ?c k = ref_value c k" if "k < length (pc_refs c)" for k
    using that by (simp add: ref_value_def same nth_append split: option.split)
  ultimately show ?thesis using add by (auto simp: ctx_inv_def nth_append)
qed

lemma ctx_drop_ok:
  assumes inv: "ctx_inv c" and h: "h < length (pc_refs c)"
  shows "\<exists>c'. ctx_drop h c = Inr c' \<and> ctx_inv c' \<and> pc_refs c' = take h (pc_refs c) @ drop (Suc h) (pc_refs c)"
proof -
  let ?r = "pc_refs c ! h" and ?inner = "pc_inner c"
  define xs ys where "xs = take h (pc_refs c)" and "ys = drop (Suc h) (pc_refs c)"
  have refs: "pc_refs c = xs @ ?r # ys" using h by (simp add: xs_def ys_def id_take_nth_drop[symmetric])
  note i = ctx_handle[OF inv h]
  let ?stored = "if rf_ptr ?r = None then stored_count ?inner - 1 else stored_count ?inner"
  let ?inner' = "\<lparr>in_set = (in_set ?inner)[rf_idx ?r := None], used_map = (used_map ?inner)[rf_idx ?r := False],
    stored_count = ?stored, exist_count = exist_count ?inner - 1\<rparr>"
  have used: "count (\<lambda>b. b) ((used_map ?inner)[rf_idx ?r := False]) + 1 = exist_count ?inner"
    using count_update[OF i(2), of "\<lambda>b. b" False] i(3) ctx_invD(2)[OF inv] by simp
  have stored: "count (\<lambda>x. x \<noteq> None) ((in_set ?inner)[rf_idx ?r := None]) + (if rf_ptr ?r = None then 1 else 0) =
      stored_count ?inner"
    using count_update[OF i(1), of "\<lambda>x. x \<noteq> None" None] ctx_invD(3)[OF inv] ctx_invD(7)[OF inv h] by (simp del: not_None_eq)
  have drop: "ctx_drop h c = Inr (c\<lparr>pc_inner := ?inner', pc_refs := xs @ ys\<rparr>)"
    using used stored i by (auto simp: ctx_drop_def root_ref_drop_def xs_def ys_def)
  have "used_map ?inner' ! k" if "k < length (in_set ?inner)" "in_set ?inner' ! k \<noteq> None" for k
    using that i ctx_invD(4)[OF inv that(1)] by (cases "k = rf_idx ?r") simp_all
  then have "inner_inv ?inner'"
    using used stored ctx_invD(1)[OF inv] by (auto simp: inner_inv_def)
  moreover have "refs_inv ?inner' (xs @ ys)"
    unfolding refs_inv_def
  proof (intro conjI allI impI)
    have dist: "distinct (map rf_idx (xs @ ?r # ys))" using ctx_invD(5)[OF inv] refs by simp
    then show "distinct (map rf_idx (xs @ ys))" by simp
    have "set (map rf_idx (xs @ ys)) = set (map rf_idx (pc_refs c)) - {rf_idx ?r}"
      unfolding refs[THEN arg_cong[where f = "map rf_idx"]] using dist by auto
    then show "set (map rf_idx (xs @ ys)) = {i. i < length (used_map ?inner') \<and> used_map ?inner' ! i}"
      unfolding ctx_invD(6)[OF inv] using i(2) by (auto simp: nth_list_update split: if_split_asm)
    fix k assume "k < length (xs @ ys)"
    then have mem: "(xs @ ys) ! k \<in> set xs \<union> set ys" by (metis nth_mem set_append)
    then obtain l where l: "l < length (pc_refs c)" "(xs @ ys) ! k = pc_refs c ! l"
      using refs by (metis Un_iff in_set_conv_nth list.set_intros(2) set_append)
    moreover have "rf_idx ?r \<notin> rf_idx ` (set xs \<union> set ys)" using dist by auto
    then have "rf_idx ((xs @ ys) ! k) \<noteq> rf_idx ?r" using imageI[OF mem, of rf_idx] by auto
    ultimately show "rf_ptr ((xs @ ys) ! k) = None \<longleftrightarrow> in_set ?inner' ! rf_idx ((xs @ ys) ! k) \<noteq> None"
      using ctx_invD(7)[OF inv l(1)] by simp
  qed
  ultimately show ?thesis using drop by (simp add: ctx_inv_def xs_def ys_def)
qed

section \<open>Properties\<close>

lemma ctx_inv_new: "ctx_inv plus_context_new"
  by (simp add: ctx_inv_def inner_inv_def refs_inv_def plus_context_new_def)

text \<open>
  C20: The bookkeeping of root references is consistent. Adding a pointer, storing a loaded handle,
  loading a stored one and dropping any handle never panic and keep the invariant: slots belong to
  distinct handles, a handle is stored exactly when its slot holds a pointer, and the two counters
  are the numbers of handles and of stored handles.
\<close>

theorem root_refs_invariant:
  assumes "ctx_inv c"
  shows "(\<exists>c'. ctx_add p c = Inr c' \<and> ctx_inv c') \<and>
    (\<forall>h < length (pc_refs c).
      (\<exists>c'. (if rf_ptr (pc_refs c ! h) = None then ctx_load h c else ctx_store h c) = Inr c' \<and> ctx_inv c') \<and>
      (\<exists>c'. ctx_drop h c = Inr c' \<and> ctx_inv c'))"
proof (intro conjI allI impI)
  show "\<exists>c'. ctx_add p c = Inr c' \<and> ctx_inv c'" using ctx_add_ok[OF assms] by blast
  fix h assume h: "h < length (pc_refs c)"
  show "\<exists>c'. ctx_drop h c = Inr c' \<and> ctx_inv c'" using ctx_drop_ok[OF assms h] by blast
  show "\<exists>c'. (if rf_ptr (pc_refs c ! h) = None then ctx_load h c else ctx_store h c) = Inr c' \<and> ctx_inv c'"
  proof (cases "rf_ptr (pc_refs c ! h)")
    case None
    then obtain q where "in_set (pc_inner c) ! rf_idx (pc_refs c ! h) = Some q" using ctx_invD(7)[OF assms h] by auto
    with ctx_load_ok[OF assms h None] None show ?thesis by auto
  next
    case (Some q)
    with ctx_store_ok[OF assms h] show ?thesis by auto
  qed
qed

definition two_roots :: plus_context where
  "two_roots = \<lparr>pc_inner = \<lparr>in_set = [None, None], used_map = [True, True], stored_count = 0, exist_count = 2\<rparr>,
     pc_refs = [\<lparr>rf_ptr = Some 64, rf_idx = 0\<rparr>, \<lparr>rf_ptr = Some 128, rf_idx = 1\<rparr>]\<rparr>"

lemma two_roots_added:
  "bind_res (ctx_add 64 plus_context_new) (ctx_add 128) = Inr two_roots"
  by (simp add: ctx_add_def add_ptr_def plus_context_new_def two_roots_def Let_def)

lemma two_roots_inv: "ctx_inv two_roots"
proof -
  obtain c where c: "ctx_add 64 plus_context_new = Inr c" "ctx_inv c" using ctx_add_ok[OF ctx_inv_new] by blast
  with two_roots_added have "ctx_add 128 c = Inr two_roots" by simp
  with ctx_add_ok[OF c(2), of 128] show ?thesis by auto
qed

theorem root_refs_invariant_witness:
  "\<exists>c'. ctx_drop 0 two_roots = Inr c' \<and> ctx_inv c'"
  using root_refs_invariant[OF two_roots_inv] by (simp add: two_roots_def)

text \<open>A safepoint over all handles.\<close>

lemma safepoint_all_handles:
  assumes inv: "ctx_inv c" and loaded: "\<forall>h < length (pc_refs c). rf_ptr (pc_refs c ! h) \<noteq> None"
    and hs: "distinct hs" "set hs = {..<length (pc_refs c)}"
    and visitor: "\<forall>h < length (pc_refs c). \<forall>p. rf_ptr (pc_refs c ! h) = Some p \<longrightarrow> visitor p = Inr (f p)"
  shows "\<exists>c'. plus_safepoint hs (inner_map_pointers visitor) c = Inr c' \<and> ctx_inv c' \<and>
    length (pc_refs c') = length (pc_refs c) \<and>
    (\<forall>h < length (pc_refs c). rf_ptr (pc_refs c' ! h) = map_option f (rf_ptr (pc_refs c ! h)))"
proof -
  have val: "ref_value c h = rf_ptr (pc_refs c ! h)" if "h < length (pc_refs c)" for h
    using loaded that by (auto simp: ref_value_def)
  obtain c1 where c1: "before_safepoint hs c = Inr c1" "ctx_inv c1" "same_handles c c1"
    "\<forall>k < length (pc_refs c). ref_value c1 k = ref_value c k \<and> rf_ptr (pc_refs c1 ! k) = None"
    using store_all[OF inv hs(1)] loaded hs(2) by auto
  note len = same_handles_length[OF c1(3)]
  have "visitor p = Inr (f p)" if "h < length (pc_refs c1)" "ref_value c1 h = Some p" for h p
    using that visitor c1(4) val len by simp
  note moved = context_safepoint_moves[OF c1(2) _ this]
  have stored: "\<forall>h < length (pc_refs c1). rf_ptr (pc_refs c1 ! h) = None" using c1(4) len by simp
  have moved_val: "ref_value (moved_ctx f c1) h = map_option f (ref_value c1 h)" if "h < length (pc_refs c)" for h
    using moved(2)[OF stored] that len by simp
  let ?c2 = "moved_ctx f c1"
  have refs2: "pc_refs ?c2 = pc_refs c1" by (simp add: moved_ctx_def)
  have "\<forall>h \<in> set hs. h < length (pc_refs ?c2) \<and> rf_ptr (pc_refs ?c2 ! h) = None"
    using hs(2) stored len by (simp add: refs2)
  from load_all[OF moved_ctx_inv(1)[OF c1(2)] hs(1) this] obtain c' where
    c': "after_safepoint hs ?c2 = Inr c'" "ctx_inv c'" "same_handles ?c2 c'"
      "\<forall>k < length (pc_refs c). rf_ptr (pc_refs c' ! k) = ref_value ?c2 k"
    using hs(2) by (auto simp: refs2 len)
  have "length (pc_refs c') = length (pc_refs c)" using same_handles_length[OF c'(3)] by (simp add: refs2 len)
  moreover have "\<forall>h < length (pc_refs c). rf_ptr (pc_refs c' ! h) = map_option f (rf_ptr (pc_refs c ! h))"
    using c'(4) moved_val c1(4) val by simp
  ultimately show ?thesis using c1(1) moved(1)[OF stored] c'(1,2) by (simp add: plus_safepoint_def)
qed

text \<open>
  A safepoint over all handles brings every one of them up to date. With every live handle loaded
  and listed once, in any order, the free function \<open>safepoint\<close> does not panic, the collector sees
  exactly the pointers the handles held, and afterwards each handle holds what the collector's
  visitor made of its pointer.
\<close>

theorem safepoint_updates_roots:
  assumes inv: "ctx_inv c" and loaded: "\<forall>h < length (pc_refs c). rf_ptr (pc_refs c ! h) \<noteq> None"
    and hs: "distinct hs" "set hs = {..<length (pc_refs c)}"
    and visitor: "\<forall>h < length (pc_refs c). \<forall>p. rf_ptr (pc_refs c ! h) = Some p \<longrightarrow> visitor p = Inr (f p)"
  shows "\<exists>c'. plus_safepoint hs (inner_map_pointers visitor) c = Inr c' \<and> ctx_inv c' \<and>
    length (pc_refs c') = length (pc_refs c) \<and>
    (\<forall>h < length (pc_refs c). rf_ptr (pc_refs c' ! h) = map_option f (rf_ptr (pc_refs c ! h)))"
  using assms by (rule safepoint_all_handles)

theorem safepoint_updates_roots_witness:
  "\<exists>c'. plus_safepoint [1, 0] (inner_map_pointers (\<lambda>p. Inr (p + 1000))) two_roots = Inr c' \<and>
     rf_ptr (pc_refs c' ! 0) = Some 1064 \<and> rf_ptr (pc_refs c' ! 1) = Some 1128"
proof -
  have "set [1, 0] = {..<length (pc_refs two_roots)}" by (auto simp: two_roots_def)
  from safepoint_updates_roots[OF two_roots_inv _ _ this, of "\<lambda>p. Inr (p + 1000)" "\<lambda>p. p + 1000"]
  obtain c' where "plus_safepoint [1, 0] (inner_map_pointers (\<lambda>p. Inr (p + 1000))) two_roots = Inr c'"
    "\<forall>h < 2. rf_ptr (pc_refs c' ! h) = map_option (\<lambda>p. p + 1000) (rf_ptr (pc_refs two_roots ! h))"
    by (auto simp: two_roots_def less_Suc_eq numeral_2_eq_2)
  moreover from this(2) have "rf_ptr (pc_refs c' ! 0) = Some 1064" "rf_ptr (pc_refs c' ! 1) = Some 1128"
    by (simp_all add: two_roots_def)
  ultimately show ?thesis by blast
qed

lemma forgotten_root:
  assumes "ctx_inv c" "distinct hs" "\<forall>h \<in> set hs. h < length (pc_refs c) \<and> rf_ptr (pc_refs c ! h) \<noteq> None"
    and "h < length (pc_refs c)" "h \<notin> set hs" "rf_ptr (pc_refs c ! h) \<noteq> None"
  shows "plus_safepoint hs gc c = Inl Assert_Failed \<and> plus_alloc hs gc None slow c = Inl Assert_Failed"
proof -
  obtain c1 where c1: "before_safepoint hs c = Inr c1" "ctx_inv c1" "same_handles c c1"
    "rf_ptr (pc_refs c1 ! h) \<noteq> None"
    using store_all[OF assms(1-3)] assms(4-6) by auto
  have "stored_count (pc_inner c1) \<noteq> exist_count (pc_inner c1)"
    using all_stored_iff[OF c1(2)] c1(4) assms(4) same_handles_length[OF c1(3)] by auto
  then show ?thesis using c1(1)
    by (simp add: plus_safepoint_def plus_alloc_def context_safepoint_def context_alloc_slow_def)
qed

text \<open>
  A forgotten handle is noticed. When some live handle is neither stored nor in the list, the
  assertion of \<open>Context::safepoint\<close> and that of \<open>alloc_slow\<close> panic, before the collector can run.
\<close>

theorem forgotten_root_panics:
  assumes "ctx_inv c" "distinct hs" "\<forall>h \<in> set hs. h < length (pc_refs c) \<and> rf_ptr (pc_refs c ! h) \<noteq> None"
    and "h < length (pc_refs c)" "h \<notin> set hs" "rf_ptr (pc_refs c ! h) \<noteq> None"
  shows "plus_safepoint hs gc c = Inl Assert_Failed \<and> plus_alloc hs gc None slow c = Inl Assert_Failed"
  using assms by (rule forgotten_root)

theorem forgotten_root_panics_witness:
  "plus_safepoint [1] Inr two_roots = Inl Assert_Failed"
  using forgotten_root_panics[OF two_roots_inv, of "[1]" 0 Inr None] by (simp add: two_roots_def)

end
