(* ===== verification/Typed_Memory.thy ===== *)
theory Typed_Memory
  imports Root_Refs Types
begin

text \<open>
  \<open>uwugc-plus/src/gcbox.rs\<close>, \<open>array.rs\<close>, \<open>typed_root_ref.rs\<close> and the initialising part of \<open>alloc\<close> and
  \<open>alloc_array\<close> in \<open>lib.rs\<close>: how typed references, pointer fields and arrays are read and written in
  the memory of objects. A pointer field is the cell of an \<open>AtomicPtr\<close>; it holds the pointer to the
  header, 0 for null. A value of a type is the list of its 8-byte cells. Shown are that a pointer a
  mutator stores is the one the collector visits and forwards (\<open>gc_box_follows_collector\<close>), and that
  an array is initialised inside its allocation and reads back (\<open>array_reads_back\<close>).
\<close>

section \<open>Typed root references\<close>

text \<open>\<open>RootRef<T>\<close> adds the metadata of \<open>*mut T\<close>: \<open>()\<close>, the length of a slice, or a vtable.\<close>

record 'm typed_ref =
  tr_raw :: root_ref
  tr_metadata :: 'm

definition typed_from_raw :: "root_ref \<Rightarrow> 'm \<Rightarrow> 'm typed_ref" where
  "typed_from_raw raw metadata = \<lparr>tr_raw = raw, tr_metadata = metadata\<rparr>"

definition typed_into_raw :: "'m typed_ref \<Rightarrow> root_ref" where
  "typed_into_raw this = tr_raw this"

definition typed_as_raw :: "'m typed_ref \<Rightarrow> root_ref" where
  "typed_as_raw this = tr_raw this"

definition typed_store :: "'m typed_ref \<Rightarrow> inner \<Rightarrow> ('m typed_ref \<times> inner) res" where
  "typed_store this inner =
     bind_res (root_ref_store (tr_raw this) inner) (\<lambda>(raw, inner). Inr (this\<lparr>tr_raw := raw\<rparr>, inner))"

definition typed_load :: "'m typed_ref \<Rightarrow> inner \<Rightarrow> ('m typed_ref \<times> inner) res" where
  "typed_load this inner =
     bind_res (root_ref_load (tr_raw this) inner) (\<lambda>(raw, inner). Inr (this\<lparr>tr_raw := raw\<rparr>, inner))"

text \<open>\<open>RootRef::get_ptr\<close>: a pointer is an address with metadata.\<close>

definition typed_get_ptr :: "'m typed_ref \<Rightarrow> (nat \<times> 'm) res" where
  "typed_get_ptr this = bind_res (get_ptr (tr_raw this)) (\<lambda>p. Inr (object_data p, tr_metadata this))"

text \<open>\<open>coerce\<close>, where \<open>unsize\<close> is what the coercion to \<open>U\<close> does to the metadata.\<close>

definition typed_coerce :: "('m \<Rightarrow> 'u) \<Rightarrow> 'm typed_ref \<Rightarrow> 'u typed_ref res" where
  "typed_coerce unsize this =
     bind_res (typed_get_ptr this) (\<lambda>(_, metadata). Inr \<lparr>tr_raw = tr_raw this, tr_metadata = unsize metadata\<rparr>)"

text \<open>\<open>RootRef<[T]>::as_array<N>\<close>: \<open>Err\<close> with the reference when the length is another.\<close>

definition typed_as_array :: "nat \<Rightarrow> nat typed_ref \<Rightarrow> (nat typed_ref + unit typed_ref) res" where
  "typed_as_array N reference =
     bind_res (typed_get_ptr reference) (\<lambda>(_, len).
       Inr (if len = N then Inr \<lparr>tr_raw = tr_raw reference, tr_metadata = ()\<rparr> else Inl reference))"

text \<open>\<open>Deref\<close> for a sized type and for a slice: the address, and the address with the length.\<close>

definition typed_deref :: "'m typed_ref \<Rightarrow> nat res" where
  "typed_deref this = bind_res (get_ptr (tr_raw this)) (\<lambda>p. Inr (object_data p))"

definition slice_deref :: "nat typed_ref \<Rightarrow> (nat \<times> nat) res" where
  "slice_deref this = typed_get_ptr this"

text \<open>Storing and loading keep the pointer and the metadata, and give the root set back.\<close>

lemma typed_store_load:
  assumes "typed_store r inner = Inr (r', inner')"
  shows "typed_load r' inner' = Inr (r, inner)"
  using assms
proof -
  obtain p where p: "rf_ptr (tr_raw r) = Some p" "rf_idx (tr_raw r) < length (in_set inner)"
    "in_set inner ! rf_idx (tr_raw r) = None" "r' = r\<lparr>tr_raw := (tr_raw r)\<lparr>rf_ptr := None\<rparr>\<rparr>"
    "inner' = inner\<lparr>stored_count := stored_count inner + 1, in_set := (in_set inner)[rf_idx (tr_raw r) := Some p]\<rparr>"
    using assms by (auto simp: typed_store_def root_ref_store_def index_def res_eq_simps Let_def split: if_splits)
  moreover have "(in_set inner)[rf_idx (tr_raw r) := None] = in_set inner"
    using p(3) by (metis list_update_id)
  ultimately show ?thesis
    by (cases r; cases "tr_raw r"; cases inner) (simp add: typed_load_def root_ref_load_def Let_def)
qed

section \<open>Pointer fields\<close>

definition gc_box_option_none :: "64 word" where
  "gc_box_option_none = 0"

definition gc_box_option_get_ptr :: "memory \<Rightarrow> nat \<Rightarrow> nat option" where
  "gc_box_option_get_ptr m a =
     (let loaded = m a in if loaded = 0 then None else Some (object_data (unat loaded)))"

text \<open>The reference that is put into a box gives its pointer and is dropped.\<close>

definition root_ref_into_ptr :: "nat \<Rightarrow> plus_context \<Rightarrow> (64 word \<times> plus_context) res" where
  "root_ref_into_ptr h c =
     bind_res (get_ptr (pc_refs c ! h)) (\<lambda>p. bind_res (ctx_drop h c) (\<lambda>c. Inr (word_of_nat p, c)))"

definition gc_box_option_new :: "nat option \<Rightarrow> plus_context \<Rightarrow> (64 word \<times> plus_context) res" where
  "gc_box_option_new init c =
     (case init of None \<Rightarrow> Inr (0, c) | Some h \<Rightarrow> root_ref_into_ptr h c)"

definition gc_box_option_store ::
    "memory \<Rightarrow> nat \<Rightarrow> nat option \<Rightarrow> plus_context \<Rightarrow> (memory \<times> plus_context) res" where
  "gc_box_option_store m a reference c =
     bind_res (case reference of None \<Rightarrow> Inr (0, c) | Some h \<Rightarrow> root_ref_into_ptr h c)
       (\<lambda>(ptr, c). Inr (m(a := ptr), c))"

definition gc_box_new :: "nat \<Rightarrow> plus_context \<Rightarrow> (64 word \<times> plus_context) res" where
  "gc_box_new init c = gc_box_option_new (Some init) c"

definition gc_box_get_ptr :: "memory \<Rightarrow> nat \<Rightarrow> nat res" where
  "gc_box_get_ptr m a = unwrap (gc_box_option_get_ptr m a)"

text \<open>\<open>get_ref\<close> and \<open>get_mut\<close>: the reference is the address of the data.\<close>

definition gc_box_option_get_ref :: "memory \<Rightarrow> nat \<Rightarrow> nat option" where
  "gc_box_option_get_ref m a = gc_box_option_get_ptr m a"

definition gc_box_option_get_mut :: "memory \<Rightarrow> nat \<Rightarrow> nat option" where
  "gc_box_option_get_mut m a = gc_box_option_get_ptr m a"

definition gc_box_get_ref :: "memory \<Rightarrow> nat \<Rightarrow> nat res" where
  "gc_box_get_ref m a = unwrap (gc_box_option_get_ref m a)"

definition gc_box_get_mut :: "memory \<Rightarrow> nat \<Rightarrow> nat res" where
  "gc_box_get_mut m a = unwrap (gc_box_option_get_mut m a)"

definition gc_box_store :: "memory \<Rightarrow> nat \<Rightarrow> nat \<Rightarrow> plus_context \<Rightarrow> (memory \<times> plus_context) res" where
  "gc_box_store m a reference c = gc_box_option_store m a (Some reference) c"

section \<open>Values and arrays\<close>

fun write_value :: "memory \<Rightarrow> nat \<Rightarrow> 64 word list \<Rightarrow> memory" where
  "write_value m a [] = m"
| "write_value m a (v # vs) = write_value (m(a := v)) (a + 8) vs"

definition read_value :: "memory \<Rightarrow> nat \<Rightarrow> nat \<Rightarrow> 64 word list" where
  "read_value m a n = map (\<lambda>i. m (a + 8 * i)) [0..<n]"

text \<open>The last part of \<open>alloc\<close>: \<open>init\<close> is written where the data of the object begins.\<close>

definition alloc_init :: "64 word list \<Rightarrow> memory \<Rightarrow> object_ptr \<Rightarrow> memory" where
  "alloc_init init m obj = write_value m (object_data obj) init"

text \<open>\<open>get_uninit_slice_mut\<close> and \<open>Deref for Array<T>\<close>: the addresses of the elements.\<close>

definition array_slice :: "nat \<Rightarrow> memory \<Rightarrow> object_ptr \<Rightarrow> nat list" where
  "array_slice elem_size m obj =
     map (\<lambda>i. object_data obj + ARRAY_HEADER_SIZE + i * elem_size) [0..<array_len m obj]"

fun init_elements :: "memory \<Rightarrow> nat list \<Rightarrow> 64 word list list \<Rightarrow> memory" where
  "init_elements m (x # xs) (v # vs) = init_elements (write_value m x v) xs vs"
| "init_elements m _ _ = m"

text \<open>
  The last part of \<open>alloc_array\<close>: the header, then the elements in order. \<open>vs\<close> are the values that
  \<open>init\<close> returns.
\<close>

definition alloc_array_init :: "nat \<Rightarrow> nat \<Rightarrow> 64 word list list \<Rightarrow> memory \<Rightarrow> object_ptr \<Rightarrow> memory" where
  "alloc_array_init elem_size len vs m obj =
     (let m = m(object_data obj := word_of_nat len) in
      init_elements m (array_slice elem_size m obj) vs)"

lemma write_value_outside: "x < a \<or> a + 8 * length vs \<le> x \<Longrightarrow> write_value m a vs x = m x"
  by (induction m a vs rule: write_value.induct) auto

lemma read_value_Suc: "read_value m a (Suc n) = m a # read_value m (a + 8) n"
  by (simp add: read_value_def upt_conv_Cons map_Suc_upt[symmetric] add.assoc del: upt_Suc)

lemma read_write_value: "read_value (write_value m a vs) a (length vs) = vs"
proof (induction m a vs rule: write_value.induct)
  case (2 m a v vs)
  then show ?case by (simp add: read_value_Suc write_value_outside fun_upd_def)
qed (simp add: read_value_def)

lemma read_value_cong: "(\<And>x. a \<le> x \<Longrightarrow> x < a + 8 * n \<Longrightarrow> m' x = m x) \<Longrightarrow> read_value m' a n = read_value m a n"
  by (simp add: read_value_def)

lemma init_elements_outside:
  assumes "\<forall>v \<in> set vs. length v = k" "\<forall>s \<in> set xs. x < s \<or> s + 8 * k \<le> x"
  shows "init_elements m xs vs x = m x"
  using assms by (induction m xs vs rule: init_elements.induct) (auto simp: write_value_outside)

text \<open>Slots that follow one another.\<close>

lemma init_elements_read:
  assumes "\<forall>v \<in> set vs. length v = k" "i < length vs"
  shows "read_value (init_elements m (map (\<lambda>i. b + i * (8 * k)) [j..<j + length vs]) vs) (b + (j + i) * (8 * k)) k = vs ! i"
  using assms
proof (induction vs arbitrary: m j i)
  case (Cons v vs)
  let ?xs = "map (\<lambda>i. b + i * (8 * k)) [Suc j..<Suc j + length vs]"
  let ?m = "write_value m (b + j * (8 * k)) v"
  have len: "length v = k" using Cons.prems(1) by simp
  have unfolded: "init_elements m (map (\<lambda>i. b + i * (8 * k)) [j..<j + length (v # vs)]) (v # vs) = init_elements ?m ?xs vs"
    by (simp add: upt_conv_Cons del: upt_Suc)
  show ?case
  proof (cases i)
    case 0
    have "init_elements ?m ?xs vs x = ?m x" if "x < b + j * (8 * k) + 8 * k" for x
    proof (rule init_elements_outside[where k = k])
      have "x < b + i * (8 * k)" if "Suc j \<le> i" for i
        using mult_le_mono1[OF that, of "8 * k"] \<open>x < b + j * (8 * k) + 8 * k\<close> by simp
      then show "\<forall>s \<in> set ?xs. x < s \<or> s + 8 * k \<le> x" by auto
    qed (use Cons.prems(1) in simp)
    then have "read_value (init_elements ?m ?xs vs) (b + j * (8 * k)) k = read_value ?m (b + j * (8 * k)) k"
      by (intro read_value_cong) simp
    then show ?thesis using read_write_value[of m "b + j * (8 * k)" v] len 0 unfolded by simp
  next
    case (Suc i')
    with Cons.IH[of i' ?m "Suc j"] Cons.prems show ?thesis unfolding unfolded by simp
  qed
qed simp

text \<open>The layout of an array that has been initialised.\<close>

lemma array_layout:
  assumes "length vs = len" "len < 2 ^ 64" "\<forall>v \<in> set vs. length v = k"
  shows "let m' = alloc_array_init (8 * k) len vs m obj in
    array_len m' obj = len \<and> length (array_slice (8 * k) m' obj) = len \<and>
    (\<forall>i < len. read_value m' (array_slice (8 * k) m' obj ! i) k = vs ! i \<and>
       block (array_slice (8 * k) m' obj ! i) (8 * k) \<subseteq> block obj (METADATA_SIZE + ARRAY_HEADER_SIZE + len * (8 * k))) \<and>
    (\<forall>x. x \<notin> block (object_data obj) (ARRAY_HEADER_SIZE + len * (8 * k)) \<longrightarrow> m' x = m x)"
proof -
  define m' where "m' = alloc_array_init (8 * k) len vs m obj"
  define b where "b = object_data obj + ARRAY_HEADER_SIZE"
  let ?m = "m(object_data obj := word_of_nat len)"
  let ?xs = "map (\<lambda>i. b + i * (8 * k)) [0..<len]"
  have "array_slice (8 * k) ?m obj = ?xs"
    using assms(2) by (simp add: array_slice_def array_len_def b_def unsigned_of_nat take_bit_nat_eq_self)
  then have m': "m' = init_elements ?m ?xs vs" by (simp add: m'_def alloc_array_init_def)
  have slot: "b + i * (8 * k) + 8 * k \<le> b + len * (8 * k)" if "i < len" for i
    using mult_le_mono1[of "Suc i" len "8 * k"] that by simp
  have outside: "m' x = ?m x" if "x < b \<or> b + len * (8 * k) \<le> x" for x
    unfolding m' by (rule init_elements_outside[OF assms(3)]) (use that slot in fastforce)
  have len: "array_len m' obj = len"
    using outside[of "object_data obj"] assms(2) by (simp add: array_len_def b_def ARRAY_HEADER_SIZE_def unsigned_of_nat take_bit_nat_eq_self)
  then have slice: "array_slice (8 * k) m' obj = ?xs" by (simp add: array_slice_def b_def)
  have "read_value m' (?xs ! i) k = vs ! i" if "i < len" for i
    using init_elements_read[OF assms(3), of i ?m b 0] that assms(1) m' by simp
  moreover have "block (?xs ! i) (8 * k) \<subseteq> block obj (METADATA_SIZE + ARRAY_HEADER_SIZE + len * (8 * k))"
    if "i < len" for i
    using slot[OF that] that by (auto simp: b_def object_data_def)
  moreover have "m' x = m x" if "x \<notin> block (object_data obj) (ARRAY_HEADER_SIZE + len * (8 * k))" for x
    using outside[of x] that by (auto simp: b_def ARRAY_HEADER_SIZE_def)
  ultimately show ?thesis unfolding m'_def[symmetric] Let_def slice using len by simp
qed

section \<open>Properties\<close>

text \<open>
  C23: A pointer field belongs to mutator and collector alike. When a loaded root reference is stored
  into a \<open>GCBox\<close>, the reference is gone from the root set, whose invariant holds; the collector
  visiting the field sees exactly that object; reading the box gives the object's data; and after
  the collector has updated the field, reading it gives the data of the new copy.
\<close>

theorem gc_box_follows_collector:
  assumes "ctx_inv c" "h < length (pc_refs c)" "rf_ptr (pc_refs c ! h) = Some p"
    and "8 dvd a" "0 < p" "p < 2 ^ 64" "updater p = Inr q" "0 < q" "q < 2 ^ 64"
  shows "\<exists>m' c' m''. gc_box_store m a h c = Inr (m', c') \<and> ctx_inv c' \<and>
    pc_refs c' = take h (pc_refs c) @ drop (Suc h) (pc_refs c) \<and>
    visit_fields m' [a] = Inr [p] \<and> gc_box_get_ptr m' a = Inr (object_data p) \<and>
    update_fields m' [a] updater = Inr m'' \<and> gc_box_get_ptr m'' a = Inr (object_data q)"
proof -
  obtain c' where "ctx_drop h c = Inr c'" "ctx_inv c'" "pc_refs c' = take h (pc_refs c) @ drop (Suc h) (pc_refs c)"
    using ctx_drop_ok[OF assms(1,2)] by blast
  moreover have "(word_of_nat p :: 64 word) \<noteq> 0" "(word_of_nat q :: 64 word) \<noteq> 0"
    "unat (word_of_nat p :: 64 word) = p" "unat (word_of_nat q :: 64 word) = q"
    using assms by (auto simp: word_of_nat_eq_0_iff unsigned_of_nat take_bit_nat_eq_self dest: nat_dvd_not_less)
  ultimately show ?thesis
    using assms by (simp add: gc_box_store_def gc_box_option_store_def root_ref_into_ptr_def get_ptr_def
        load_pointer_def gc_box_get_ptr_def gc_box_option_get_ptr_def Let_def)
qed

theorem gc_box_follows_collector_witness:
  "\<exists>m' c'. gc_box_store (\<lambda>_. 0) 4096 1 two_roots = Inr (m', c') \<and> visit_fields m' [4096] = Inr [128] \<and>
     length (pc_refs c') = 1"
  using gc_box_follows_collector[OF two_roots_inv, of 1 128 4096 "\<lambda>p. Inr (p + 1000)" 1128 "\<lambda>_. 0"]
  by (fastforce simp: two_roots_def)

text \<open>
  C25: An array is laid out inside its allocation and reads back. After \<open>alloc_array\<close> has initialised
  an object with \<open>len\<close> elements of \<open>8 * k\<close> bytes, the length reads as \<open>len\<close>, the slice has one address
  per element, each element reads as the value \<open>init\<close> returned for it, every slot lies within the
  \<open>16 + 8 + len * 8 * k\<close> bytes that were allocated, and nothing outside the data was written.
\<close>

theorem array_reads_back:
  assumes "length vs = len" "len < 2 ^ 64" "\<forall>v \<in> set vs. length v = k"
  shows "let m' = alloc_array_init (8 * k) len vs m obj in
    array_len m' obj = len \<and> length (array_slice (8 * k) m' obj) = len \<and>
    (\<forall>i < len. read_value m' (array_slice (8 * k) m' obj ! i) k = vs ! i \<and>
       block (array_slice (8 * k) m' obj ! i) (8 * k) \<subseteq> block obj (METADATA_SIZE + ARRAY_HEADER_SIZE + len * (8 * k))) \<and>
    (\<forall>x. x \<notin> block (object_data obj) (ARRAY_HEADER_SIZE + len * (8 * k)) \<longrightarrow> m' x = m x)"
  using assms by (rule array_layout)

theorem array_reads_back_witness:
  "read_value (alloc_array_init 16 2 [[1, 2], [3, 4]] (\<lambda>_. 0) 64) 104 2 = [3, 4]"
proof -
  let ?m = "alloc_array_init 16 2 [[1, 2], [3, 4]] (\<lambda>_. 0) 64"
  have facts: "array_len ?m 64 = 2" "\<forall>i < 2. read_value ?m (array_slice 16 ?m 64 ! i) 2 = [[1, 2], [3, 4]] ! i"
    using array_reads_back[of "[[1, 2], [3, 4]]" 2 2 "\<lambda>_. 0" 64]
    by (auto simp: Let_def)
  from facts(1) have "array_slice 16 ?m 64 ! 1 = 104"
    by (simp add: array_slice_def object_data_def METADATA_SIZE_def ARRAY_HEADER_SIZE_def)
  with facts(2)[rule_format, of 1] show ?thesis by simp
qed

end
