(* ===== verification/Plus_Alloc.thy ===== *)
theory Plus_Alloc
  imports Mutator Typed_Memory
begin

text \<open>
  \<open>alloc\<close> of \<open>uwugc-plus/src/lib.rs\<close> run on a heap: the allocator and the collector of \<open>Shared_State\<close>
  and \<open>GC_Cycle\<close> below the root references of \<open>Root_Refs\<close>. The \<open>Inner\<close> of a thread's context is its
  root set in the collector; here it lies in the \<open>plus_context\<close>, and \<open>publish\<close> and \<open>fetch\<close> say
  what the collector sees of it and what it leaves there. \<open>plus_inv\<close> is what a thread with loaded
  handles keeps true of heap and handles; the theorem shows that allocation keeps it, on the fast
  path and over a collection.
\<close>

section \<open>The root set of a thread\<close>

definition publish :: "nat \<Rightarrow> plus_context \<Rightarrow> 'tm world \<Rightarrow> 'tm world" where
  "publish thread c w = set_roots thread (inner_iter_pointers (pc_inner c)) w"

fun refill :: "object_ptr list \<Rightarrow> object_ptr option list \<Rightarrow> object_ptr option list" where
  "refill ps [] = []"
| "refill ps (None # xs) = None # refill ps xs"
| "refill (p # ps) (Some _ # xs) = Some p # refill ps xs"
| "refill [] (Some x # xs) = Some x # refill [] xs"

definition fetch :: "nat \<Rightarrow> 'tm world \<Rightarrow> plus_context \<Rightarrow> plus_context" where
  "fetch thread w c = c\<lparr>pc_inner := (pc_inner c)\<lparr>in_set := refill (roots_in thread w) (in_set (pc_inner c))\<rparr>\<rparr>"

text \<open>Filling the slots with the images of their pointers is what \<open>map_pointers\<close> does.\<close>

lemma refill_map:
  "refill (map f (concat (map (\<lambda>x. case x of None \<Rightarrow> [] | Some p \<Rightarrow> [p]) cells))) cells = map (map_option f) cells"
  by (induction cells) (auto split: option.split)

lemma fetch_moved:
  "roots_in thread w = map f (inner_iter_pointers (pc_inner c)) \<Longrightarrow> fetch thread w c = moved_ctx f c"
  by (simp add: fetch_def moved_ctx_def inner_iter_pointers_def refill_map)

section \<open>Allocation\<close>

text \<open>
  What \<open>alloc\<close> and \<open>alloc_array\<close> share: allocation with the handles \<open>hs\<close> of the safepoint. \<open>put\<close>
  initialises the new object; it may read the handles of the context it is called in. The result is
  the new object.
\<close>

definition heap_alloc_with ::
    "bool \<Rightarrow> static_memory \<Rightarrow> (types_state world \<Rightarrow> types_state world res) \<Rightarrow> nat \<Rightarrow> nat list \<Rightarrow> 64 word \<Rightarrow> nat
     \<Rightarrow> (plus_context \<Rightarrow> memory \<Rightarrow> object_ptr \<Rightarrow> memory) \<Rightarrow> types_state world \<Rightarrow> plus_context
     \<Rightarrow> (types_state world \<times> plus_context \<times> object_ptr option) res" where
  "heap_alloc_with checks statics cycle thread hs ty extra_bytes put w c =
     bind_res (alloc_fast checks (types_ops statics) thread (Typed ty) extra_bytes w) (\<lambda>(w, fast).
     bind_res
       (case fast of
          Some ptr \<Rightarrow> bind_res (ctx_add ptr c) (\<lambda>c. Inr (w, c, Some ptr))
        | None \<Rightarrow>
            bind_res (before_safepoint hs c) (\<lambda>c.
            assert_then (stored_count (pc_inner c) = exist_count (pc_inner c))
              (bind_res (alloc_slow checks (types_ops statics) cycle thread (Typed ty) extra_bytes (publish thread c w))
                (\<lambda>(w, slow).
                  let c = fetch thread w c in
                  bind_res (case slow of None \<Rightarrow> Inr c | Some ptr \<Rightarrow> ctx_add ptr c) (\<lambda>c.
                  bind_res (after_safepoint hs c) (\<lambda>c. Inr (w, c, slow)))))))
       (\<lambda>(w, c, ret).
         case ret of
           None \<Rightarrow> Inr (w, c, None)
         | Some ptr \<Rightarrow> Inr (w\<lparr>w_memory := put c (w_memory w) ptr\<rparr>, c, Some ptr)))"

text \<open>
  \<open>alloc\<close>, where \<open>init\<close> returns the cells of the value, and \<open>alloc_array\<close>, where it returns those of
  the elements in order. \<open>descriptor\<close> is the address of the descriptor of the type.
\<close>

definition heap_alloc ::
    "bool \<Rightarrow> static_memory \<Rightarrow> (types_state world \<Rightarrow> types_state world res) \<Rightarrow> nat \<Rightarrow> nat list \<Rightarrow> 64 word \<Rightarrow> nat
     \<Rightarrow> (plus_context \<Rightarrow> 64 word list) \<Rightarrow> types_state world \<Rightarrow> plus_context
     \<Rightarrow> (types_state world \<times> plus_context \<times> object_ptr option) res" where
  "heap_alloc checks statics cycle thread hs descriptor extra_bytes init w c =
     bind_res (type_id_from_static descriptor) (\<lambda>ty.
       heap_alloc_with checks statics cycle thread hs ty extra_bytes (\<lambda>c. alloc_init (init c)) w c)"

definition heap_alloc_array ::
    "bool \<Rightarrow> static_memory \<Rightarrow> (types_state world \<Rightarrow> types_state world res) \<Rightarrow> nat \<Rightarrow> nat list \<Rightarrow> 64 word \<Rightarrow> nat
     \<Rightarrow> (plus_context \<Rightarrow> 64 word list list) \<Rightarrow> nat \<Rightarrow> nat \<Rightarrow> types_state world \<Rightarrow> plus_context
     \<Rightarrow> (types_state world \<times> plus_context \<times> object_ptr option) res" where
  "heap_alloc_array checks statics cycle thread hs descriptor extra_bytes init len elem_size w c =
     bind_res (usize_in checks (elem_size * len)) (\<lambda>data_bytes.
     bind_res (type_id_from_static descriptor) (\<lambda>ty.
     bind_res (usize_in checks (data_bytes + extra_bytes)) (\<lambda>bytes.
       heap_alloc_with checks statics cycle thread hs ty bytes (\<lambda>c. alloc_array_init elem_size len (init c)) w c)))"

section \<open>Root sets of worlds\<close>

lemma set_roots_twice [simp]: "set_roots thread a (set_roots thread b w) = set_roots thread a w"
  by (cases "map_of (ss_contexts (w_shared w)) thread")
    (simp_all add: set_roots_def Let_def update_conv')

lemma set_roots_memory: "set_roots thread a (w\<lparr>w_memory := m\<rparr>) = (set_roots thread a w)\<lparr>w_memory := m\<rparr>"
  by (simp add: set_roots_def Let_def split: option.split)

lemma roots_in_set_roots:
  "map_of (ss_contexts (w_shared w)) thread = Some cs \<Longrightarrow> roots_in thread (set_roots thread a w) = a"
  by (simp add: roots_in_def set_roots_def Let_def update_conv')

lemma set_roots_context:
  "map_of (ss_contexts (w_shared w)) thread = Some cs \<Longrightarrow>
   map_of (ss_contexts (w_shared (set_roots thread a w))) thread = Some (cs\<lparr>cs_root_set := a\<rparr>)"
  by (simp add: set_roots_def Let_def update_conv')

lemma set_roots_types [simp]: "ss_type_manager (w_shared (set_roots thread a w)) = ss_type_manager (w_shared w)"
  by (simp add: set_roots_def Let_def split: option.split)

text \<open>The allocator does not look at root sets.\<close>

lemma alloc_fast_set_roots:
  "alloc_fast checks ops thread ty extra (set_roots thread a w) =
   bind_res (alloc_fast checks ops thread ty extra w) (\<lambda>(w, ret). Inr (set_roots thread a w, ret))"
proof (cases "map_of (ss_contexts (w_shared w)) thread")
  case None
  then show ?thesis by (simp add: alloc_fast_def set_roots_def Let_def)
next
  case (Some cs)
  then show ?thesis
    by (cases w; cases "w_shared w"; cases cs)
      (auto simp: alloc_fast_def set_roots_def Let_def update_conv' bind_res_def init_object_def
        split: sum.splits option.splits prod.splits)
qed

text \<open>Overflow checks do not matter to a request whose size fits.\<close>

lemma alloc_fast_fits:
  assumes "get_size_of_alloc True ops (ss_type_manager (w_shared w)) ty = Inr sz" "sz + extra < 2 ^ 64"
  shows "alloc_fast checks ops thread ty extra w = alloc_fast checks' ops thread ty extra w"
  using alloc_size_in[OF assms(1)] assms(2) by (simp add: alloc_fast_def)

lemma set_roots_live_mono:
  assumes "set a \<subseteq> live_objects statics w"
  shows "live_objects statics (set_roots thread a w) \<subseteq> live_objects statics w"
proof (rule live_closed)
  show "set (concat (roots_of (set_roots thread a w))) \<subseteq> live_objects statics w"
    using set_roots_roots[of thread a w] roots_live[of w statics] assms by blast
qed (simp add: pointers_live)

lemma set_roots_live_sub:
  assumes "map_of (ss_contexts (w_shared w)) thread = Some cs" "set a \<subseteq> set b"
  shows "live_objects statics (set_roots thread a w) \<subseteq> live_objects statics (set_roots thread b w)"
proof -
  have "set b \<subseteq> live_objects statics (set_roots thread b w)"
    using roots_in_subset[of thread "set_roots thread b w"] roots_in_set_roots[OF assms(1), of b]
      roots_live[of "set_roots thread b w" statics] by simp
  with assms(2) have "set a \<subseteq> live_objects statics (set_roots thread b w)" by blast
  from set_roots_live_mono[OF this, of thread] show ?thesis by simp
qed

lemma set_roots_live_cong:
  "map_of (ss_contexts (w_shared w)) thread = Some cs \<Longrightarrow> set a = set b \<Longrightarrow>
   live_objects statics (set_roots thread a w) = live_objects statics (set_roots thread b w)"
  using set_roots_live_sub[of w thread cs a b] set_roots_live_sub[of w thread cs b a] by blast

text \<open>What a mutator or the allocator writes elsewhere leaves a relocated object relocated.\<close>

lemma relocated_keeps:
  assumes "relocated statics m m1 f p" "object_wf (lasting statics) m1 (f p)"
    and same: "\<And>a. a \<in> block (f p) (size_of statics m1 (f p)) \<Longrightarrow> m2 a = m1 a"
  shows "relocated statics m m2 f p"
proof -
  note s = types.same_object[OF assms(2) same]
  have "m2 (f p + j) = m1 (f p + j)" if "j < size_of statics m p" for j
    using that assms(1) by (intro same) (simp add: relocated_def)
  then show ?thesis using assms(1) s(2,3,5) by (simp add: relocated_def)
qed

lemma relocated_same: "relocated statics m m (\<lambda>p. p) p"
  by (simp add: relocated_def)

section \<open>One allocation on the fast path\<close>

lemma value_ready:
  assumes ready: "gc_ready statics objs gc w" and al: "heap_allocated statics objs w"
    and cs: "map_of (ss_contexts (w_shared w)) thread = Some cs"
    and lasts: "lasting statics ty"
    and size: "get_size_of_alloc True (types_ops statics) (ss_type_manager (w_shared w)) (Typed ty) = Inr sz"
      "sz + extra = n + METADATA_SIZE" "8 dvd n"
    and alloc: "alloc_fast checks (types_ops statics) thread (Typed ty) extra w = Inr (w1, Some obj)"
    and budget: "(\<Sum>x \<in> live_objects statics w. alloc_need (size_of statics (w_memory w) x)) +
      alloc_need (sz + extra) \<le> fresh_room (pt_nr_pages (mm_page_table (ss_mm (w_shared w))))"
    and ini: "obj_kind (w_memory w1) obj = NotPlainOldData ty \<and> 8 dvd obj \<longrightarrow>
      initialised statics (live_objects statics w) (w_memory w1) obj n m'"
  shows "gc_ready statics (insert obj objs) gc (root_object thread obj m' w1)"
    "heap_allocated statics (insert obj objs) (root_object thread obj m' w1)"
    "obj_kind (w_memory w1) obj = NotPlainOldData ty" "8 dvd obj"
    "x \<in> objs \<Longrightarrow> a \<in> block x (size_of statics (w_memory w) x) \<Longrightarrow> m' a = w_memory w a"
    "map_of (ss_contexts (w_shared w1)) thread \<noteq> None" "roots_in thread w1 = roots_in thread w"
    "ss_type_manager (w_shared w1) = ss_type_manager (w_shared w)"
proof -
  note g = gc_readyD[OF ready] and h = heap_allocatedD[OF al]
  have "8 dvd sz + extra" using size(2,3) by (simp add: METADATA_SIZE_def)
  have "sz + extra < 2 ^ 64" using budget by (intro request_bound[OF ready]) simp
  from alloc_fast_cases[OF al cs size(1) \<open>8 dvd sz + extra\<close> this, of checks] alloc obtain ctx pt where
    w1: "w1 = allocated_world thread cs ctx pt obj (Typed ty) w"
    and fresh: "fresh_block (mm_page_table (ss_mm (w_shared w))) (n + METADATA_SIZE) pt obj"
    and grows: "pt_grows (mm_page_table (ss_mm (w_shared w))) pt"
    unfolding size(2) by cases auto
  show kind: "obj_kind (w_memory w1) obj = NotPlainOldData ty"
    using allocated_header(1)[where m = "w_memory w1", OF arg_cong[OF w1] arg_cong[OF w1]] by simp
  show al8: "8 dvd obj" using fresh by (simp add: fresh_block_def)
  note ini = ini[rule_format, OF conjI, OF kind al8]
  have size_le: "size_of statics m' obj \<le> n + METADATA_SIZE" using ini by (simp add: initialised_def)
  have keep: "m' a = w_memory w a" if "a \<notin> block obj (n + METADATA_SIZE)" for a
  proof -
    have "a \<notin> block (object_data obj) n" using that by (auto simp: object_data_def METADATA_SIZE_def)
    then have "m' a = w_memory w1 a" using ini by (simp add: initialised_def)
    also have "\<dots> = w_memory w a" using that by (auto simp: w1 allocated_memory METADATA_SIZE_def)
    finally show ?thesis .
  qed
  have apart: "block x (size_of statics (w_memory w) x) \<inter> block obj (n + METADATA_SIZE) = {}"
    if "x \<in> objs" for x
    using h(4)[OF that] fresh unfolding fresh_block_def by blast
  show same: "m' a = w_memory w a" if "x \<in> objs" "a \<in> block x (size_of statics (w_memory w) x)" for x a
    using apart[OF that(1)] that(2) keep by blast
  have old: "size_of statics m' x = size_of statics (w_memory w) x"
    "pointers_of statics m' x = pointers_of statics (w_memory w) x" if "x \<in> objs" for x
    using types.same_object(2,3)[OF lasting_heap_objects[OF g(3) that] same[OF that]] by simp_all
  let ?w = "root_object thread obj m' w1"
  have roots: "set (concat (roots_of ?w)) \<subseteq> insert obj (live_objects statics w)"
    using root_object_roots[of thread obj m' w1] roots_live[of w statics]
    unfolding w1 allocated_world_roots[OF cs] by blast
  have "set (pointers_of statics m' x) \<subseteq> insert obj (live_objects statics w)" if "x \<in> insert obj (live_objects statics w)" for x
  proof (cases "x = obj")
    case True
    then show ?thesis using ini by (simp add: initialised_def)
  next
    case False
    with that have "x \<in> live_objects statics w" by simp
    then show ?thesis using old(2) gc_ready_live(1)[OF ready] pointers_live by fastforce
  qed
  then have sub: "live_objects statics ?w \<subseteq> insert obj (live_objects statics w)"
    using roots by (intro live_closed) simp_all
  have "obj \<notin> live_objects statics w"
  proof
    assume "obj \<in> live_objects statics w"
    then have o: "obj \<in> objs" using gc_ready_live(1)[OF ready] by blast
    then have "obj \<in> block obj (size_of statics (w_memory w) obj)"
      using types.obj_size_ge[OF lasting_heap_objects[OF g(3) o]] by simp
    moreover have "obj \<in> block obj (n + METADATA_SIZE)" by (simp add: METADATA_SIZE_def)
    ultimately show False using apart[OF o] by blast
  qed
  then have "(\<Sum>x \<in> insert obj (live_objects statics w). alloc_need (size_of statics m' x)) =
      alloc_need (size_of statics m' obj) + (\<Sum>x \<in> live_objects statics w. alloc_need (size_of statics m' x))"
    using gc_ready_finite[OF ready] by simp
  also have "(\<Sum>x \<in> live_objects statics w. alloc_need (size_of statics m' x)) =
      (\<Sum>x \<in> live_objects statics w. alloc_need (size_of statics (w_memory w) x))"
    using old(1) gc_ready_live(1)[OF ready] by (intro sum.cong) auto
  finally have "(\<Sum>x \<in> insert obj (live_objects statics w). alloc_need (size_of statics m' x)) \<le>
      fresh_room (pt_nr_pages (mm_page_table (ss_mm (w_shared w))))"
    using budget size_le size(2) by (simp add: alloc_need_def)
  moreover have "(\<Sum>x \<in> live_objects statics ?w. alloc_need (size_of statics m' x)) \<le>
      (\<Sum>x \<in> insert obj (live_objects statics w). alloc_need (size_of statics m' x))"
    using sub gc_ready_finite[OF ready] by (intro sum_mono2) auto
  moreover have nr: "pt_nr_pages (mm_page_table (ss_mm (w_shared ?w))) = pt_nr_pages (mm_page_table (ss_mm (w_shared w)))"
    using grows by (simp add: w1 pt_grows_def)
  ultimately have "within_budget statics ?w" unfolding within_budget_def by simp
  from allocate_ready[OF ready al cs _ size \<open>sz + extra < 2 ^ 64\<close>[unfolded size(2)] alloc ini this]
  show "gc_ready statics (insert obj objs) gc (root_object thread obj m' w1)"
    "heap_allocated statics (insert obj objs) (root_object thread obj m' w1)"
    using lasts by (simp_all add: lasting_alloc_def)
  show "map_of (ss_contexts (w_shared w1)) thread \<noteq> None" "roots_in thread w1 = roots_in thread w"
    "ss_type_manager (w_shared w1) = ss_type_manager (w_shared w)"
    using cs by (simp_all add: w1 update_conv' roots_in_def allocated_world_def Let_def)
qed

section \<open>Handles and heap together\<close>

definition handle_values :: "plus_context \<Rightarrow> object_ptr list" where
  "handle_values c = map (\<lambda>r. the (rf_ptr r)) (pc_refs c)"

text \<open>The world in which the objects of the handles are rooted.\<close>

definition root_handles :: "nat \<Rightarrow> plus_context \<Rightarrow> 'tm world \<Rightarrow> 'tm world" where
  "root_handles thread c w = set_roots thread (handle_values c) w"

definition loaded :: "plus_context \<Rightarrow> bool" where
  "loaded c \<longleftrightarrow> (\<forall>h < length (pc_refs c). rf_ptr (pc_refs c ! h) \<noteq> None)"

definition plus_inv :: "static_memory \<Rightarrow> nat \<Rightarrow> plus_context \<Rightarrow> types_state world \<Rightarrow> bool" where
  "plus_inv statics thread c w \<longleftrightarrow>
     ctx_inv c \<and> loaded c \<and> map_of (ss_contexts (w_shared w)) thread \<noteq> None \<and>
     (\<exists>objs. gc_ready statics objs None (root_handles thread c w) \<and> heap_allocated statics objs (root_handles thread c w))"

lemma loadedD: "loaded c \<Longrightarrow> h < length (pc_refs c) \<Longrightarrow> rf_ptr (pc_refs c ! h) = Some (handle_values c ! h)"
  by (auto simp: loaded_def handle_values_def)

lemma handle_values_length [simp]: "length (handle_values c) = length (pc_refs c)"
  by (simp add: handle_values_def)

lemma ctx_add_loaded:
  assumes "ctx_inv c" "loaded c"
  obtains c' where "ctx_add p c = Inr c'" "ctx_inv c'" "loaded c'" "handle_values c' = handle_values c @ [p]"
proof -
  from ctx_add_ok[OF assms(1), of p] obtain c' where c': "ctx_add p c = Inr c'" "ctx_inv c'"
    "length (pc_refs c') = length (pc_refs c) + 1"
    "\<forall>k < length (pc_refs c). rf_ptr (pc_refs c' ! k) = rf_ptr (pc_refs c ! k)"
    "rf_ptr (pc_refs c' ! length (pc_refs c)) = Some p" by blast
  have "rf_ptr (pc_refs c' ! h) = Some ((handle_values c @ [p]) ! h)" if "h < length (pc_refs c')" for h
    using that c'(3-5) loadedD[OF assms(2)] by (cases "h = length (pc_refs c)") (simp_all add: nth_append)
  then have "loaded c'" "handle_values c' = handle_values c @ [p]"
    using c'(3) by (auto simp: loaded_def handle_values_def intro!: nth_equalityI)
  with c' that show thesis by blast
qed

text \<open>What the collector visits when all handles are stored are the objects of the handles.\<close>

lemma stored_iter:
  assumes inv: "ctx_inv c" and stored: "\<forall>h < length (pc_refs c). rf_ptr (pc_refs c ! h) = None"
  shows "set (inner_iter_pointers (pc_inner c)) = {p. \<exists>h < length (pc_refs c). ref_value c h = Some p}"
proof (intro set_eqI iffI)
  fix p assume "p \<in> set (inner_iter_pointers (pc_inner c))"
  then have "Some p \<in> set (in_set (pc_inner c))" by (auto simp: inner_iter_pointers_def split: option.splits)
  then obtain i where i: "i < length (in_set (pc_inner c))" "in_set (pc_inner c) ! i = Some p" by (auto simp: in_set_conv_nth)
  then have "i \<in> set (map rf_idx (pc_refs c))" unfolding ctx_invD(6)[OF inv]
    using ctx_invD(1)[OF inv] ctx_invD(4)[OF inv i(1)] by simp
  then obtain h where "h < length (pc_refs c)" "rf_idx (pc_refs c ! h) = i" by (auto simp: in_set_conv_nth)
  with i(2) stored show "p \<in> {p. \<exists>h < length (pc_refs c). ref_value c h = Some p}" by (auto simp: ref_value_def)
next
  fix p assume "p \<in> {p. \<exists>h < length (pc_refs c). ref_value c h = Some p}"
  then obtain h where h: "h < length (pc_refs c)" "ref_value c h = Some p" by blast
  then have "in_set (pc_inner c) ! rf_idx (pc_refs c ! h) = Some p" using stored by (simp add: ref_value_def)
  then have "Some p \<in> set (in_set (pc_inner c))" using ctx_handle(1)[OF inv h(1)] nth_mem by metis
  then show "p \<in> set (inner_iter_pointers (pc_inner c))" by (force simp: inner_iter_pointers_def)
qed

lemma gc_ready_cache: "gc_ready statics objs gc w \<Longrightarrow> gc_init gc' = gc_init None \<Longrightarrow> gc_ready statics objs gc' w"
  unfolding gc_ready_def Let_def by blast

lemma set_roots_same: "map_of (ss_contexts (w_shared w)) thread = Some cs \<Longrightarrow> set_roots thread (cs_root_set cs) w = w"
  by (cases w; cases "w_shared w"; cases cs) (auto simp: set_roots_def Let_def update_same)

lemma live_sum_collected:
  assumes ready': "gc_ready statics (f ` live_objects statics w) gc' w'" and inj: "inj_on f (live_objects statics w)"
    and rel: "\<forall>obj \<in> live_objects statics w. relocated statics (w_memory w) (w_memory w') f obj"
  shows "(\<Sum>x \<in> live_objects statics w'. alloc_need (size_of statics (w_memory w') x)) \<le>
    (\<Sum>x \<in> live_objects statics w. alloc_need (size_of statics (w_memory w) x))"
proof -
  have "finite (f ` live_objects statics w)" using gc_readyD(3)[OF ready'] by (simp add: heap_wf_def)
  then have "(\<Sum>x \<in> live_objects statics w'. alloc_need (size_of statics (w_memory w') x)) \<le>
      (\<Sum>x \<in> f ` live_objects statics w. alloc_need (size_of statics (w_memory w') x))"
    using gc_ready_live(1)[OF ready'] by (intro sum_mono2) auto
  also have "\<dots> = (\<Sum>x \<in> live_objects statics w. alloc_need (size_of statics (w_memory w) x))"
    using rel by (simp add: sum.reindex[OF inj] relocated_def)
  finally show ?thesis .
qed

text \<open>The root set of one thread among all of them.\<close>

lemma roots_in_map:
  assumes "roots_of w' = map (map f) (roots_of w)" "map fst (ss_contexts (w_shared w')) = map fst (ss_contexts (w_shared w))"
  shows "roots_in thread w' = map f (roots_in thread w)"
proof -
  have "map (\<lambda>(_, cs). cs_root_set cs) xs = map (map f) (map (\<lambda>(_, cs). cs_root_set cs) ys) \<Longrightarrow> map fst xs = map fst ys \<Longrightarrow>
      (case map_of xs thread of None \<Rightarrow> [] | Some cs \<Rightarrow> cs_root_set cs) =
      map f (case map_of ys thread of None \<Rightarrow> [] | Some cs \<Rightarrow> cs_root_set cs)"
    for xs ys :: "(nat \<times> context_shared) list"
    by (induction xs arbitrary: ys) (auto simp: map_eq_Cons_conv Cons_eq_map_conv)
  from this[OF assms(1)[unfolded roots_of_def] assms(2)] show ?thesis by (simp add: roots_in_def)
qed

text \<open>
  The two ways through \<open>alloc\<close>. \<open>allocated_value\<close> is what both establish, with \<open>f\<close> the move of the
  objects.
\<close>

definition allocated_value ::
    "static_memory \<Rightarrow> nat \<Rightarrow> 64 word \<Rightarrow> (plus_context \<Rightarrow> memory \<Rightarrow> object_ptr \<Rightarrow> memory) \<Rightarrow> (object_ptr \<Rightarrow> object_ptr)
     \<Rightarrow> types_state world \<Rightarrow> plus_context \<Rightarrow> types_state world \<Rightarrow> plus_context \<Rightarrow> object_ptr \<Rightarrow> bool" where
  "allocated_value statics thread ty put f w c w' c' obj \<longleftrightarrow>
     plus_inv statics thread c' w' \<and> handle_values c' = map f (handle_values c) @ [obj] \<and>
     (\<forall>p \<in> set (handle_values c). relocated statics (w_memory w) (w_memory w') f p) \<and>
     (\<exists>m. obj_kind m obj = NotPlainOldData ty \<and> 8 dvd obj \<and> w_memory w' = put c' m obj)"

text \<open>
  Code that initialises an object of \<open>n\<close> bytes of data: whatever the handles are when it runs, the
  pointers it writes are null or theirs. \<open>k\<close> is the number of handles before the allocation.
\<close>

definition writer_ok ::
    "static_memory \<Rightarrow> 64 word \<Rightarrow> nat \<Rightarrow> (plus_context \<Rightarrow> memory \<Rightarrow> object_ptr \<Rightarrow> memory) \<Rightarrow> nat \<Rightarrow> bool" where
  "writer_ok statics ty n put k \<longleftrightarrow>
     (\<forall>c m obj. loaded c \<and> length (pc_refs c) = k + 1 \<and> (\<forall>p \<in> set (take k (handle_values c)). p < 2 ^ 64) \<and>
        obj_kind m obj = NotPlainOldData ty \<and> 8 dvd obj \<longrightarrow>
        initialised statics (set (take k (handle_values c))) m obj n (put c m obj))"

lemma initialised_mono: "initialised statics A m obj n m' \<Longrightarrow> A \<subseteq> B \<Longrightarrow> initialised statics B m obj n m'"
  unfolding initialised_def by blast

lemma writer_ok_value:
  assumes "writer_ok statics ty n put k" "loaded c" "handle_values c = vals @ [obj]" "length vals = k"
    and "gc_ready statics objs gc v" "set vals \<subseteq> live_objects statics v"
    and "obj_kind m obj = NotPlainOldData ty" "8 dvd obj"
  shows "initialised statics (live_objects statics v) m obj n (put c m obj)"
proof -
  have take: "take k (handle_values c) = vals" using assms(3,4) by simp
  have "length (pc_refs c) = k + 1" using arg_cong[OF assms(3), of length] assms(4) by simp
  moreover have "\<forall>p \<in> set vals. p < 2 ^ 64"
    using assms(6) gc_ready_live(1)[OF assms(5)] object_bound[OF assms(5)] by blast
  ultimately have "initialised statics (set vals) m obj n (put c m obj)"
    using assms(1,2,7,8) take unfolding writer_ok_def by metis
  then show ?thesis using assms(6) by (rule initialised_mono)
qed

lemma allocated_valueI:
  assumes inv: "ctx_inv c'" "loaded c'" "handle_values c' = map f (handle_values c) @ [obj]"
    and ready: "gc_ready statics objs gc v" "heap_allocated statics objs v"
    and cs: "map_of (ss_contexts (w_shared v)) thread = Some cs"
    and lasts: "lasting statics ty"
    and size: "get_size_of_alloc True (types_ops statics) (ss_type_manager (w_shared v)) (Typed ty) = Inr sz"
      "sz + extra = n + METADATA_SIZE" "8 dvd n"
    and alloc: "alloc_fast checks (types_ops statics) thread (Typed ty) extra v = Inr (v1, Some obj)"
    and budget: "(\<Sum>x \<in> live_objects statics v. alloc_need (size_of statics (w_memory v) x)) +
      alloc_need (sz + extra) \<le> fresh_room (pt_nr_pages (mm_page_table (ss_mm (w_shared v))))"
    and put: "writer_ok statics ty n put (length (pc_refs c))"
    and roots: "set (roots_in thread v) = set (map f (handle_values c))"
    and rel: "\<forall>p \<in> set (handle_values c). relocated statics (w_memory w) (w_memory v) f p"
    and w': "w' = (set_roots thread r v1)\<lparr>w_memory := put c' (w_memory v1) obj\<rparr>"
  shows "allocated_value statics thread ty put f w c w' c' obj"
proof -
  let ?m = "put c' (w_memory v1) obj" and ?vals = "map f (handle_values c) @ [obj]"
  let ?v = "root_object thread obj ?m v1"
  have len: "length (map f (handle_values c)) = length (pc_refs c)" by simp
  have known: "set (map f (handle_values c)) \<subseteq> live_objects statics v"
    using roots roots_in_subset[of thread v] roots_live[of v statics] by blast
  have ini: "obj_kind (w_memory v1) obj = NotPlainOldData ty \<and> 8 dvd obj \<longrightarrow>
      initialised statics (live_objects statics v) (w_memory v1) obj n ?m"
    using writer_ok_value[OF put inv(2,3) len ready(1) known] by blast
  note vr = value_ready[OF ready cs lasts size alloc budget ini]
  from vr(6) obtain cs1 where cs1: "map_of (ss_contexts (w_shared v1)) thread = Some cs1" by auto
  then have ctx: "map_of (ss_contexts (w_shared (v1\<lparr>w_memory := ?m\<rparr>))) thread = Some cs1" by simp
  have world: "root_handles thread c' w' = set_roots thread ?vals ?v"
    unfolding root_handles_def inv(3) w' root_object_def by (simp add: set_roots_memory)
  have "roots_in thread ?v = roots_in thread v @ [obj]"
    using roots_in_set_roots[OF ctx] vr(7) by (simp add: root_object_def roots_in_def)
  then have "set ?vals = set (roots_in thread ?v)" using roots by simp
  then have "set ?vals \<subseteq> live_objects statics ?v"
    using roots_in_subset[of thread ?v] roots_live[of ?v statics] by blast
  from set_roots_ready[OF vr(1) this, of thread] set_roots_allocated[OF vr(2)] have
    "\<exists>objs. gc_ready statics objs None (root_handles thread c' w') \<and> heap_allocated statics objs (root_handles thread c' w')"
    unfolding world using gc_ready_cache[of statics _ gc _ None] by blast
  moreover have "map_of (ss_contexts (w_shared w')) thread \<noteq> None"
    using set_roots_context[OF cs1, of r] by (simp add: w')
  moreover have "relocated statics (w_memory w) (w_memory w') f p" if p: "p \<in> set (handle_values c)" for p
  proof -
    have fp: "f p \<in> objs"
      using p roots roots_in_subset[of thread v] gc_readyD(7)[OF ready(1)] by auto
    have "relocated statics (w_memory w) ?m f p"
      by (rule relocated_keeps[OF bspec[OF rel p] lasting_heap_objects[OF gc_readyD(3)[OF ready(1)] fp]]) (rule vr(5)[OF fp])
    then show ?thesis by (simp add: w')
  qed
  ultimately show ?thesis
    using inv vr(3,4) unfolding allocated_value_def plus_inv_def by (auto simp: w')
qed

lemma heap_alloc_fast:
  assumes inv: "plus_inv statics thread c w" and lasts: "lasting statics ty"
    and put: "writer_ok statics ty n put (length (pc_refs c))"
    and size: "get_size_of_alloc True (types_ops statics) (ss_type_manager (w_shared w)) (Typed ty) = Inr sz"
      "sz + extra = n + METADATA_SIZE" "8 dvd n"
    and budget: "(\<Sum>x \<in> live_objects statics (root_handles thread c w). alloc_need (size_of statics (w_memory w) x)) +
      alloc_need (sz + extra) \<le> fresh_room (pt_nr_pages (mm_page_table (ss_mm (w_shared w))))"
    and fast: "alloc_fast checks (types_ops statics) thread (Typed ty) extra (root_handles thread c w) = Inr (v, Some obj)"
  obtains w' c' where "heap_alloc_with checks statics cycle thread hs ty extra put w c = Inr (w', c', Some obj)"
    "allocated_value statics thread ty put (\<lambda>p. p) w c w' c' obj"
proof -
  let ?R = "root_handles thread c w"
  from inv obtain objs cs where i: "ctx_inv c" "loaded c" "map_of (ss_contexts (w_shared w)) thread = Some cs"
    "gc_ready statics objs None ?R" "heap_allocated statics objs ?R" unfolding plus_inv_def by auto
  have w: "w = set_roots thread (cs_root_set cs) ?R" using set_roots_same[OF i(3)] by (simp add: root_handles_def)
  have alloc: "alloc_fast checks (types_ops statics) thread (Typed ty) extra w = Inr (set_roots thread (cs_root_set cs) v, Some obj)"
    unfolding arg_cong[OF w, of "alloc_fast checks (types_ops statics) thread (Typed ty) extra"] alloc_fast_set_roots fast by simp
  have ctx: "map_of (ss_contexts (w_shared ?R)) thread = Some (cs\<lparr>cs_root_set := handle_values c\<rparr>)"
    unfolding root_handles_def by (rule set_roots_context[OF i(3)])
  have roots: "roots_in thread ?R = handle_values c" unfolding root_handles_def by (rule roots_in_set_roots[OF i(3)])
  have R: "w_memory ?R = w_memory w" "ss_mm (w_shared ?R) = ss_mm (w_shared w)"
    "ss_type_manager (w_shared ?R) = ss_type_manager (w_shared w)" by (simp_all add: root_handles_def)
  from i(1,2) obtain c' where c': "ctx_add obj c = Inr c'" "ctx_inv c'" "loaded c'" "handle_values c' = handle_values c @ [obj]"
    by (rule ctx_add_loaded)
  let ?w' = "(set_roots thread (cs_root_set cs) v)\<lparr>w_memory := put c' (w_memory v) obj\<rparr>"
  have "heap_alloc_with checks statics cycle thread hs ty extra put w c = Inr (?w', c', Some obj)"
    using alloc c'(1) by (simp add: heap_alloc_with_def)
  moreover have "allocated_value statics thread ty put (\<lambda>p. p) w c ?w' c' obj"
    by (rule allocated_valueI[where c' = c', OF c'(2,3) _ i(4,5) ctx lasts _ size(2,3) fast _ put])
      (use c'(4) budget roots relocated_same size(1) R in simp_all)
  ultimately show thesis by (rule that)
qed

text \<open>The handles before and after a collection.\<close>

lemma stored_handles:
  assumes inv: "ctx_inv c" "loaded c" and hs: "distinct hs" "set hs = {..<length (pc_refs c)}"
  obtains c1 where "before_safepoint hs c = Inr c1" "ctx_inv c1" "length (pc_refs c1) = length (pc_refs c)"
    "\<forall>h < length (pc_refs c). rf_ptr (pc_refs c1 ! h) = None \<and> ref_value c1 h = Some (handle_values c ! h)"
    "set (inner_iter_pointers (pc_inner c1)) = set (handle_values c)"
    "stored_count (pc_inner c1) = exist_count (pc_inner c1)"
proof -
  let ?n = "length (pc_refs c)"
  from store_all[OF inv(1) hs(1)] hs(2) inv(2) obtain c1 where c1: "before_safepoint hs c = Inr c1" "ctx_inv c1"
    "same_handles c c1" "\<forall>k < ?n. ref_value c1 k = ref_value c k \<and> rf_ptr (pc_refs c1 ! k) = None"
    by (auto simp: loaded_def)
  note len = same_handles_length[OF c1(3)]
  have stored: "\<forall>h < length (pc_refs c1). rf_ptr (pc_refs c1 ! h) = None" using c1(4) len by simp
  have val: "ref_value c1 h = Some (handle_values c ! h)" if "h < ?n" for h
  proof -
    have "ref_value c h = Some (handle_values c ! h)" using loadedD[OF inv(2) that] by (simp add: ref_value_def)
    then show ?thesis using c1(4) that by simp
  qed
  have "set (inner_iter_pointers (pc_inner c1)) = set (handle_values c)"
    unfolding stored_iter[OF c1(2) stored] len set_conv_nth[of "handle_values c"] using val by fastforce
  with c1 len val all_stored_iff[OF c1(2)] stored show thesis by (intro that[of c1]) simp_all
qed

lemma reloaded_handles:
  assumes inv: "ctx_inv c1" "length (pc_refs c1) = length vals"
    and stored: "\<forall>h < length vals. rf_ptr (pc_refs c1 ! h) = None \<and> ref_value c1 h = Some (vals ! h)"
    and hs: "distinct hs" "set hs = {..<length vals}"
  obtains c3 c4 where "ctx_add obj (moved_ctx f c1) = Inr c3" "after_safepoint hs c3 = Inr c4" "ctx_inv c4" "loaded c4"
    "handle_values c4 = map f vals @ [obj]"
proof -
  let ?c2 = "moved_ctx f c1"
  have refs: "pc_refs ?c2 = pc_refs c1" by (simp add: moved_ctx_def)
  have moved: "ref_value ?c2 h = Some (f (vals ! h))" if "h < length vals" for h
  proof -
    have "rf_ptr (pc_refs c1 ! h) = None" "in_set (pc_inner c1) ! rf_idx (pc_refs c1 ! h) = Some (vals ! h)"
      using stored that by (auto simp: ref_value_def)
    then show ?thesis using that ctx_handle(1)[OF inv(1), of h] inv(2) by (simp add: ref_value_def moved_ctx_def)
  qed
  from ctx_add_ok[OF moved_ctx_inv(1)[OF inv(1)], of obj f] obtain c3 where
    c3: "ctx_add obj ?c2 = Inr c3" "ctx_inv c3" "length (pc_refs c3) = length vals + 1"
      "\<forall>k < length vals. ref_value c3 k = ref_value ?c2 k \<and> rf_ptr (pc_refs c3 ! k) = rf_ptr (pc_refs c1 ! k)"
      "rf_ptr (pc_refs c3 ! length vals) = Some obj" by (auto simp: refs inv(2))
  have "\<forall>h \<in> set hs. h < length (pc_refs c3) \<and> rf_ptr (pc_refs c3 ! h) = None" using c3(3,4) stored hs(2) by simp
  from load_all[OF c3(2) hs(1) this] obtain c4 where
    c4: "after_safepoint hs c3 = Inr c4" "ctx_inv c4" "same_handles c3 c4"
      "\<forall>k < length (pc_refs c3). rf_ptr (pc_refs c4 ! k) = (if k \<in> set hs then ref_value c3 k else rf_ptr (pc_refs c3 ! k))"
    by blast
  have len: "length (pc_refs c4) = length vals + 1" using same_handles_length[OF c4(3)] c3(3) by simp
  have "rf_ptr (pc_refs c4 ! h) = Some ((map f vals @ [obj]) ! h)" if "h < length vals + 1" for h
    using that c4(4) c3(3-5) moved hs(2) by (cases "h = length vals") (simp_all add: nth_append)
  then have "loaded c4" "handle_values c4 = map f vals @ [obj]"
    using len by (auto simp: loaded_def handle_values_def intro!: nth_equalityI)
  with c3(1) c4(1,2) that show thesis by blast
qed

lemma published_ready:
  assumes inv: "plus_inv statics thread c w" and gc: "gc_init gc = gc_init None"
    and it: "set (inner_iter_pointers (pc_inner c1)) = set (handle_values c)"
  obtains objs cs where "gc_ready statics objs gc (publish thread c1 w)" "heap_allocated statics objs (publish thread c1 w)"
    "map_of (ss_contexts (w_shared (publish thread c1 w))) thread = Some cs"
    "roots_in thread (publish thread c1 w) = inner_iter_pointers (pc_inner c1)"
    "live_objects statics (publish thread c1 w) = live_objects statics (root_handles thread c w)"
    "set (handle_values c) \<subseteq> live_objects statics (publish thread c1 w)"
proof -
  let ?R = "root_handles thread c w" and ?P = "publish thread c1 w" and ?it = "inner_iter_pointers (pc_inner c1)"
  from inv obtain objs cs where i: "map_of (ss_contexts (w_shared w)) thread = Some cs"
    "gc_ready statics objs None ?R" "heap_allocated statics objs ?R" unfolding plus_inv_def by auto
  have P: "?P = set_roots thread ?it ?R" by (simp add: publish_def root_handles_def)
  have live: "live_objects statics ?P = live_objects statics ?R"
    unfolding publish_def root_handles_def by (rule set_roots_live_cong[OF i(1) it])
  have roots: "roots_in thread ?R = handle_values c" unfolding root_handles_def by (rule roots_in_set_roots[OF i(1)])
  have sub: "set (handle_values c) \<subseteq> live_objects statics ?R"
    using roots_in_subset[of thread ?R] roots_live[of ?R statics] unfolding roots by blast
  have "set ?it \<subseteq> live_objects statics ?R" using sub it by simp
  from set_roots_ready[OF i(2) this, of thread] set_roots_allocated[OF i(3)]
  have ready: "gc_ready statics objs gc ?P" "heap_allocated statics objs ?P"
    using gc_ready_cache[OF _ gc] unfolding P by blast+
  have "map_of (ss_contexts (w_shared ?P)) thread = Some (cs\<lparr>cs_root_set := ?it\<rparr>)" "roots_in thread ?P = ?it"
    unfolding publish_def using set_roots_context[OF i(1)] roots_in_set_roots[OF i(1)] by auto
  then show thesis using ready live sub by (intro that) simp_all
qed

lemma heap_alloc_slow:
  assumes inv: "plus_inv statics thread c w" and os: "kernel_ok os" "schedules_ok schedule"
    and gc: "gc_init gc = gc_init None"
    and hs: "distinct hs" "set hs = {..<length (pc_refs c)}"
    and lasts: "lasting statics ty" and put: "writer_ok statics ty n put (length (pc_refs c))"
    and size: "get_size_of_alloc True (types_ops statics) (ss_type_manager (w_shared w)) (Typed ty) = Inr sz"
      "sz + extra = n + METADATA_SIZE" "8 dvd n"
    and budget: "(\<Sum>x \<in> live_objects statics (root_handles thread c w). alloc_need (size_of statics (w_memory w) x)) +
      alloc_need (sz + extra) + BASE_PAGE_SIZE \<le> fresh_room (pt_nr_pages (mm_page_table (ss_mm (w_shared w))))"
    and full: "alloc_fast overflow_checks (types_ops statics) thread (Typed ty) extra (root_handles thread c w) = Inr (root_handles thread c w, None)"
  obtains f w' c' obj where
    "heap_alloc_with overflow_checks statics (collect_and_wait (types_ops statics) checks os schedule gc) thread hs ty extra put w c = Inr (w', c', Some obj)"
    "allocated_value statics thread ty put f w c w' c' obj"
proof -
  let ?R = "root_handles thread c w" and ?n = "length (pc_refs c)"
  let ?alloc = "alloc_fast overflow_checks (types_ops statics) thread (Typed ty) extra"
  from inv obtain objs cs where i: "ctx_inv c" "loaded c" "map_of (ss_contexts (w_shared w)) thread = Some cs"
    "gc_ready statics objs None ?R" "heap_allocated statics objs ?R" unfolding plus_inv_def by auto
  have none: "?alloc (set_roots thread a w) = Inr (set_roots thread a w, None)" for a
    using alloc_fast_set_roots[of overflow_checks "types_ops statics" thread "Typed ty" extra a ?R] full by (simp add: root_handles_def)
  have w: "w = set_roots thread (cs_root_set cs) w" using set_roots_same[OF i(3)] by simp
  from stored_handles[OF i(1,2) hs] obtain c1 where c1: "before_safepoint hs c = Inr c1" "ctx_inv c1"
    "length (pc_refs c1) = ?n"
    "\<forall>h < ?n. rf_ptr (pc_refs c1 ! h) = None \<and> ref_value c1 h = Some (handle_values c ! h)"
    "set (inner_iter_pointers (pc_inner c1)) = set (handle_values c)"
    "stored_count (pc_inner c1) = exist_count (pc_inner c1)" .
  note it = c1(5)
  let ?it = "inner_iter_pointers (pc_inner c1)" and ?P = "publish thread c1 w"
  from published_ready[OF inv gc it] obtain objs' cs' where P: "gc_ready statics objs' gc ?P" "heap_allocated statics objs' ?P"
    "map_of (ss_contexts (w_shared ?P)) thread = Some cs'" "roots_in thread ?P = ?it"
    "live_objects statics ?P = live_objects statics ?R" "set (handle_values c) \<subseteq> live_objects statics ?P" .
  have P_w: "w_memory ?P = w_memory w" "ss_mm (w_shared ?P) = ss_mm (w_shared w)" by (simp_all add: publish_def)
  have size_P: "get_size_of_alloc True (types_ops statics) (ss_type_manager (w_shared ?P)) (Typed ty) = Inr sz"
    using size(1) by (simp add: publish_def)
  have budget_P: "(\<Sum>x \<in> live_objects statics ?P. alloc_need (size_of statics (w_memory ?P) x)) + alloc_need (sz + extra) +
      BASE_PAGE_SIZE \<le> fresh_room (pt_nr_pages (mm_page_table (ss_mm (w_shared ?P))))"
    using budget unfolding P(5) P_w .
  have "lasting_alloc statics (Typed ty)" using lasts by (simp add: lasting_alloc_def)
  have "8 dvd sz + extra" using size(2,3) by (simp add: METADATA_SIZE_def)
  from alloc_after_cycle[OF P(1,2) os P(3) \<open>lasting_alloc statics (Typed ty)\<close> size_P this budget_P, of checks]
  obtain f gc' v cs' ctx pt obj where
    v: "collect_and_wait (types_ops statics) checks os schedule gc ?P = Inr v" "inj_on f (live_objects statics ?P)"
      "\<forall>obj \<in> live_objects statics ?P. relocated statics (w_memory ?P) (w_memory v) f obj"
      "roots_of v = map (map f) (roots_of ?P)"
      "map fst (ss_contexts (w_shared v)) = map fst (ss_contexts (w_shared ?P))"
      "pt_nr_pages (mm_page_table (ss_mm (w_shared v))) = pt_nr_pages (mm_page_table (ss_mm (w_shared ?P)))"
      "gc_ready statics (f ` live_objects statics ?P) (Some gc') v" "heap_allocated statics (f ` live_objects statics ?P) v"
      "map_of (ss_contexts (w_shared v)) thread = Some cs'"
      "get_size_of_alloc True (types_ops statics) (ss_type_manager (w_shared v)) (Typed ty) = Inr sz"
      "alloc_fast checks (types_ops statics) thread (Typed ty) extra v = Inr (allocated_world thread cs' ctx pt obj (Typed ty) v, Some obj)"
      "fresh_block (mm_page_table (ss_mm (w_shared v))) (sz + extra) pt obj" .
  let ?v1 = "allocated_world thread cs' ctx pt obj (Typed ty) v"
  have "sz + extra < 2 ^ 64" using budget_P by (intro request_bound[OF P(1)]) simp
  note alloc_v = v(11)[unfolded alloc_fast_fits[OF v(10) this, of checks thread overflow_checks]]
  have roots_v: "roots_in thread v = map f ?it"
    using roots_in_map[OF v(4,5), of thread] P(4) by simp
  have roots_v1: "roots_in thread ?v1 = map f ?it"
    using roots_v v(9) by (simp add: roots_in_def update_conv')
  have fetch: "fetch thread ?v1 c1 = moved_ctx f c1" by (rule fetch_moved[OF roots_v1])
  from reloaded_handles[of c1 "handle_values c" hs obj f] c1(2-4) hs obtain c3 c4 where
    c4: "ctx_add obj (moved_ctx f c1) = Inr c3" "after_safepoint hs c3 = Inr c4" "ctx_inv c4" "loaded c4"
      "handle_values c4 = map f (handle_values c) @ [obj]" by auto
  have slow: "alloc_slow overflow_checks (types_ops statics) (collect_and_wait (types_ops statics) checks os schedule gc) thread (Typed ty) extra ?P =
      Inr (?v1, Some obj)"
    using none[of ?it] v(1) alloc_v by (simp add: alloc_slow_def numeral_3_eq_3 publish_def)
  let ?w' = "?v1\<lparr>w_memory := put c4 (w_memory ?v1) obj\<rparr>"
  have fast: "?alloc w = Inr (w, None)" using none[of "cs_root_set cs"] unfolding w[symmetric] .
  have run: "heap_alloc_with overflow_checks statics (collect_and_wait (types_ops statics) checks os schedule gc) thread hs ty extra put w c =
      Inr (?w', c4, Some obj)"
    using fast c1(1,6) slow fetch c4(1,2) by (simp add: heap_alloc_with_def Let_def)
  have budget_v: "(\<Sum>x \<in> live_objects statics v. alloc_need (size_of statics (w_memory v) x)) +
      alloc_need (sz + extra) \<le> fresh_room (pt_nr_pages (mm_page_table (ss_mm (w_shared v))))"
    using live_sum_collected[OF v(7,2,3)] budget_P unfolding v(6) by simp
  have rel: "\<forall>p \<in> set (handle_values c). relocated statics (w_memory w) (w_memory v) f p"
    using v(3) P(6) unfolding P_w by blast
  have same: "?v1 = set_roots thread (roots_in thread ?v1) ?v1"
    using set_roots_same[of ?v1 thread] v(9) by (simp add: roots_in_def update_conv')
  have "allocated_value statics thread ty put f w c ?w' c4 obj"
    by (rule allocated_valueI[where c' = c4 and r = "roots_in thread ?v1",
          OF c4(3-5) v(7-9) lasts v(10) size(2,3) alloc_v budget_v put _ rel])
      (use roots_v it same[symmetric] in simp_all)
  with run show thesis by (rule that)
qed

lemma heap_alloc_with_safe:
  assumes inv: "plus_inv statics thread c w" and os: "kernel_ok os" "schedules_ok schedule"
    and gc: "gc_init gc = gc_init None"
    and hs: "distinct hs" "set hs = {..<length (pc_refs c)}"
    and lasts: "lasting statics ty" and put: "writer_ok statics ty n put (length (pc_refs c))"
    and size: "get_size_of_alloc True (types_ops statics) (ss_type_manager (w_shared w)) (Typed ty) = Inr sz"
      "sz + extra = n + METADATA_SIZE" "8 dvd n"
    and budget: "(\<Sum>x \<in> live_objects statics (root_handles thread c w). alloc_need (size_of statics (w_memory w) x)) +
      alloc_need (sz + extra) + BASE_PAGE_SIZE \<le> fresh_room (pt_nr_pages (mm_page_table (ss_mm (w_shared w))))"
  obtains f w' c' obj where
    "heap_alloc_with overflow_checks statics (collect_and_wait (types_ops statics) checks os schedule gc) thread hs ty extra put w c = Inr (w', c', Some obj)"
    "allocated_value statics thread ty put f w c w' c' obj"
proof -
  let ?R = "root_handles thread c w"
  from inv obtain objs cs where i: "map_of (ss_contexts (w_shared w)) thread = Some cs"
    "heap_allocated statics objs ?R" unfolding plus_inv_def by auto
  have ctx: "map_of (ss_contexts (w_shared ?R)) thread = Some (cs\<lparr>cs_root_set := handle_values c\<rparr>)"
    unfolding root_handles_def by (rule set_roots_context[OF i(1)])
  have size_R: "get_size_of_alloc True (types_ops statics) (ss_type_manager (w_shared ?R)) (Typed ty) = Inr sz"
    using size(1) by (simp add: root_handles_def)
  have al: "8 dvd sz + extra" using size(2,3) by (simp add: METADATA_SIZE_def)
  from inv obtain objs' where "gc_ready statics objs' None ?R" unfolding plus_inv_def by auto
  then have bound: "sz + extra < 2 ^ 64" using budget by (intro request_bound) (auto simp: root_handles_def)
  from i(2) ctx size_R al bound show thesis
  proof (cases rule: alloc_fast_cases[where checks = overflow_checks])
    case full
    from inv os gc hs lasts put size budget full(1) show thesis by (rule heap_alloc_slow) (rule that)
  next
    case (some ctx pt a)
    from budget have "(\<Sum>x \<in> live_objects statics ?R. alloc_need (size_of statics (w_memory w) x)) +
      alloc_need (sz + extra) \<le> fresh_room (pt_nr_pages (mm_page_table (ss_mm (w_shared w))))" by simp
    from inv lasts put size this some(1) show thesis by (rule heap_alloc_fast) (rule that)
  qed
qed

section \<open>Values of static types\<close>

text \<open>The cells of a value of a static type that is no array, whose pointers are null or in \<open>known\<close>.\<close>

definition static_value :: "static_memory \<Rightarrow> 64 word \<Rightarrow> 64 word list \<Rightarrow> object_ptr set \<Rightarrow> bool" where
  "static_value statics ty vs known \<longleftrightarrow>
     (\<exists>d. get_type statics types_new ty = Inr (Some (StaticallyKnown d)) \<and> descriptor_ok d \<and> \<not> desc_is_array d \<and>
        desc_size d = 8 * length vs \<and> desc_size d + METADATA_SIZE < max_object_size Small \<and>
        (\<forall>off \<in> set (yielded_at 0 d). vs ! (off div 8) = 0 \<or> unat (vs ! (off div 8)) \<in> known))"

lemma static_value_mono: "static_value statics ty vs A \<Longrightarrow> A \<subseteq> B \<Longrightarrow> static_value statics ty vs B"
  unfolding static_value_def by blast

lemma static_value_type: "static_value statics ty vs known \<Longrightarrow> lasting statics ty"
  by (auto simp: static_value_def sane_type_def)

lemma write_value_nth:
  "i < length vs \<Longrightarrow> write_value m a vs (a + 8 * i) = vs ! i"
  using arg_cong[OF read_write_value[of m a vs], of "\<lambda>xs. xs ! i"] by (simp add: read_value_def)

lemma static_value_initialised:
  assumes v: "static_value statics ty vs known" and obj: "obj_kind m obj = NotPlainOldData ty" "8 dvd obj"
    and n: "8 * length vs \<le> n"
  shows "initialised statics known m obj n (alloc_init vs m obj)"
    "size_of statics (alloc_init vs m obj) obj = 8 * length vs + METADATA_SIZE"
    "obj_kind (alloc_init vs m obj) obj = NotPlainOldData ty"
    "read_value (alloc_init vs m obj) (object_data obj) (length vs) = vs"
proof -
  let ?m = "alloc_init vs m obj"
  from v obtain d where d: "get_type statics types_new ty = Inr (Some (StaticallyKnown d))" "descriptor_ok d"
    "\<not> desc_is_array d" "desc_size d = 8 * length vs" "desc_size d + METADATA_SIZE < max_object_size Small"
    "\<forall>off \<in> set (yielded_at 0 d). vs ! (off div 8) = 0 \<or> unat (vs ! (off div 8)) \<in> known"
    unfolding static_value_def by blast
  have keep: "?m a = m a" if "a \<notin> block (object_data obj) (8 * length vs)" for a
    using that by (auto simp: alloc_init_def intro: write_value_outside)
  have "?m obj = m obj" "?m (obj + 8) = m (obj + 8)"
    by (rule keep; simp add: object_data_def METADATA_SIZE_def)+
  then show kind: "obj_kind ?m obj = NotPlainOldData ty" using obj(1) by (auto simp: obj_kind_def split: if_splits)
  show size: "size_of statics ?m obj = 8 * length vs + METADATA_SIZE"
    using d(1,3,4) kind
    by (simp add: obj_size_def concrete_get_size_def object_metadata_eq types_dynamic_size_def)
  have wf: "object_wf (lasting statics) ?m obj"
    using obj(2) kind static_value_type[OF v] by (simp add: object_wf_def)
  have "?m (object_data obj + off) = vs ! (off div 8)" if "off \<in> set (yielded_at 0 d)" for off
  proof -
    have off: "off + 8 \<le> 8 * length vs" "8 dvd off" using d(2,4) that by (auto simp: descriptor_ok_def offsets_fit_def)
    then have "off = 8 * (off div 8)" "off div 8 < length vs" by auto
    then show ?thesis unfolding alloc_init_def by (metis write_value_nth)
  qed
  then have "set (pointers_of statics ?m obj) \<subseteq> known"
    using d(1,3,6) kind unfolding types.iterate_known(2)[OF wf]
    by (auto simp: field_addrs_def types_offsets_def descriptor_offsets)
  then show "initialised statics known m obj n ?m"
    using n keep size d(4,5) by (auto simp: initialised_def METADATA_SIZE_def)
  show "read_value ?m (object_data obj) (length vs) = vs" by (simp add: alloc_init_def read_write_value)
qed

text \<open>A closure whose value has null pointers or those of handles, whatever the handles are.\<close>

definition init_ok :: "static_memory \<Rightarrow> 64 word \<Rightarrow> nat \<Rightarrow> (plus_context \<Rightarrow> 64 word list) \<Rightarrow> nat \<Rightarrow> bool" where
  "init_ok statics ty cells init k \<longleftrightarrow>
     (\<forall>c. loaded c \<and> length (pc_refs c) = k + 1 \<and> (\<forall>p \<in> set (take k (handle_values c)). p < 2 ^ 64) \<longrightarrow>
        static_value statics ty (init c) (set (take k (handle_values c))) \<and> length (init c) = cells)"

lemma init_ok_writer:
  "init_ok statics ty cells init k \<Longrightarrow> writer_ok statics ty (8 * cells + extra) (\<lambda>c. alloc_init (init c)) k"
  unfolding writer_ok_def init_ok_def by (metis static_value_initialised(1) le_add1)

text \<open>The elements of an array of a static type, whose pointers are null or in \<open>known\<close>.\<close>

definition array_value :: "static_memory \<Rightarrow> 64 word \<Rightarrow> nat \<Rightarrow> 64 word list list \<Rightarrow> object_ptr set \<Rightarrow> bool" where
  "array_value statics ty k vs known \<longleftrightarrow>
     (\<exists>d. get_type statics types_new ty = Inr (Some (StaticallyKnown d)) \<and> descriptor_ok d \<and> desc_is_array d \<and>
        desc_size d = 8 * k \<and> METADATA_SIZE + ARRAY_HEADER_SIZE + 8 * k * length vs < max_object_size Small \<and>
        (\<forall>v \<in> set vs. length v = k \<and> (\<forall>off \<in> set (yielded_at 0 d). v ! (off div 8) = 0 \<or> unat (v ! (off div 8)) \<in> known)))"

lemma array_value_initialised:
  assumes v: "array_value statics ty k vs known" and obj: "obj_kind m obj = NotPlainOldData ty" "8 dvd obj"
    and len: "length vs < 2 ^ 64" and n: "ARRAY_HEADER_SIZE + 8 * k * length vs \<le> n"
  shows "initialised statics known m obj n (alloc_array_init (8 * k) (length vs) vs m obj)"
proof -
  let ?m = "alloc_array_init (8 * k) (length vs) vs m obj"
  from v obtain d where d: "get_type statics types_new ty = Inr (Some (StaticallyKnown d))" "descriptor_ok d"
    "desc_is_array d" "desc_size d = 8 * k" "METADATA_SIZE + ARRAY_HEADER_SIZE + 8 * k * length vs < max_object_size Small"
    "\<forall>v \<in> set vs. length v = k \<and> (\<forall>off \<in> set (yielded_at 0 d). v ! (off div 8) = 0 \<or> unat (v ! (off div 8)) \<in> known)"
    unfolding array_value_def by blast
  note layout = array_layout[OF refl len, of k m obj, unfolded Let_def]
  have lay: "array_len ?m obj = length vs"
    "\<And>i. i < length vs \<Longrightarrow> read_value ?m (array_slice (8 * k) ?m obj ! i) k = vs ! i"
    "\<And>x. x \<notin> block (object_data obj) (ARRAY_HEADER_SIZE + length vs * (8 * k)) \<Longrightarrow> ?m x = m x"
    using layout d(6) by blast+
  have "?m obj = m obj" "?m (obj + 8) = m (obj + 8)"
    by (rule lay(3); simp add: object_data_def METADATA_SIZE_def)+
  then have kind: "obj_kind ?m obj = NotPlainOldData ty" using obj(1) by (auto simp: obj_kind_def split: if_splits)
  have size: "size_of statics ?m obj = METADATA_SIZE + ARRAY_HEADER_SIZE + 8 * k * length vs"
    using d(1,3,4) kind lay(1)
    by (simp add: obj_size_def concrete_get_size_def object_metadata_eq types_dynamic_size_def)
  have "lasting statics ty" using d(1,2) by (simp add: sane_type_def)
  then have wf: "object_wf (lasting statics) ?m obj"
    using obj(2) kind by (simp add: object_wf_def)
  have cell: "?m (object_data obj + (i * (8 * k) + off + ARRAY_HEADER_SIZE)) = vs ! i ! (off div 8)"
    if i: "i < length vs" and o: "off \<in> set (yielded_at 0 d)" for i off
  proof -
    have off: "off + 8 \<le> 8 * k" "8 dvd off" using d(2,4) o by (auto simp: descriptor_ok_def offsets_fit_def)
    then have e: "off = 8 * (off div 8)" "off div 8 < k" by auto
    have "array_slice (8 * k) ?m obj ! i = object_data obj + ARRAY_HEADER_SIZE + i * (8 * k)"
      using i by (simp add: array_slice_def lay(1))
    then have "vs ! i ! (off div 8) = read_value ?m (object_data obj + ARRAY_HEADER_SIZE + i * (8 * k)) k ! (off div 8)"
      using lay(2)[OF i] by simp
    also have "\<dots> = ?m (object_data obj + ARRAY_HEADER_SIZE + i * (8 * k) + 8 * (off div 8))"
      using e(2) by (simp add: read_value_def)
    also have "\<dots> = ?m (object_data obj + (i * (8 * k) + off + ARRAY_HEADER_SIZE))"
      using e(1) by (simp add: ac_simps)
    finally show ?thesis by simp
  qed
  have "a \<in> set (field_addrs (types_offsets statics types_new) ?m obj) \<Longrightarrow> ?m a = 0 \<or> unat (?m a) \<in> known" for a
  proof -
    assume "a \<in> set (field_addrs (types_offsets statics types_new) ?m obj)"
    then obtain i off where a: "i < length vs" "off \<in> set (yielded_at 0 d)"
      "a = object_data obj + (i * (8 * k) + off + ARRAY_HEADER_SIZE)"
      using d(1,3,4) kind by (auto simp: field_addrs_def types_offsets_def descriptor_offsets lay(1))
    show ?thesis unfolding a(3) cell[OF a(1,2)] using d(6) nth_mem[OF a(1)] a(2) by blast
  qed
  then have "set (pointers_of statics ?m obj) \<subseteq> known"
    unfolding types.iterate_known(2)[OF wf] by fastforce
  moreover have "8 dvd METADATA_SIZE + ARRAY_HEADER_SIZE + 8 * k * length vs"
    by (simp add: METADATA_SIZE_def ARRAY_HEADER_SIZE_def)
  moreover have "?m x = m x" if "x \<notin> block (object_data obj) n" for x
    using lay(3)[of x] that n by (auto simp: mult.commute)
  ultimately show ?thesis
    unfolding initialised_def size using n d(5) by (auto simp: METADATA_SIZE_def)
qed

definition elements_ok :: "static_memory \<Rightarrow> 64 word \<Rightarrow> nat \<Rightarrow> nat \<Rightarrow> (plus_context \<Rightarrow> 64 word list list) \<Rightarrow> nat \<Rightarrow> bool" where
  "elements_ok statics ty k len init n \<longleftrightarrow>
     (\<forall>c. loaded c \<and> length (pc_refs c) = n + 1 \<and> (\<forall>p \<in> set (take n (handle_values c)). p < 2 ^ 64) \<longrightarrow>
        array_value statics ty k (init c) (set (take n (handle_values c))) \<and> length (init c) = len)"

lemma elements_ok_writer:
  "elements_ok statics ty k len init n \<Longrightarrow> len < 2 ^ 64 \<Longrightarrow>
   writer_ok statics ty (ARRAY_HEADER_SIZE + 8 * k * len + extra) (\<lambda>c. alloc_array_init (8 * k) len (init c)) n"
  unfolding writer_ok_def elements_ok_def by (metis array_value_initialised le_add1)

section \<open>Properties\<close>

lemma static_type_id:
  "get_type statics ts ty = Inr (Some (StaticallyKnown d)) \<Longrightarrow> type_id_from_static ty = Inr ty"
  by (simp add: get_type_def type_id_from_static_def Let_def split: if_splits)

lemma static_alloc_size:
  assumes "get_type statics types_new ty = Inr (Some (StaticallyKnown d))" "descriptor_ok d"
  shows "lasting statics ty"
    "get_size_of_alloc checks (types_ops statics) ts (Typed ty) =
       usize_in checks ((if desc_is_array d then ARRAY_HEADER_SIZE else desc_size d) + METADATA_SIZE)"
proof -
  show l: "lasting statics ty" using assms by (simp add: sane_type_def)
  show "get_size_of_alloc checks (types_ops statics) ts (Typed ty) =
      usize_in checks ((if desc_is_array d then ARRAY_HEADER_SIZE else desc_size d) + METADATA_SIZE)"
    using assms(1) lasting_get_type[OF l, of ts] by (simp add: types_static_size_def)
qed

text \<open>The handles of a thread are addresses.\<close>

lemma plus_inv_bound:
  assumes "plus_inv statics thread c w" "p \<in> set (handle_values c)"
  shows "p < 2 ^ 64"
proof -
  from assms(1) obtain objs cs where i: "map_of (ss_contexts (w_shared w)) thread = Some cs"
    "gc_ready statics objs None (root_handles thread c w)" unfolding plus_inv_def by auto
  have "roots_in thread (root_handles thread c w) = handle_values c"
    unfolding root_handles_def by (rule roots_in_set_roots[OF i(1)])
  then have "p \<in> objs"
    using assms(2) roots_in_subset[of thread "root_handles thread c w"] gc_readyD(7)[OF i(2)] by auto
  then show ?thesis by (rule object_bound[OF i(2)])
qed

lemma allocated_handles:
  assumes "plus_inv statics thread c' w'" "handle_values c' = map f (handle_values c) @ [obj]"
  shows "loaded c'" "length (pc_refs c') = length (pc_refs c) + 1"
    "\<forall>p \<in> set (take (length (pc_refs c)) (handle_values c')). p < 2 ^ 64"
proof -
  have "length (handle_values c') = length (handle_values c) + 1" unfolding assms(2) by simp
  then show "length (pc_refs c') = length (pc_refs c) + 1" by simp
qed (use assms(1) plus_inv_bound[OF assms(1)] in \<open>auto simp: plus_inv_def dest: in_set_takeD\<close>)

text \<open>A request that fits beside the live objects has a size that is representable.\<close>

lemma plus_request_bound:
  assumes "plus_inv statics thread c w"
    and "alloc_need sz \<le> fresh_room (pt_nr_pages (mm_page_table (ss_mm (w_shared w))))"
  shows "sz < 2 ^ 64"
proof -
  from assms(1) obtain objs where "gc_ready statics objs None (root_handles thread c w)" unfolding plus_inv_def by auto
  then show ?thesis by (rule request_bound) (use assms(2) in \<open>simp add: root_handles_def\<close>)
qed

text \<open>
  C5: Allocation through root references is safe, over a collection too. Let a thread hold loaded root
  references to objects of a heap that is ready for a cycle, and allocate a value of a static type of
  \<open>cells\<close> words, with all its references in the safepoint and room for the value beside the objects
  that the references keep alive. Then \<open>alloc\<close> returns an object without a panic: its data reads as
  exactly the cells that the closure returned; every reference is loaded and refers to its old
  object, moved by \<open>f\<close> with kind, size, data and pointers kept (\<open>f\<close> is the identity when there was
  room at once); and heap and references are again fit for the next operation.
\<close>

theorem heap_alloc_safe:
  assumes "plus_inv statics thread c w" "kernel_ok os" "schedules_ok schedule" "gc_init gc = gc_init None"
    and "distinct hs" "set hs = {..<length (pc_refs c)}"
    and "get_type statics types_new ty = Inr (Some (StaticallyKnown d))" "descriptor_ok d" "\<not> desc_is_array d"
    and "desc_size d = 8 * cells" "8 dvd extra" "init_ok statics ty cells init (length (pc_refs c))"
    and "(\<Sum>x \<in> live_objects statics (root_handles thread c w). alloc_need (size_of statics (w_memory w) x)) +
      alloc_need (8 * cells + METADATA_SIZE + extra) + BASE_PAGE_SIZE \<le>
      fresh_room (pt_nr_pages (mm_page_table (ss_mm (w_shared w))))"
  shows "\<exists>f w' c' obj. heap_alloc overflow_checks statics (collect_and_wait (types_ops statics) checks os schedule gc) thread hs ty extra init w c =
      Inr (w', c', Some obj) \<and> plus_inv statics thread c' w' \<and>
    read_value (w_memory w') (object_data obj) cells = init c' \<and> handle_values c' = map f (handle_values c) @ [obj] \<and>
    (\<forall>p \<in> set (handle_values c). relocated statics (w_memory w) (w_memory w') f p)"
proof -
  let ?put = "\<lambda>c. alloc_init (init c)"
  note l = static_alloc_size[OF assms(7,8)]
  have size: "get_size_of_alloc True (types_ops statics) (ss_type_manager (w_shared w)) (Typed ty) = Inr (8 * cells + METADATA_SIZE)"
    using l(2) assms(9,10) plus_request_bound[OF assms(1), of "8 * cells + METADATA_SIZE + extra"] assms(13) by simp
  have n: "8 * cells + METADATA_SIZE + extra = 8 * cells + extra + METADATA_SIZE" "8 dvd 8 * cells + extra"
    using assms(11) by simp_all
  from assms(1-6) l(1) init_ok_writer[OF assms(12)] size n assms(13) obtain f w' c' obj where
    r: "heap_alloc_with overflow_checks statics (collect_and_wait (types_ops statics) checks os schedule gc) thread hs ty extra ?put w c =
      Inr (w', c', Some obj)" "allocated_value statics thread ty ?put f w c w' c' obj"
    by (rule heap_alloc_with_safe)
  then obtain m where a: "plus_inv statics thread c' w'" "handle_values c' = map f (handle_values c) @ [obj]"
    "\<forall>p \<in> set (handle_values c). relocated statics (w_memory w) (w_memory w') f p" "w_memory w' = alloc_init (init c') m obj"
    unfolding allocated_value_def by blast
  have "length (init c') = cells"
    using assms(12) allocated_handles[OF a(1,2)] unfolding init_ok_def by blast
  then have "read_value (w_memory w') (object_data obj) cells = init c'"
    unfolding a(4) alloc_init_def using read_write_value by blast
  with r(1) a(1-3) static_type_id[OF assms(7)] show ?thesis by (auto simp: heap_alloc_def)
qed

definition one_root :: plus_context where
  "one_root = \<lparr>pc_inner = \<lparr>in_set = [None], used_map = [True], stored_count = 0, exist_count = 1\<rparr>,
     pc_refs = [\<lparr>rf_ptr = Some 2097152, rf_idx = 0\<rparr>]\<rparr>"

definition link_first :: "plus_context \<Rightarrow> 64 word list" where
  "link_first c = [word_of_nat (handle_values c ! 0), 7]"

lemma one_root_world: "root_handles 1 one_root sample_world = sample_world"
  by (simp add: root_handles_def handle_values_def one_root_def sample_world_def set_roots_def)

lemma one_root_inv: "plus_inv sample_statics 1 one_root sample_world"
proof -
  have "ctx_inv one_root"
    by (auto simp: ctx_inv_def inner_inv_def refs_inv_def one_root_def)
  moreover have "loaded one_root" by (simp add: loaded_def one_root_def)
  ultimately show ?thesis
    unfolding plus_inv_def one_root_world using sample_world_ready sample_world_allocated
    by (auto simp: sample_world_def)
qed


lemma two_handles:
  assumes "loaded c \<and> length (pc_refs c) = 1 + 1 \<and> (\<forall>p \<in> set (take 1 (handle_values c)). p < 2 ^ 64)"
  obtains p q where "handle_values c = [p, q]" "p < 2 ^ 64"
proof -
  from assms have "length (handle_values c) = Suc (Suc 0)" by simp
  then obtain p q where "handle_values c = [p, q]" by (auto simp: length_Suc_conv simp del: handle_values_length)
  with assms that show thesis by simp
qed

lemma link_first_ok: "init_ok sample_statics 4096 2 link_first 1"
  unfolding init_ok_def
proof (intro allI impI)
  fix c assume "loaded c \<and> length (pc_refs c) = 1 + 1 \<and> (\<forall>p \<in> set (take 1 (handle_values c)). p < 2 ^ 64)"
  then obtain p q where "handle_values c = [p, q]" "p < 2 ^ 64" by (rule two_handles)
  then show "static_value sample_statics 4096 (link_first c) (set (take 1 (handle_values c))) \<and> length (link_first c) = 2"
    by (simp add: static_value_def sample_type link_first_def descriptor_ok_def offsets_fit_def descriptor_new_def
        METADATA_SIZE_def unsigned_of_nat take_bit_nat_eq_self)
qed

theorem heap_alloc_safe_witness:
  "\<exists>w' c' obj. heap_alloc True sample_statics (collect_and_wait (types_ops sample_statics) True sample_kernel eager_schedule None) 1 [0] 4096 0
      link_first sample_world one_root = Inr (w', c', Some obj) \<and>
    read_value (w_memory w') (object_data obj) 2 = link_first c' \<and> length (handle_values c') = 2"
proof -
  let ?d = "descriptor_new (Borrowed [0]) 16"
  have room: "(\<Sum>x \<in> live_objects sample_statics sample_world. alloc_need (size_of sample_statics (w_memory sample_world) x)) +
      alloc_need (8 * 2 + METADATA_SIZE + 0) + BASE_PAGE_SIZE \<le>
      fresh_room (pt_nr_pages (mm_page_table (ss_mm (w_shared sample_world))))"
    using sample_live_sum by (simp add: sample_world_def fresh_room_def BASE_PAGE_SIZE_def alloc_need_def
        page_table_new_def METADATA_SIZE_def)
  have d: "descriptor_ok ?d" "\<not> desc_is_array ?d" "desc_size ?d = 8 * 2"
    by (simp_all add: descriptor_ok_def offsets_fit_def descriptor_new_def)
  have k: "length (pc_refs one_root) = 1" by (simp add: one_root_def)
  from heap_alloc_safe[OF one_root_inv sample_kernel_ok eager_schedule_ok refl _ _ sample_type d, unfolded one_root_world k,
      of "[0]" 0 link_first True True, OF _ _ _ link_first_ok room] show ?thesis
    by (fastforce simp: lessThan_Suc k)
qed

text \<open>
  C15: The same holds of arrays. An array of \<open>len\<close> elements of \<open>k\<close> words each, whose size is
  representable, is allocated with room for all its elements; it reports length \<open>len\<close> and its
  elements read, in order, as the values that \<open>init\<close> returned; and references and heap are as after
  \<open>alloc\<close>.
\<close>

theorem heap_alloc_array_safe:
  assumes "plus_inv statics thread c w" "kernel_ok os" "schedules_ok schedule" "gc_init gc = gc_init None"
    and "distinct hs" "set hs = {..<length (pc_refs c)}"
    and "get_type statics types_new ty = Inr (Some (StaticallyKnown d))" "descriptor_ok d" "desc_is_array d"
    and "desc_size d = 8 * k" "8 dvd extra" "elements_ok statics ty k len init (length (pc_refs c))"
    and "len < 2 ^ 64" "8 * k * len + extra < 2 ^ 64"
    and "(\<Sum>x \<in> live_objects statics (root_handles thread c w). alloc_need (size_of statics (w_memory w) x)) +
      alloc_need (ARRAY_HEADER_SIZE + METADATA_SIZE + (8 * k * len + extra)) + BASE_PAGE_SIZE \<le>
      fresh_room (pt_nr_pages (mm_page_table (ss_mm (w_shared w))))"
  shows "\<exists>f w' c' obj. heap_alloc_array overflow_checks statics (collect_and_wait (types_ops statics) checks os schedule gc)
      thread hs ty extra init len (8 * k) w c = Inr (w', c', Some obj) \<and> plus_inv statics thread c' w' \<and>
    array_len (w_memory w') obj = len \<and>
    map (\<lambda>a. read_value (w_memory w') a k) (array_slice (8 * k) (w_memory w') obj) = init c' \<and>
    handle_values c' = map f (handle_values c) @ [obj] \<and>
    (\<forall>p \<in> set (handle_values c). relocated statics (w_memory w) (w_memory w') f p)"
proof -
  let ?put = "\<lambda>c. alloc_array_init (8 * k) len (init c)" and ?bytes = "8 * k * len + extra"
  note l = static_alloc_size[OF assms(7,8)]
  have size: "get_size_of_alloc True (types_ops statics) (ss_type_manager (w_shared w)) (Typed ty) =
      Inr (ARRAY_HEADER_SIZE + METADATA_SIZE)" using l(2) assms(9) by (simp add: ARRAY_HEADER_SIZE_def METADATA_SIZE_def)
  have n: "ARRAY_HEADER_SIZE + METADATA_SIZE + ?bytes = ARRAY_HEADER_SIZE + 8 * k * len + extra + METADATA_SIZE"
    "8 dvd ARRAY_HEADER_SIZE + 8 * k * len + extra" using assms(11) by (simp_all add: ARRAY_HEADER_SIZE_def)
  from assms(1-6) l(1) elements_ok_writer[OF assms(12,13)] size n assms(15) obtain f w' c' obj where
    r: "heap_alloc_with overflow_checks statics (collect_and_wait (types_ops statics) checks os schedule gc) thread hs ty ?bytes ?put w c =
      Inr (w', c', Some obj)" "allocated_value statics thread ty ?put f w c w' c' obj"
    by (rule heap_alloc_with_safe)
  then obtain m where a: "plus_inv statics thread c' w'" "handle_values c' = map f (handle_values c) @ [obj]"
    "\<forall>p \<in> set (handle_values c). relocated statics (w_memory w) (w_memory w') f p"
    "w_memory w' = alloc_array_init (8 * k) len (init c') m obj"
    unfolding allocated_value_def by blast
  have "\<forall>v \<in> set (init c'). length v = k" "length (init c') = len"
    using assms(12) allocated_handles[OF a(1,2)] unfolding elements_ok_def array_value_def by blast+
  from array_layout[OF this(2) assms(13) this(1), of m obj, folded a(4)] this(2)
  have "array_len (w_memory w') obj = len"
    "map (\<lambda>a. read_value (w_memory w') a k) (array_slice (8 * k) (w_memory w') obj) = init c'"
    by (auto simp: Let_def a(4) intro: nth_equalityI)
  with r(1) a(1-3) static_type_id[OF assms(7)] assms(14) show ?thesis
    by (auto simp: heap_alloc_array_def usize_in_def)
qed

text \<open>
  The size of an array is not checked for overflow in release builds. A request whose byte size is
  a multiple of \<open>2 ^ 64\<close> allocates the header only, but the elements are written all the same: they
  leave the allocation, and with overflow checks the call panics.
\<close>

theorem array_size_wraps:
  assumes "8 * k * len = n * 2 ^ 64" "0 < n" "type_id_from_static ty = Inr ty"
  shows "heap_alloc_array False statics cycle thread hs ty 0 init len (8 * k) w c =
      heap_alloc_with False statics cycle thread hs ty 0 (\<lambda>c. alloc_array_init (8 * k) len (init c)) w c"
    "heap_alloc_array True statics cycle thread hs ty 0 init len (8 * k) w c = Inl Arith_Overflow"
  using assms by (simp_all add: heap_alloc_array_def usize_in_def)

definition two_links :: "plus_context \<Rightarrow> 64 word list list" where
  "two_links c = [[word_of_nat (handle_values c ! 0), 1], [0, 2]]"

lemma sample_array_type:
  "get_type sample_statics types_new 8192 = Inr (Some (StaticallyKnown (Descriptor (Borrowed [0]) [] 16 True)))"
  by (simp add: get_type_def TYPE_TYPE_MASK_def sample_statics_def)

lemma two_links_ok: "elements_ok sample_statics 8192 2 2 two_links 1"
  unfolding elements_ok_def
proof (intro allI impI)
  fix c assume "loaded c \<and> length (pc_refs c) = 1 + 1 \<and> (\<forall>p \<in> set (take 1 (handle_values c)). p < 2 ^ 64)"
  then obtain p q where "handle_values c = [p, q]" "p < 2 ^ 64" by (rule two_handles)
  then show "array_value sample_statics 8192 2 (two_links c) (set (take 1 (handle_values c))) \<and> length (two_links c) = 2"
    by (simp add: array_value_def sample_array_type two_links_def descriptor_ok_def offsets_fit_def
        METADATA_SIZE_def ARRAY_HEADER_SIZE_def unsigned_of_nat take_bit_nat_eq_self)
qed

theorem heap_alloc_array_safe_witness:
  "\<exists>w' c' obj. heap_alloc_array True sample_statics (collect_and_wait (types_ops sample_statics) True sample_kernel eager_schedule None)
      1 [0] 8192 0 two_links 2 (8 * 2) sample_world one_root = Inr (w', c', Some obj) \<and>
    array_len (w_memory w') obj = 2 \<and>
    map (\<lambda>a. read_value (w_memory w') a 2) (array_slice (8 * 2) (w_memory w') obj) = two_links c'"
proof -
  let ?d = "Descriptor (Borrowed [0]) [] 16 True"
  have room: "(\<Sum>x \<in> live_objects sample_statics sample_world. alloc_need (size_of sample_statics (w_memory sample_world) x)) +
      alloc_need (ARRAY_HEADER_SIZE + METADATA_SIZE + (8 * 2 * 2 + 0)) + BASE_PAGE_SIZE \<le>
      fresh_room (pt_nr_pages (mm_page_table (ss_mm (w_shared sample_world))))"
    using sample_live_sum by (simp add: sample_world_def fresh_room_def BASE_PAGE_SIZE_def alloc_need_def
        page_table_new_def METADATA_SIZE_def ARRAY_HEADER_SIZE_def)
  have d: "descriptor_ok ?d" "desc_is_array ?d" "desc_size ?d = 8 * 2"
    by (simp_all add: descriptor_ok_def offsets_fit_def)
  have k: "length (pc_refs one_root) = 1" by (simp add: one_root_def)
  from heap_alloc_array_safe[OF one_root_inv sample_kernel_ok eager_schedule_ok refl _ _ sample_array_type d,
      unfolded one_root_world k, of "[0]" 0 2 two_links True True, OF _ _ _ two_links_ok _ _ room] show ?thesis
    by (fastforce simp: lessThan_Suc)
qed

theorem array_size_wraps_witness:
  "heap_alloc_array True sample_statics (\<lambda>w. Inr w) 1 [] 8192 0 two_links (2 ^ 61) (8 * 1) sample_world one_root = Inl Arith_Overflow"
  by (rule array_size_wraps(2)[of 1 "2 ^ 61" 1]) (simp_all add: static_type_id[OF sample_array_type])

end
