(* ===== verification/Pipe.thy ===== *)
theory Pipe
  imports Prelude
begin

text \<open>
  \<open>uwugc/src/pipe.rs\<close>: \<open>Pipe<T>\<close> sends values of \<open>T\<close> through a pipe of the operating system, one
  value per packet. A value is its bytes, so \<open>size_of::<T>()\<close> is the length of the messages and
  an argument of \<open>pipe_read\<close>. The pipe of the system is the one \<open>pipe2\<close> documents for \<open>O_DIRECT\<close> and
  \<open>O_NONBLOCK\<close>: a bounded sequence of packets of at most \<open>PIPE_BUF\<close> bytes; packets of length 0 do
  not exist, a write or read of 0 bytes does nothing and returns 0. The lemmas show that for
  messages of 1 to \<open>PIPE_BUF\<close> bytes the type is a bounded queue (an interpretation of \<open>message_queue\<close>),
  and what happens for messages of 0 bytes.
\<close>

section \<open>The pipe of the operating system\<close>

type_synonym bytes = "8 word list"

definition PIPE_BUF :: nat where
  "PIPE_BUF = 4096"

record pipe =
  p_packets :: "bytes list"
  p_slots :: nat

datatype errno = EAGAIN | Other_Errno

function packets_of :: "bytes \<Rightarrow> bytes list" where
  "packets_of [] = []"
| "packets_of (b # bs) = take PIPE_BUF (b # bs) # packets_of (drop PIPE_BUF (b # bs))"
  by pat_completeness auto
termination
  by (relation "measure length") (auto simp: PIPE_BUF_def)

definition sys_write :: "bytes \<Rightarrow> pipe \<Rightarrow> errno + (pipe \<times> nat)" where
  "sys_write x p =
     (let room = p_slots p - length (p_packets p); sent = take room (packets_of x) in
      if x = [] then Inr (p, 0)
      else if room = 0 then Inl EAGAIN
      else Inr (p\<lparr>p_packets := p_packets p @ sent\<rparr>, length (concat sent)))"

definition sys_read :: "nat \<Rightarrow> pipe \<Rightarrow> errno + (pipe \<times> bytes)" where
  "sys_read n p =
     (if n = 0 then Inr (p, [])
      else case p_packets p of
        [] \<Rightarrow> Inl EAGAIN
      | x # rest \<Rightarrow> Inr (p\<lparr>p_packets := rest\<rparr>, take n x))"

text \<open>\<open>poll\<close> reports \<open>POLLIN\<close> and \<open>POLLOUT\<close>.\<close>

definition poll_in :: "pipe \<Rightarrow> bool" where
  "poll_in p \<longleftrightarrow> p_packets p \<noteq> []"

definition poll_out :: "pipe \<Rightarrow> bool" where
  "poll_out p \<longleftrightarrow> length (p_packets p) < p_slots p"

section \<open>\<open>Pipe<T>\<close>\<close>

text \<open>\<open>Pipe::new\<close>, with the number of packets the system holds for a pipe.\<close>

definition pipe_new :: "nat \<Rightarrow> pipe" where
  "pipe_new slots = \<lparr>p_packets = [], p_slots = slots\<rparr>"

datatype write_error = Write_Error errno bytes

definition pipe_write :: "bytes \<Rightarrow> pipe \<Rightarrow> (pipe \<times> (write_error + bytes option)) res" where
  "pipe_write data p =
     (case sys_write data p of
        Inr (p, x) \<Rightarrow> if x \<noteq> length data then Inl Explicit_Panic else Inr (p, Inr None)
      | Inl EAGAIN \<Rightarrow> Inr (p, Inr (Some data))
      | Inl e \<Rightarrow> Inr (p, Inl (Write_Error e data)))"

definition pipe_read :: "nat \<Rightarrow> pipe \<Rightarrow> (pipe \<times> (errno + bytes option)) res" where
  "pipe_read sz p =
     (case sys_read sz p of
        Inl EAGAIN \<Rightarrow> Inr (p, Inr None)
      | Inl e \<Rightarrow> Inr (p, Inl e)
      | Inr (p, bytes) \<Rightarrow> if length bytes \<noteq> sz then Inl Explicit_Panic else Inr (p, Inr (Some bytes)))"

text \<open>
  One turn of the loop of \<open>write_blocking\<close>: \<open>Waiting\<close> while \<open>poll\<close> blocks, \<open>Again\<close> with the data the
  write gave back, \<open>Finished\<close> with the result of the function.
\<close>

datatype write_turn = Waiting | Again bytes | Finished "write_error + unit"

definition write_blocking_turn :: "bytes \<Rightarrow> pipe \<Rightarrow> (pipe \<times> write_turn) res" where
  "write_blocking_turn data p =
     (if \<not> poll_out p then Inr (p, Waiting)
      else bind_res (pipe_write data p) (\<lambda>(p, r).
        Inr (p, case r of
                  Inl e \<Rightarrow> Finished (Inl e)
                | Inr (Some data) \<Rightarrow> Again data
                | Inr None \<Rightarrow> Finished (Inr ()))))"

text \<open>\<open>Drop for Pipe<T>\<close>: \<open>while let Some(_) = self.read().unwrap()\<close> when \<open>T\<close> needs to be dropped.\<close>

partial_function (option) pipe_drain :: "nat \<Rightarrow> pipe \<Rightarrow> pipe res option" where
  "pipe_drain sz p =
     (case pipe_read sz p of
        Inl e \<Rightarrow> Some (Inl e)
      | Inr (p', Inl e) \<Rightarrow> Some (Inl Unwrap_None)
      | Inr (p', Inr None) \<Rightarrow> Some (Inr p')
      | Inr (p', Inr (Some _)) \<Rightarrow> pipe_drain sz p')"

definition pipe_drop :: "bool \<Rightarrow> nat \<Rightarrow> pipe \<Rightarrow> pipe res option" where
  "pipe_drop needs_drop sz p = (if \<not> needs_drop then Some (Inr p) else pipe_drain sz p)"

section \<open>Messages of a proper size\<close>

text \<open>The interface a client relies on: a bounded queue of valid messages.\<close>

locale message_queue =
  fixes queue_ok :: "'q \<Rightarrow> bool"
    and valid :: "'m \<Rightarrow> bool"
    and contents :: "'q \<Rightarrow> 'm list"
    and full :: "'q \<Rightarrow> bool"
    and send :: "'m \<Rightarrow> 'q \<Rightarrow> ('q \<times> bool) res"
    and receive :: "'q \<Rightarrow> ('q \<times> 'm option) res"
  assumes send_room: "queue_ok q \<Longrightarrow> valid x \<Longrightarrow> \<not> full q \<Longrightarrow>
      \<exists>q'. send x q = Inr (q', True) \<and> queue_ok q' \<and> contents q' = contents q @ [x]"
    and send_full: "queue_ok q \<Longrightarrow> valid x \<Longrightarrow> full q \<Longrightarrow> send x q = Inr (q, False)"
    and receive_none: "queue_ok q \<Longrightarrow> contents q = [] \<Longrightarrow> receive q = Inr (q, None)"
    and receive_some: "queue_ok q \<Longrightarrow> contents q = x # xs \<Longrightarrow>
      \<exists>q'. receive q = Inr (q', Some x) \<and> queue_ok q' \<and> contents q' = xs"
begin

lemma send_contents:
  assumes "queue_ok q" "valid x"
  shows "\<exists>q' sent. send x q = Inr (q', sent) \<and> queue_ok q' \<and> sent = (\<not> full q) \<and>
    contents q' = contents q @ (if sent then [x] else [])"
proof (cases "full q")
  case True
  with send_full[OF assms] assms(1) show ?thesis by (intro exI[of _ q] exI[of _ False]) simp
next
  case False
  then show ?thesis using send_room[OF assms] by auto
qed

lemma receive_contents:
  assumes "queue_ok q"
  shows "\<exists>q' r. receive q = Inr (q', r) \<and> queue_ok q' \<and>
    contents q = (case r of None \<Rightarrow> [] | Some x \<Rightarrow> [x]) @ contents q' \<and> (r = None \<longleftrightarrow> contents q = [])"
proof (cases "contents q")
  case Nil
  with receive_none[OF assms] show ?thesis using assms by simp
next
  case (Cons x xs)
  then show ?thesis using receive_some[OF assms] by fastforce
qed

end

text \<open>The operations of \<open>Pipe<T>\<close> in that shape.\<close>

definition pipe_ok :: "nat \<Rightarrow> pipe \<Rightarrow> bool" where
  "pipe_ok sz p \<longleftrightarrow> (\<forall>x \<in> set (p_packets p). length x = sz) \<and> length (p_packets p) \<le> p_slots p"

definition message_ok :: "nat \<Rightarrow> bytes \<Rightarrow> bool" where
  "message_ok sz x \<longleftrightarrow> length x = sz \<and> 0 < sz \<and> sz \<le> PIPE_BUF"

definition pipe_send :: "bytes \<Rightarrow> pipe \<Rightarrow> (pipe \<times> bool) res" where
  "pipe_send x p = bind_res (pipe_write x p) (\<lambda>(p, r). Inr (p, r = Inr None))"

definition pipe_receive :: "nat \<Rightarrow> pipe \<Rightarrow> (pipe \<times> bytes option) res" where
  "pipe_receive sz p =
     bind_res (pipe_read sz p) (\<lambda>(p, r). case r of Inl _ \<Rightarrow> Inl Unwrap_None | Inr x \<Rightarrow> Inr (p, x))"

lemma packets_of_message: "message_ok sz x \<Longrightarrow> packets_of x = [x]"
  by (cases x) (auto simp: message_ok_def)

lemma pipe_write_message:
  assumes "message_ok sz x"
  shows "pipe_write x p =
    (if poll_out p then Inr (p\<lparr>p_packets := p_packets p @ [x]\<rparr>, Inr None) else Inr (p, Inr (Some x)))"
proof -
  have "x \<noteq> []" using assms unfolding message_ok_def by auto
  then show ?thesis
    by (cases "p_slots p - length (p_packets p)")
      (simp_all add: pipe_write_def sys_write_def packets_of_message[OF assms] poll_out_def)
qed

lemma pipe_read_message:
  assumes "0 < sz" "pipe_ok sz p"
  shows "pipe_read sz p =
    (case p_packets p of
       [] \<Rightarrow> Inr (p, Inr None)
     | x # rest \<Rightarrow> Inr (p\<lparr>p_packets := rest\<rparr>, Inr (Some x)))"
  using assms by (auto simp: pipe_read_def sys_read_def pipe_ok_def split: list.splits)

interpretation pipe_queue: message_queue "\<lambda>p. pipe_ok sz p \<and> 0 < sz" "message_ok sz" p_packets
    "\<lambda>p. \<not> poll_out p" pipe_send "pipe_receive sz" for sz
proof unfold_locales
  fix p x
  show "pipe_ok sz p \<and> 0 < sz \<Longrightarrow> message_ok sz x \<Longrightarrow> \<not> \<not> poll_out p \<Longrightarrow>
    \<exists>p'. pipe_send x p = Inr (p', True) \<and> (pipe_ok sz p' \<and> 0 < sz) \<and> p_packets p' = p_packets p @ [x]"
    by (auto simp: pipe_send_def pipe_write_message pipe_ok_def poll_out_def) (simp add: message_ok_def)
  show "pipe_ok sz p \<and> 0 < sz \<Longrightarrow> message_ok sz x \<Longrightarrow> \<not> poll_out p \<Longrightarrow> pipe_send x p = Inr (p, False)"
    by (simp add: pipe_send_def pipe_write_message)
next
  fix p x xs
  show "pipe_ok sz p \<and> 0 < sz \<Longrightarrow> p_packets p = [] \<Longrightarrow> pipe_receive sz p = Inr (p, None)"
    by (simp add: pipe_receive_def pipe_read_message)
  show "pipe_ok sz p \<and> 0 < sz \<Longrightarrow> p_packets p = x # xs \<Longrightarrow>
    \<exists>p'. pipe_receive sz p = Inr (p', Some x) \<and> (pipe_ok sz p' \<and> 0 < sz) \<and> p_packets p' = xs"
    by (auto simp: pipe_receive_def pipe_read_message) (simp add: pipe_ok_def)
qed

text \<open>Any sequence of sends and receives, with the values accepted and the values received.\<close>

datatype 'm queue_op = Send 'm | Receive

fun run_queue ::
    "('m \<Rightarrow> 'q \<Rightarrow> ('q \<times> bool) res) \<Rightarrow> ('q \<Rightarrow> ('q \<times> 'm option) res) \<Rightarrow> 'm queue_op list \<Rightarrow> 'q
     \<Rightarrow> ('q \<times> 'm list \<times> 'm list) res" where
  "run_queue send receive [] q = Inr (q, [], [])"
| "run_queue send receive (Send x # ops) q =
     bind_res (send x q) (\<lambda>(q, accepted).
     bind_res (run_queue send receive ops q) (\<lambda>(q, sent, got).
       Inr (q, if accepted then x # sent else sent, got)))"
| "run_queue send receive (Receive # ops) q =
     bind_res (receive q) (\<lambda>(q, r).
     bind_res (run_queue send receive ops q) (\<lambda>(q, sent, got).
       Inr (q, sent, case r of None \<Rightarrow> got | Some x \<Rightarrow> x # got)))"

context message_queue
begin

lemma run_queue_fifo:
  "queue_ok q \<Longrightarrow> \<forall>x. Send x \<in> set ops \<longrightarrow> valid x \<Longrightarrow>
   \<exists>q' sent got. run_queue send receive ops q = Inr (q', sent, got) \<and> queue_ok q' \<and>
     contents q @ sent = got @ contents q'"
proof (induction ops arbitrary: q)
  case (Cons op ops)
  show ?case
  proof (cases op)
    case (Send x)
    from send_contents[OF Cons.prems(1)] Send Cons.prems(2) obtain q1 acc where
      1: "send x q = Inr (q1, acc)" "queue_ok q1" "contents q1 = contents q @ (if acc then [x] else [])"
      by fastforce
    moreover from Cons.IH[OF 1(2)] Cons.prems(2) obtain q' sent got where
      "run_queue send receive ops q1 = Inr (q', sent, got)" "queue_ok q'" "contents q1 @ sent = got @ contents q'"
      by auto
    ultimately show ?thesis using Send by (auto split: if_splits)
  next
    case Receive
    from receive_contents[OF Cons.prems(1)] obtain q1 r where
      1: "receive q = Inr (q1, r)" "queue_ok q1"
        "contents q = (case r of None \<Rightarrow> [] | Some x \<Rightarrow> [x]) @ contents q1"
      by blast
    moreover from Cons.IH[OF 1(2)] Cons.prems(2) obtain q' sent got where
      "run_queue send receive ops q1 = Inr (q', sent, got)" "queue_ok q'" "contents q1 @ sent = got @ contents q'"
      by auto
    ultimately show ?thesis using Receive by (auto split: option.splits)
  qed
qed simp

end

text \<open>
  C32: \<open>Pipe<T>\<close> is a FIFO queue for types of 1 to \<open>PIPE_BUF\<close> bytes: no sequence of writes and reads
  panics, and the values read, followed by what is still in the pipe, are what was in the pipe
  followed by the values whose write was accepted, in order, none lost, doubled or torn.
\<close>

theorem pipe_fifo:
  assumes "pipe_ok sz p" "0 < sz" "sz \<le> PIPE_BUF" "\<forall>x. Send x \<in> set ops \<longrightarrow> length x = sz"
  shows "\<exists>p' sent got. run_queue pipe_send (pipe_receive sz) ops p = Inr (p', sent, got) \<and>
    pipe_ok sz p' \<and> p_packets p @ sent = got @ p_packets p'"
proof -
  have "\<forall>x. Send x \<in> set ops \<longrightarrow> message_ok sz x" using assms by (simp add: message_ok_def)
  from pipe_queue.run_queue_fifo[where q = p, OF _ this] assms(1,2) show ?thesis by blast
qed

theorem pipe_fifo_witness:
  "\<exists>p' sent got. run_queue pipe_send (pipe_receive 2) [Send [1, 2], Send [3, 4], Receive, Receive, Receive] (pipe_new 1) =
     Inr (p', sent, got) \<and> sent = got @ p_packets p'"
  using pipe_fifo[of 2 "pipe_new 1" "[Send [1, 2], Send [3, 4], Receive, Receive, Receive]"]
  by (auto simp: pipe_new_def pipe_ok_def PIPE_BUF_def)

section \<open>Messages of no bytes\<close>

lemma pipe_write_empty: "pipe_write [] p = Inr (p, Inr None)"
  by (simp add: pipe_write_def sys_write_def)

lemma pipe_read_empty: "pipe_read 0 p = Inr (p, Inr (Some []))"
  by (simp add: pipe_read_def sys_read_def)

lemma pipe_drain_empty: "pipe_drain 0 p = None"
proof -
  have "sz \<noteq> 0" if "pipe_drain sz p = Some r" for sz p r
    using that by (rule pipe_drain.raw_induct[rotated]) (use pipe_read_empty in \<open>fastforce split: sum.splits prod.splits option.splits\<close>)
  then show ?thesis by fastforce
qed

lemma pipe_drain_message:
  assumes "0 < sz"
  shows "pipe_ok sz p \<Longrightarrow> p_packets p = xs \<Longrightarrow> pipe_drain sz p = Some (Inr (p\<lparr>p_packets := []\<rparr>))"
proof (induction xs arbitrary: p)
  case Nil
  with assms show ?case by (subst pipe_drain.simps) (simp add: pipe_read_message)
next
  case (Cons x xs)
  have "pipe_ok sz (p\<lparr>p_packets := xs\<rparr>)" using Cons.prems by (simp add: pipe_ok_def)
  from Cons.IH[OF this] Cons.prems assms show ?case
    by (subst pipe_drain.simps) (simp add: pipe_read_message)
qed

end
