(* ===== verification/GC_Sync.thy ===== *)
theory GC_Sync
  imports Pipe
begin

text \<open>
  \<open>uwugc/src/gc_sync.rs\<close>: the reader-writer lock of the heap. Readers are mutator threads with a
  \<open>SharedGuard\<close>; they are stopped at safepoints by a page fault on the lock page. The writer counts
  the page faults it gets from \<open>userfaultfd\<close> until all registered threads are parked. The model is a
  transition system in which every access to the mutex \<open>live_threads\<close>, to the lock page, to the pipe
  and to the event queue is a step of its own: \<open>sync_step\<close> gives no state when the event is not
  possible (the thread waits or is elsewhere) and a panic when the code panics.

  \<open>size_of::<Command>()\<close> is the argument \<open>sz\<close>; the size the enum really has is 0. The lemmas hold for every
  \<open>sz\<close>. With size 0 the command of a thread that leaves while the writer holds the mutex is lost:
  \<open>lost_commands\<close> counts these, the writer gets through as long as there are none
  (\<open>writer_gets_exclusive\<close>), and never after one (\<open>lost_command_blocks_writer\<close>).
\<close>

section \<open>State\<close>

datatype lock_holder = Unlocked | By_Thread nat | By_Writer

datatype thread_pc =
    Outside         \<comment> \<open>has no guard, or a disabled one\<close>
  | Registering     \<comment> \<open>\<open>get_shared\<close>, mutex held\<close>
  | Guarded         \<comment> \<open>runs with an enabled guard and may use \<open>get\<close>\<close>
  | Parked          \<comment> \<open>blocked by the page fault in \<open>safepoint\<close>\<close>
  | Unregistering   \<comment> \<open>\<open>disable_guard\<close>, \<open>try_lock\<close> has succeeded\<close>
  | Notifying       \<comment> \<open>\<open>disable_guard\<close>, \<open>try_lock\<close> has failed, in \<open>write_blocking\<close>\<close>

datatype writer_pc =
    Idle
  | Check nat            \<comment> \<open>at the loop condition, with \<open>blocked_count\<close>\<close>
  | Poll nat
  | Read_Commands nat bool \<comment> \<open>the first inner loop; is the other descriptor ready too\<close>
  | Read_Events nat
  | Exclusive            \<comment> \<open>holds the \<open>ExclusiveGuard\<close>\<close>
  | Woken                \<comment> \<open>in \<open>drop\<close>, after \<open>zeropage\<close>, mutex still held\<close>

record gc_sync =
  live_threads :: nat
  lock :: lock_holder
  page_present :: bool
  fault_events :: nat
  gc_commands :: pipe
  threads :: "nat \<Rightarrow> thread_pc"
  writer :: writer_pc

definition gc_sync_new :: "nat \<Rightarrow> gc_sync" where
  "gc_sync_new slots =
     \<lparr>live_threads = 0, lock = Unlocked, page_present = True, fault_events = 0,
      gc_commands = pipe_new slots, threads = (\<lambda>_. Outside), writer = Idle\<rparr>"

text \<open>
  \<open>GCSync::new\<close>: the results of the system calls are arguments, in the order they are made; the first
  failure is returned.
\<close>

datatype 'e create_error =
    MappingLockPage 'e
  | InitUFFD 'e
  | CreatePipe 'e
  | RegisterUFFD 'e
  | PrefaultLockPage 'e

definition gc_sync_create ::
    "'e + nat \<Rightarrow> 'e + unit \<Rightarrow> 'e + unit \<Rightarrow> 'e + unit \<Rightarrow> 'e + unit \<Rightarrow> 'e create_error + gc_sync" where
  "gc_sync_create os_pipe os_mmap os_uffd os_populate os_register =
     (case os_pipe of
        Inl e \<Rightarrow> Inl (CreatePipe e)
      | Inr pipe_slots \<Rightarrow>
          (case os_mmap of
             Inl e \<Rightarrow> Inl (MappingLockPage e)
           | Inr _ \<Rightarrow>
               (case os_uffd of
                  Inl e \<Rightarrow> Inl (InitUFFD e)
                | Inr _ \<Rightarrow>
                    (case os_populate of
                       Inl e \<Rightarrow> Inl (PrefaultLockPage e)
                     | Inr _ \<Rightarrow>
                         (case os_register of
                            Inl e \<Rightarrow> Inl (RegisterUFFD e)
                          | Inr _ \<Rightarrow> Inr (gc_sync_new pipe_slots))))))"

text \<open>The only command, as the bytes that are sent.\<close>

definition UnregisterThread :: "nat \<Rightarrow> bytes" where
  "UnregisterThread sz = replicate sz 0"

abbreviation set_thread :: "nat \<Rightarrow> thread_pc \<Rightarrow> gc_sync \<Rightarrow> gc_sync" where
  "set_thread t pc s \<equiv> s\<lparr>threads := (threads s)(t := pc)\<rparr>"

section \<open>Readers\<close>

definition get_shared_lock :: "nat \<Rightarrow> gc_sync \<Rightarrow> gc_sync res option" where
  "get_shared_lock t s =
     (if lock s \<noteq> Unlocked then None else Some (Inr (set_thread t Registering (s\<lparr>lock := By_Thread t\<rparr>))))"

definition get_shared_count :: "nat \<Rightarrow> gc_sync \<Rightarrow> gc_sync res" where
  "get_shared_count t s =
     (if live_threads s + 1 < 2 ^ 32
      then Inr (set_thread t Guarded (s\<lparr>live_threads := live_threads s + 1, lock := Unlocked\<rparr>))
      else Inl Arith_Overflow)"

text \<open>\<open>disable_guard\<close>: \<open>try_lock\<close>, then either of its two arms.\<close>

definition disable_guard :: "nat \<Rightarrow> gc_sync \<Rightarrow> gc_sync" where
  "disable_guard t s =
     (if lock s \<noteq> Unlocked then set_thread t Notifying s
      else set_thread t Unregistering (s\<lparr>lock := By_Thread t\<rparr>))"

definition disable_guard_fast :: "nat \<Rightarrow> gc_sync \<Rightarrow> gc_sync res" where
  "disable_guard_fast t s =
     bind_res (usub (live_threads s) 1) (\<lambda>live.
       Inr (set_thread t Outside (s\<lparr>live_threads := live, lock := Unlocked\<rparr>)))"

definition disable_guard_slow :: "nat \<Rightarrow> nat \<Rightarrow> gc_sync \<Rightarrow> gc_sync res option" where
  "disable_guard_slow sz t s =
     (case write_blocking_turn (UnregisterThread sz) (gc_commands s) of
        Inl e \<Rightarrow> Some (Inl e)
      | Inr (p, Waiting) \<Rightarrow> None
      | Inr (p, Again _) \<Rightarrow> Some (Inr (s\<lparr>gc_commands := p\<rparr>))
      | Inr (p, Finished (Inl _)) \<Rightarrow> Some (Inl Unwrap_None)
      | Inr (p, Finished (Inr _)) \<Rightarrow> Some (Inr (set_thread t Outside (s\<lparr>gc_commands := p\<rparr>))))"

text \<open>\<open>safepoint\<close>: the read of the lock page returns, or faults and blocks the thread.\<close>

definition safepoint :: "nat \<Rightarrow> gc_sync \<Rightarrow> gc_sync" where
  "safepoint t s =
     (if page_present s then s else set_thread t Parked (s\<lparr>fault_events := fault_events s + 1\<rparr>))"

section \<open>The writer\<close>

text \<open>\<open>get_exclusive\<close>: take the mutex and remove the lock page.\<close>

definition exclusive_lock :: "gc_sync \<Rightarrow> gc_sync res option" where
  "exclusive_lock s =
     (if lock s \<noteq> Unlocked then None
      else Some (Inr (s\<lparr>lock := By_Writer, page_present := False, writer := Check 0\<rparr>)))"

definition exclusive_check :: "nat \<Rightarrow> gc_sync \<Rightarrow> gc_sync" where
  "exclusive_check blocked s =
     s\<lparr>writer := (if blocked < live_threads s then Poll blocked else Exclusive)\<rparr>"

definition exclusive_poll :: "nat \<Rightarrow> gc_sync \<Rightarrow> gc_sync res option" where
  "exclusive_poll blocked s =
     (let thread_activity = poll_in (gc_commands s); uffd_event = 0 < fault_events s in
      if thread_activity then Some (Inr (s\<lparr>writer := Read_Commands blocked uffd_event\<rparr>))
      else if uffd_event then Some (Inr (s\<lparr>writer := Read_Events blocked\<rparr>))
      else None)"

definition exclusive_read_command :: "nat \<Rightarrow> nat \<Rightarrow> bool \<Rightarrow> gc_sync \<Rightarrow> gc_sync res" where
  "exclusive_read_command sz blocked uffd_event s =
     bind_res (pipe_receive sz (gc_commands s)) (\<lambda>(p, action).
       let s = s\<lparr>gc_commands := p\<rparr> in
       case action of
         Some _ \<Rightarrow> bind_res (usub (live_threads s) 1) (\<lambda>live. Inr (s\<lparr>live_threads := live\<rparr>))
       | None \<Rightarrow> Inr (s\<lparr>writer := (if uffd_event then Read_Events blocked else Check blocked)\<rparr>))"

definition exclusive_read_event :: "nat \<Rightarrow> gc_sync \<Rightarrow> gc_sync" where
  "exclusive_read_event blocked s =
     (if 0 < fault_events s
      then s\<lparr>fault_events := fault_events s - 1, writer := Read_Events (blocked + 1)\<rparr>
      else s\<lparr>writer := Check blocked\<rparr>)"

text \<open>\<open>Drop for ExclusiveGuard\<close>: \<open>zeropage\<close> maps the page and wakes; then the mutex is released.\<close>

definition exclusive_zeropage :: "gc_sync \<Rightarrow> gc_sync" where
  "exclusive_zeropage s =
     s\<lparr>page_present := True, writer := Woken,
       threads := (\<lambda>t. if threads s t = Parked then Guarded else threads s t)\<rparr>"

definition exclusive_unlock :: "gc_sync \<Rightarrow> gc_sync" where
  "exclusive_unlock s = s\<lparr>lock := Unlocked, writer := Idle\<rparr>"

definition writer_step :: "nat \<Rightarrow> gc_sync \<Rightarrow> gc_sync res option" where
  "writer_step sz s =
     (case writer s of
        Idle \<Rightarrow> exclusive_lock s
      | Check blocked \<Rightarrow> Some (Inr (exclusive_check blocked s))
      | Poll blocked \<Rightarrow> exclusive_poll blocked s
      | Read_Commands blocked uffd_event \<Rightarrow> Some (exclusive_read_command sz blocked uffd_event s)
      | Read_Events blocked \<Rightarrow> Some (Inr (exclusive_read_event blocked s))
      | Exclusive \<Rightarrow> Some (Inr (exclusive_zeropage s))
      | Woken \<Rightarrow> Some (Inr (exclusive_unlock s)))"

section \<open>The transition system\<close>

datatype sync_event =
    Thread nat      \<comment> \<open>the thread goes on: \<open>get_shared\<close>, its second half, or leaving\<close>
  | Leave nat       \<comment> \<open>a guarded thread calls \<open>disable_guard\<close>\<close>
  | Safepoint nat
  | Writer

definition thread_step :: "nat \<Rightarrow> nat \<Rightarrow> gc_sync \<Rightarrow> gc_sync res option" where
  "thread_step sz t s =
     (case threads s t of
        Outside \<Rightarrow> get_shared_lock t s
      | Registering \<Rightarrow> Some (get_shared_count t s)
      | Unregistering \<Rightarrow> Some (disable_guard_fast t s)
      | Notifying \<Rightarrow> disable_guard_slow sz t s
      | Guarded \<Rightarrow> None
      | Parked \<Rightarrow> None)"

fun sync_step :: "nat \<Rightarrow> sync_event \<Rightarrow> gc_sync \<Rightarrow> gc_sync res option" where
  "sync_step sz (Thread t) s = thread_step sz t s"
| "sync_step sz (Leave t) s = (if threads s t = Guarded then Some (Inr (disable_guard t s)) else None)"
| "sync_step sz (Safepoint t) s = (if threads s t = Guarded then Some (Inr (safepoint t s)) else None)"
| "sync_step sz Writer s = writer_step sz s"

inductive sync_steps :: "nat \<Rightarrow> gc_sync \<Rightarrow> gc_sync \<Rightarrow> bool" for sz where
  sync_refl: "sync_steps sz s s"
| sync_snoc: "sync_steps sz s s' \<Longrightarrow> sync_step sz e s' = Some (Inr s'') \<Longrightarrow> sync_steps sz s s''"

definition sync_reachable :: "nat \<Rightarrow> gc_sync \<Rightarrow> bool" where
  "sync_reachable sz s \<longleftrightarrow> (\<exists>slots. sync_steps sz (gc_sync_new slots) s)"

lemmas reader_defs = get_shared_lock_def get_shared_count_def disable_guard_def disable_guard_fast_def
  safepoint_def

lemmas writer_defs = exclusive_lock_def exclusive_check_def exclusive_poll_def exclusive_read_event_def
  exclusive_zeropage_def exclusive_unlock_def

section \<open>The invariant\<close>

definition members :: "gc_sync \<Rightarrow> nat set" where
  "members s = {t. threads s t \<notin> {Outside, Registering}}"

definition parked :: "gc_sync \<Rightarrow> nat set" where
  "parked s = {t. threads s t = Parked}"

fun stopping :: "writer_pc \<Rightarrow> nat option" where
  "stopping (Check b) = Some b"
| "stopping (Poll b) = Some b"
| "stopping (Read_Commands b _) = Some b"
| "stopping (Read_Events b) = Some b"
| "stopping _ = None"

definition holds_lock :: "thread_pc \<Rightarrow> bool" where
  "holds_lock pc \<longleftrightarrow> pc = Registering \<or> pc = Unregistering"

lemma holds_lock_simps [simp]:
  "holds_lock Registering" "holds_lock Unregistering" "\<not> holds_lock Outside" "\<not> holds_lock Guarded"
  "\<not> holds_lock Parked" "\<not> holds_lock Notifying"
  by (simp_all add: holds_lock_def)

definition lock_inv :: "gc_sync \<Rightarrow> bool" where
  "lock_inv s \<longleftrightarrow>
     (\<forall>t. holds_lock (threads s t) \<longleftrightarrow> lock s = By_Thread t) \<and>
     (writer s = Idle \<longleftrightarrow> lock s \<noteq> By_Writer)"

definition count_inv :: "nat \<Rightarrow> gc_sync \<Rightarrow> bool" where
  "count_inv sz s \<longleftrightarrow>
     finite (members s) \<and> pipe_ok sz (gc_commands s) \<and>
     (sz = 0 \<longrightarrow> p_packets (gc_commands s) = [] \<and> (\<forall>b e. writer s \<noteq> Read_Commands b e)) \<and>
     card (members s) + length (p_packets (gc_commands s)) \<le> live_threads s \<and>
     (0 < sz \<longrightarrow> live_threads s = card (members s) + length (p_packets (gc_commands s)))"

definition page_inv :: "gc_sync \<Rightarrow> bool" where
  "page_inv s \<longleftrightarrow>
     (page_present s \<longleftrightarrow> writer s = Idle \<or> writer s = Woken) \<and>
     (page_present s \<longrightarrow> parked s = {} \<and> fault_events s = 0) \<and>
     (\<forall>b. stopping (writer s) = Some b \<longrightarrow> b + fault_events s = card (parked s)) \<and>
     (writer s = Exclusive \<longrightarrow> members s \<subseteq> parked s \<and> fault_events s = 0)"

definition sync_inv :: "nat \<Rightarrow> gc_sync \<Rightarrow> bool" where
  "sync_inv sz s \<longleftrightarrow> lock_inv s \<and> count_inv sz s \<and> page_inv s"

lemma sets_after:
  assumes "threads s' = (threads s)(t := pc)"
  shows "members s' = (if pc \<in> {Outside, Registering} then members s - {t} else insert t (members s))"
    "parked s' = (if pc = Parked then insert t (parked s) else parked s - {t})"
  using assms by (auto simp: members_def parked_def)

lemma sets_same:
  assumes "threads s' = threads s"
  shows "members s' = members s" "parked s' = parked s"
  using assms by (simp_all add: members_def parked_def)

lemma parked_members: "parked s \<subseteq> members s"
  by (auto simp: parked_def members_def)

lemma sync_inv_new: "sync_inv sz (gc_sync_new slots)"
  by (simp add: sync_inv_def lock_inv_def count_inv_def page_inv_def gc_sync_new_def members_def parked_def
      pipe_ok_def pipe_new_def)

lemma sync_invD:
  assumes "sync_inv sz s"
  shows "holds_lock (threads s t) \<longleftrightarrow> lock s = By_Thread t"
    "writer s = Idle \<longleftrightarrow> lock s \<noteq> By_Writer"
    "finite (members s)" "finite (parked s)" "pipe_ok sz (gc_commands s)"
    "sz = 0 \<Longrightarrow> p_packets (gc_commands s) = []"
    "sz = 0 \<Longrightarrow> writer s \<noteq> Read_Commands b e"
    "card (members s) + length (p_packets (gc_commands s)) \<le> live_threads s"
    "0 < sz \<Longrightarrow> live_threads s = card (members s) + length (p_packets (gc_commands s))"
    "page_present s \<longleftrightarrow> writer s = Idle \<or> writer s = Woken"
    "page_present s \<Longrightarrow> parked s = {}" "page_present s \<Longrightarrow> fault_events s = 0"
    "stopping (writer s) = Some b \<Longrightarrow> b + fault_events s = card (parked s)"
    "writer s = Exclusive \<Longrightarrow> members s \<subseteq> parked s" "writer s = Exclusive \<Longrightarrow> fault_events s = 0"
proof -
  note i = assms[unfolded sync_inv_def]
  then have l: "lock_inv s" and c: "count_inv sz s" and p: "page_inv s" by blast+
  show "holds_lock (threads s t) \<longleftrightarrow> lock s = By_Thread t"
    "writer s = Idle \<longleftrightarrow> lock s \<noteq> By_Writer"
    using l unfolding lock_inv_def by simp_all
  show fin: "finite (members s)" and "pipe_ok sz (gc_commands s)"
    "sz = 0 \<Longrightarrow> p_packets (gc_commands s) = []"
    "sz = 0 \<Longrightarrow> writer s \<noteq> Read_Commands b e"
    "card (members s) + length (p_packets (gc_commands s)) \<le> live_threads s"
    "0 < sz \<Longrightarrow> live_threads s = card (members s) + length (p_packets (gc_commands s))"
    using c unfolding count_inv_def by simp_all
  show "finite (parked s)" using fin parked_members finite_subset by blast
  show "page_present s \<longleftrightarrow> writer s = Idle \<or> writer s = Woken"
    "page_present s \<Longrightarrow> parked s = {}" "page_present s \<Longrightarrow> fault_events s = 0"
    "stopping (writer s) = Some b \<Longrightarrow> b + fault_events s = card (parked s)"
    "writer s = Exclusive \<Longrightarrow> members s \<subseteq> parked s" "writer s = Exclusive \<Longrightarrow> fault_events s = 0"
    using p unfolding page_inv_def by simp_all
qed

text \<open>A step of a thread that leaves the writer alone.\<close>

lemma lock_inv_keep:
  assumes "lock_inv s" "threads s' = (threads s)(t := pc)" "writer s' = writer s"
    and "holds_lock pc \<and> lock s = Unlocked \<and> lock s' = By_Thread t \<or>
      \<not> holds_lock pc \<and>
        (lock s = By_Thread t \<and> lock s' = Unlocked \<or> lock s \<noteq> By_Thread t \<and> lock s' = lock s)"
  shows "lock_inv s'"
  unfolding lock_inv_def
proof (intro conjI allI)
  have inv: "holds_lock (threads s x) \<longleftrightarrow> lock s = By_Thread x" for x
    using assms(1) unfolding lock_inv_def by simp
  fix x
  show "holds_lock (threads s' x) \<longleftrightarrow> lock s' = By_Thread x"
  proof (cases "x = t")
    case True
    with assms(4) show ?thesis unfolding assms(2) by auto
  next
    case False
    then have "threads s' x = threads s x" by (simp add: assms(2))
    with False inv[of x] assms(4) show ?thesis by (metis lock_holder.distinct(1) lock_holder.inject)
  qed
  show "writer s' = Idle \<longleftrightarrow> lock s' \<noteq> By_Writer"
    using assms(1,3,4) unfolding lock_inv_def by (metis lock_holder.distinct(3,5))
qed

lemma page_inv_keep:
  assumes "page_inv s" "parked s' = parked s" "members s' \<subseteq> members s \<or> writer s \<noteq> Exclusive"
    "writer s' = writer s" "page_present s' = page_present s" "fault_events s' = fault_events s"
  shows "page_inv s'"
  using assms by (auto simp: page_inv_def)

lemma count_inv_keep:
  assumes "count_inv sz s" "members s' = members s" "live_threads s' = live_threads s"
    "gc_commands s' = gc_commands s" "writer s' = writer s"
  shows "count_inv sz s'"
  using assms by (simp add: count_inv_def)

lemma sync_inv_get_shared_lock:
  assumes "sync_inv sz s" "threads s t = Outside" "get_shared_lock t s = Some (Inr s')"
  shows "sync_inv sz s'"
proof -
  have s': "s' = set_thread t Registering (s\<lparr>lock := By_Thread t\<rparr>)" and free: "lock s = Unlocked"
    using assms(3) by (auto simp: get_shared_lock_def split: if_splits)
  have sets: "members s' = members s" "parked s' = parked s"
    using sets_after[of s' s t Registering] assms(2) s' by (auto simp: members_def parked_def)
  have fields: "writer s' = writer s" "live_threads s' = live_threads s" "gc_commands s' = gc_commands s"
    "page_present s' = page_present s" "fault_events s' = fault_events s" "lock s' = By_Thread t"
    "threads s' = (threads s)(t := Registering)"
    by (simp_all add: s')
  have "lock_inv s'" using assms(1) unfolding sync_inv_def
    by (intro lock_inv_keep[OF _ fields(7,1)]) (simp_all add: free fields(6))
  with assms(1) count_inv_keep[OF _ sets(1) fields(2,3,1)] page_inv_keep[OF _ sets(2) _ fields(1,4,5)]
  show ?thesis unfolding sync_inv_def sets(1) by blast
qed

lemma sync_inv_get_shared_count:
  assumes "sync_inv sz s" "threads s t = Registering" "get_shared_count t s = Inr s'"
  shows "sync_inv sz s'"
proof -
  have s': "s' = set_thread t Guarded (s\<lparr>live_threads := live_threads s + 1, lock := Unlocked\<rparr>)"
    using assms(3) by (auto simp: get_shared_count_def split: if_splits)
  have lock: "lock s = By_Thread t" "writer s = Idle" 
    using sync_invD(1)[OF assms(1), where t = t] sync_invD(2)[OF assms(1)] assms(2) by simp_all
  have sets: "members s' = insert t (members s)" "parked s' = parked s" "t \<notin> members s"
    using sets_after[of s' s t Guarded] assms(2) s' by (auto simp: members_def parked_def)
  have fields: "writer s' = writer s" "live_threads s' = live_threads s + 1" "gc_commands s' = gc_commands s"
    "page_present s' = page_present s" "fault_events s' = fault_events s" "lock s' = Unlocked"
    "threads s' = (threads s)(t := Guarded)"
    by (simp_all add: s')
  have "count_inv sz s'"
    using assms(1) sets(3) unfolding sync_inv_def count_inv_def sets(1) fields by (simp add: lock(2))
  moreover have "lock_inv s'" using assms(1) unfolding sync_inv_def
    by (intro lock_inv_keep[OF _ fields(7,1)]) (simp_all add: lock fields(6))
  moreover have "page_inv s'" using assms(1) unfolding sync_inv_def
    by (intro page_inv_keep[OF _ sets(2) _ fields(1,4,5)]) (simp_all add: lock(2))
  ultimately show ?thesis unfolding sync_inv_def by blast
qed

lemma sync_inv_disable_guard:
  assumes "sync_inv sz s" "threads s t = Guarded"
  shows "sync_inv sz (disable_guard t s)"
proof -
  let ?s' = "disable_guard t s" and ?pc = "if lock s = Unlocked then Unregistering else Notifying"
  have thr: "threads ?s' = (threads s)(t := ?pc)" by (simp add: disable_guard_def)
  have sets: "members ?s' = members s" "parked ?s' = parked s"
    using sets_after[OF thr] assms(2) by (auto simp: members_def parked_def)
  have fields: "writer ?s' = writer s" "live_threads ?s' = live_threads s" "gc_commands ?s' = gc_commands s"
    "page_present ?s' = page_present s" "fault_events ?s' = fault_events s"
    "lock ?s' = (if lock s = Unlocked then By_Thread t else lock s)"
    by (simp_all add: disable_guard_def)
  have "lock s \<noteq> By_Thread t" using sync_invD(1)[OF assms(1), where t = t] assms(2) by auto
  then have "lock_inv ?s'" using assms(1) unfolding sync_inv_def
    by (intro lock_inv_keep[OF _ thr]) (auto simp: fields(1,6))
  then show ?thesis
    using assms(1) count_inv_keep[OF _ sets(1) fields(2,3,1)] page_inv_keep[OF _ sets(2) _ fields(1,4,5)]
    unfolding sync_inv_def sets(1) by blast
qed

lemma sync_inv_disable_guard_fast:
  assumes "sync_inv sz s" "threads s t = Unregistering" "disable_guard_fast t s = Inr s'"
  shows "sync_inv sz s'"
proof -
  have s': "s' = set_thread t Outside (s\<lparr>live_threads := live_threads s - 1, lock := Unlocked\<rparr>)" "1 \<le> live_threads s"
    using assms(3) by (auto simp: disable_guard_fast_def bind_res_eq_Inr usub_eq_Inr)
  have lock: "lock s = By_Thread t" "writer s = Idle" 
    using sync_invD(1)[OF assms(1), where t = t] sync_invD(2)[OF assms(1)] assms(2) by simp_all
  have sets: "members s' = members s - {t}" "parked s' = parked s" "t \<in> members s"
    using sets_after[of s' s t Outside] assms(2) s'(1) by (auto simp: members_def parked_def)
  have fields: "writer s' = writer s" "live_threads s' = live_threads s - 1" "gc_commands s' = gc_commands s"
    "page_present s' = page_present s" "fault_events s' = fault_events s" "lock s' = Unlocked"
    "threads s' = (threads s)(t := Outside)"
    by (simp_all add: s'(1))
  have "card (members s) = Suc (card (members s - {t}))"
    using card_Suc_Diff1[OF sync_invD(3)[OF assms(1)] sets(3)] by (rule sym)
  then obtain n where n: "card (members s) = Suc n" "card (members s - {t}) = n" by simp
  have "count_inv sz s'"
    unfolding count_inv_def sets(1) fields lock(2) n
  proof (intro conjI impI allI)
    show "n + length (p_packets (gc_commands s)) \<le> live_threads s - 1"
      using sync_invD(8)[OF assms(1)] unfolding n by linarith
    show "0 < sz \<Longrightarrow> live_threads s - 1 = n + length (p_packets (gc_commands s))"
      using sync_invD(9)[OF assms(1)] unfolding n by linarith
  qed (use sync_invD(3,5,6)[OF assms(1)] in \<open>blast | simp\<close>)+
  moreover have "lock_inv s'" using assms(1) unfolding sync_inv_def
    by (intro lock_inv_keep[OF _ fields(7,1)]) (simp_all add: lock fields(6))
  moreover have "page_inv s'" using assms(1) unfolding sync_inv_def
    by (intro page_inv_keep[OF _ sets(2) _ fields(1,4,5)]) (simp_all add: lock(2))
  ultimately show ?thesis unfolding sync_inv_def by blast
qed

definition command_sent :: "nat \<Rightarrow> pipe \<Rightarrow> pipe" where
  "command_sent sz p = p\<lparr>p_packets := p_packets p @ (if sz = 0 then [] else [UnregisterThread sz])\<rparr>"

lemma disable_guard_slow_eq:
  assumes "sz \<le> PIPE_BUF"
  shows "disable_guard_slow sz t s =
    (if poll_out (gc_commands s)
     then Some (Inr (set_thread t Outside (s\<lparr>gc_commands := command_sent sz (gc_commands s)\<rparr>))) else None)"
proof (cases "sz = 0")
  case True
  then show ?thesis
    by (simp add: disable_guard_slow_def write_blocking_turn_def UnregisterThread_def pipe_write_empty command_sent_def)
next
  case False
  then have "message_ok sz (UnregisterThread sz)" using assms by (simp add: message_ok_def UnregisterThread_def)
  then show ?thesis using False
    by (simp add: disable_guard_slow_def write_blocking_turn_def pipe_write_message command_sent_def)
qed

lemma pipe_ok_sent: "pipe_ok sz p \<Longrightarrow> poll_out p \<Longrightarrow> pipe_ok sz (command_sent sz p)"
  by (auto simp: pipe_ok_def command_sent_def poll_out_def UnregisterThread_def)

lemma length_sent: "length (p_packets (command_sent sz p)) = length (p_packets p) + (if sz = 0 then 0 else 1)"
  by (simp add: command_sent_def)

lemma sync_inv_disable_guard_slow:
  assumes "sync_inv sz s" "threads s t = Notifying" "disable_guard_slow sz t s = Some (Inr s')" "sz \<le> PIPE_BUF"
  shows "sync_inv sz s'"
proof -
  have s': "s' = set_thread t Outside (s\<lparr>gc_commands := command_sent sz (gc_commands s)\<rparr>)" "poll_out (gc_commands s)"
    using assms(3) by (auto simp: disable_guard_slow_eq[OF assms(4)] split: if_splits)
  have fields: "writer s' = writer s" "live_threads s' = live_threads s" "gc_commands s' = command_sent sz (gc_commands s)"
    "page_present s' = page_present s" "fault_events s' = fault_events s" "lock s' = lock s"
    "threads s' = (threads s)(t := Outside)"
    by (simp_all add: s'(1))
  have sets: "members s' = members s - {t}" "parked s' = parked s" "t \<in> members s"
    using sets_after[OF fields(7)] assms(2) by (auto simp: members_def parked_def)
  have lock: "lock s \<noteq> By_Thread t"
    using sync_invD(1)[OF assms(1), where t = t] assms(2) by auto
  have "card (members s) = Suc (card (members s - {t}))"
    using card_Suc_Diff1[OF sync_invD(3)[OF assms(1)] sets(3)] by (rule sym)
  then obtain n where n: "card (members s) = Suc n" "card (members s - {t}) = n" by simp
  have "count_inv sz s'"
    unfolding count_inv_def sets(1) fields(1,2,3) n length_sent
  proof (intro conjI impI allI)
    show "n + (length (p_packets (gc_commands s)) + (if sz = 0 then 0 else 1)) \<le> live_threads s"
      using sync_invD(8)[OF assms(1)] unfolding n by simp
    show "0 < sz \<Longrightarrow> live_threads s = n + (length (p_packets (gc_commands s)) + (if sz = 0 then 0 else 1))"
      using sync_invD(9)[OF assms(1)] unfolding n by simp
    show "pipe_ok sz (command_sent sz (gc_commands s))"
      using sync_invD(5)[OF assms(1)] s'(2) by (rule pipe_ok_sent)
    show "p_packets (command_sent sz (gc_commands s)) = []" if "sz = 0"
      using sync_invD(6)[OF assms(1) that] that by (simp add: command_sent_def)
    show "writer s \<noteq> Read_Commands b e" if "sz = 0" for b e using sync_invD(7)[OF assms(1) that] .
    show "finite (members s - {t})" using sync_invD(3)[OF assms(1)] by simp
  qed
  moreover have "lock_inv s'" using assms(1) unfolding sync_inv_def
    by (intro lock_inv_keep[OF _ fields(7,1)]) (simp_all add: lock fields(6))
  moreover have "page_inv s'" using assms(1) unfolding sync_inv_def
    by (intro page_inv_keep[OF _ sets(2) _ fields(1,4,5)]) (simp_all add: sets(1))
  ultimately show ?thesis unfolding sync_inv_def by blast
qed

lemma sync_inv_safepoint:
  assumes "sync_inv sz s" "threads s t = Guarded"
  shows "sync_inv sz (safepoint t s)"
proof (cases "page_present s")
  case True
  then show ?thesis using assms(1) by (simp add: safepoint_def)
next
  case False
  let ?s' = "safepoint t s"
  have fields: "writer ?s' = writer s" "live_threads ?s' = live_threads s" "gc_commands ?s' = gc_commands s"
    "page_present ?s' = page_present s" "fault_events ?s' = fault_events s + 1" "lock ?s' = lock s"
    "threads ?s' = (threads s)(t := Parked)"
    using False by (simp_all add: safepoint_def)
  have sets: "members ?s' = members s" "parked ?s' = insert t (parked s)" "t \<in> members s" "t \<notin> parked s"
    using sets_after[OF fields(7)] assms(2) by (auto simp: members_def parked_def)
  have lock: "lock s \<noteq> By_Thread t"
    using sync_invD(1)[OF assms(1), where t = t] assms(2) by auto
  have card: "card (insert t (parked s)) = Suc (card (parked s))"
    using sync_invD(4)[OF assms(1)] sets(4) by (rule card_insert_disjoint)
  have "page_inv ?s'"
    unfolding page_inv_def fields(1,4,5) sets(1,2) card
  proof (intro conjI allI impI)
    show "page_present s \<longleftrightarrow> writer s = Idle \<or> writer s = Woken" using sync_invD(10)[OF assms(1)] .
    show "b + (fault_events s + 1) = Suc (card (parked s))" if "stopping (writer s) = Some b" for b
      using sync_invD(13)[OF assms(1) that] by simp
    show "members s \<subseteq> insert t (parked s)" if "writer s = Exclusive"
      using sync_invD(14)[OF assms(1) that] by blast
    show "fault_events s + 1 = 0" if "writer s = Exclusive"
      using sync_invD(14)[OF assms(1) that] sets(3,4) by blast
  qed (use False in simp_all)
  moreover have "lock_inv ?s'" using assms(1) unfolding sync_inv_def
    by (intro lock_inv_keep[OF _ fields(7,1)]) (simp_all add: lock fields(6))
  ultimately show ?thesis
    using assms(1) count_inv_keep[OF _ sets(1) fields(2,3,1)] unfolding sync_inv_def by blast
qed

text \<open>The steps of the writer keep the invariant and do not panic.\<close>

lemma lock_inv_writer:
  assumes "lock_inv s" "threads s' = threads s" "lock s' = lock s" "writer s \<noteq> Idle" "writer s' \<noteq> Idle"
  shows "lock_inv s'"
  using assms by (simp add: lock_inv_def)

lemma sync_inv_exclusive_lock:
  assumes "sync_inv sz s" "writer s = Idle" "exclusive_lock s = Some r"
  shows "\<exists>s'. r = Inr s' \<and> sync_inv sz s'"
proof -
  have free: "lock s = Unlocked" and r: "r = Inr (s\<lparr>lock := By_Writer, page_present := False, writer := Check 0\<rparr>)"
    using assms(3) by (auto simp: exclusive_lock_def split: if_splits)
  let ?s' = "s\<lparr>lock := By_Writer, page_present := False, writer := Check 0\<rparr>"
  have sets: "members ?s' = members s" "parked ?s' = parked s" by (simp_all add: members_def parked_def)
  have "page_present s" using sync_invD(10)[OF assms(1)] assms(2) by simp
  then have "page_inv ?s'" using sync_invD(11,12)[OF assms(1)] by (simp add: page_inv_def sets)
  moreover have "lock_inv ?s'" using assms(1) free unfolding sync_inv_def lock_inv_def by simp
  moreover have "count_inv sz ?s'" using assms(1) unfolding sync_inv_def count_inv_def sets by simp
  ultimately show ?thesis using r by (simp add: sync_inv_def)
qed

lemma stopping_not_idle: "stopping pc = Some b \<Longrightarrow> pc \<noteq> Idle \<and> pc \<noteq> Woken \<and> pc \<noteq> Exclusive"
  by (cases pc) simp_all

lemma sync_inv_go:
  assumes "sync_inv sz s" "stopping (writer s) = Some b" "stopping pc = Some b"
    "sz = 0 \<Longrightarrow> \<forall>c e. pc \<noteq> Read_Commands c e"
  shows "sync_inv sz (s\<lparr>writer := pc\<rparr>)"
proof -
  let ?s' = "s\<lparr>writer := pc\<rparr>"
  have sets: "members ?s' = members s" "parked ?s' = parked s" by (simp_all add: members_def parked_def)
  note pcs = stopping_not_idle[OF assms(2)] stopping_not_idle[OF assms(3)]
  have "\<not> page_present s" using sync_invD(10)[OF assms(1)] pcs by simp
  then have "page_inv ?s'"
    unfolding page_inv_def sets using sync_invD(13)[OF assms(1,2)] assms(3) pcs by simp
  moreover have "lock_inv ?s'" using assms(1) pcs unfolding sync_inv_def by - (rule lock_inv_writer[of s], simp_all)
  moreover have "count_inv sz ?s'"
    using assms(1,4) unfolding sync_inv_def count_inv_def sets by simp
  ultimately show ?thesis by (simp add: sync_inv_def)
qed

lemma sync_inv_exclusive_check:
  assumes "sync_inv sz s" "writer s = Check b"
  shows "sync_inv sz (exclusive_check b s)"
proof (cases "b < live_threads s")
  case True
  then show ?thesis using sync_inv_go[OF assms(1), of b "Poll b"] assms(2) by (simp add: exclusive_check_def)
next
  case False
  let ?s' = "s\<lparr>writer := Exclusive\<rparr>"
  have sets: "members ?s' = members s" "parked ?s' = parked s" by (simp_all add: members_def parked_def)
  note inv = sync_invD(3,8)[OF assms(1)] sync_invD(13)[OF assms(1), of b]
  have b: "b + fault_events s = card (parked s)" using inv(3) assms(2) by simp
  have le: "card (parked s) \<le> card (members s)" using parked_members inv(1) by (rule card_mono[rotated])
  have "fault_events s = 0" "card (members s) \<le> card (parked s)" using b le inv(2) False by linarith+
  then have "parked s = members s \<and> fault_events s = 0" using card_seteq[OF inv(1) parked_members] by blast
  moreover have "\<not> page_present s" using sync_invD(10)[OF assms(1)] assms(2) by simp
  ultimately have "page_inv ?s'" unfolding page_inv_def sets by simp
  moreover have "lock_inv ?s'" using assms unfolding sync_inv_def by - (rule lock_inv_writer[of s], simp_all)
  moreover have "count_inv sz ?s'" using assms(1) unfolding sync_inv_def count_inv_def sets by simp
  ultimately show ?thesis using False by (simp add: exclusive_check_def sync_inv_def)
qed

lemma sync_inv_exclusive_poll:
  assumes "sync_inv sz s" "writer s = Poll b" "exclusive_poll b s = Some r"
  shows "\<exists>s'. r = Inr s' \<and> sync_inv sz s'"
proof -
  have "sz = 0 \<Longrightarrow> \<not> poll_in (gc_commands s)" using sync_invD(6)[OF assms(1)] by (simp add: poll_in_def)
  then show ?thesis
    using assms(3) sync_inv_go[OF assms(1), of b "Read_Commands b (0 < fault_events s)"]
      sync_inv_go[OF assms(1), of b "Read_Events b"] assms(2)
    by (auto simp: exclusive_poll_def Let_def split: if_splits)
qed

lemma exclusive_read_command_eq:
  assumes "sync_inv sz s" "writer s = Read_Commands b e"
  shows "exclusive_read_command sz b e s = Inr
    (case p_packets (gc_commands s) of
       [] \<Rightarrow> s\<lparr>writer := (if e then Read_Events b else Check b)\<rparr>
     | x # xs \<Rightarrow> s\<lparr>gc_commands := (gc_commands s)\<lparr>p_packets := xs\<rparr>, live_threads := live_threads s - 1\<rparr>)"
proof -
  have "0 < sz" using sync_invD(7)[OF assms(1), of b e] assms(2) by auto
  then have read: "pipe_read sz (gc_commands s) =
    (case p_packets (gc_commands s) of
       [] \<Rightarrow> Inr (gc_commands s, Inr None)
     | x # rest \<Rightarrow> Inr ((gc_commands s)\<lparr>p_packets := rest\<rparr>, Inr (Some x)))"
    using sync_invD(5)[OF assms(1)] by (rule pipe_read_message)
  show ?thesis
  proof (cases "p_packets (gc_commands s)")
    case Nil
    then show ?thesis by (simp add: exclusive_read_command_def pipe_receive_def read)
  next
    case (Cons x xs)
    then have "1 \<le> live_threads s" using sync_invD(8)[OF assms(1)] by simp
    with Cons show ?thesis by (simp add: exclusive_read_command_def pipe_receive_def read)
  qed
qed

lemma sync_inv_exclusive_read_command:
  assumes "sync_inv sz s" "writer s = Read_Commands b e"
  shows "\<exists>s'. exclusive_read_command sz b e s = Inr s' \<and> sync_inv sz s'"
proof (cases "p_packets (gc_commands s)")
  case Nil
  have "sync_inv sz (s\<lparr>writer := Read_Events b\<rparr>)" "sync_inv sz (s\<lparr>writer := Check b\<rparr>)"
    using assms by (auto intro!: sync_inv_go[of sz s b])
  then show ?thesis using Nil by (simp add: exclusive_read_command_eq[OF assms])
next
  case (Cons x xs)
  let ?s' = "s\<lparr>gc_commands := (gc_commands s)\<lparr>p_packets := xs\<rparr>, live_threads := live_threads s - 1\<rparr>"
  have sets: "members ?s' = members s" "parked ?s' = parked s" by (simp_all add: members_def parked_def)
  have "0 < sz" using sync_invD(7)[OF assms(1), of b e] assms(2) by auto
  moreover have "pipe_ok sz ((gc_commands s)\<lparr>p_packets := xs\<rparr>)"
    using sync_invD(5)[OF assms(1)] Cons by (simp add: pipe_ok_def)
  ultimately have "count_inv sz ?s'"
    using sync_invD(3,9)[OF assms(1)] Cons unfolding count_inv_def sets by simp
  moreover have "lock_inv ?s'" using assms unfolding sync_inv_def by - (rule lock_inv_writer[of s], simp_all)
  moreover have "page_inv ?s'" using assms(1) unfolding sync_inv_def page_inv_def sets by simp
  ultimately show ?thesis using Cons by (simp add: exclusive_read_command_eq[OF assms] sync_inv_def)
qed

lemma sync_inv_exclusive_read_event:
  assumes "sync_inv sz s" "writer s = Read_Events b"
  shows "sync_inv sz (exclusive_read_event b s)"
proof (cases "0 < fault_events s")
  case False
  then show ?thesis using sync_inv_go[OF assms(1), of b "Check b"] assms(2) by (simp add: exclusive_read_event_def)
next
  case True
  let ?s' = "s\<lparr>fault_events := fault_events s - 1, writer := Read_Events (b + 1)\<rparr>"
  have sets: "members ?s' = members s" "parked ?s' = parked s" by (simp_all add: members_def parked_def)
  have "b + fault_events s = card (parked s)" using sync_invD(13)[OF assms(1), of b] assms(2) by simp
  moreover have "\<not> page_present s" using sync_invD(10)[OF assms(1)] assms(2) by simp
  ultimately have "page_inv ?s'" unfolding page_inv_def sets using True by simp
  moreover have "lock_inv ?s'" using assms unfolding sync_inv_def by - (rule lock_inv_writer[of s], simp_all)
  moreover have "count_inv sz ?s'" using assms(1) unfolding sync_inv_def count_inv_def sets by simp
  ultimately show ?thesis using True by (simp add: exclusive_read_event_def sync_inv_def)
qed

lemma sync_inv_exclusive_zeropage:
  assumes "sync_inv sz s" "writer s = Exclusive"
  shows "sync_inv sz (exclusive_zeropage s)"
proof -
  let ?s' = "exclusive_zeropage s"
  have sets: "members ?s' = members s" "parked ?s' = {}"
    by (auto simp: exclusive_zeropage_def members_def parked_def)
  have "page_inv ?s'" unfolding page_inv_def sets
    using sync_invD(15)[OF assms(1,2)] by (simp add: exclusive_zeropage_def)
  moreover have "holds_lock (threads ?s' t) = holds_lock (threads s t)" for t by (simp add: exclusive_zeropage_def)
  then have "lock_inv ?s'" using assms unfolding sync_inv_def lock_inv_def by (simp add: exclusive_zeropage_def)
  moreover have "count_inv sz ?s'"
    using assms(1) unfolding sync_inv_def count_inv_def sets by (simp add: exclusive_zeropage_def)
  ultimately show ?thesis by (simp add: sync_inv_def)
qed

lemma sync_inv_exclusive_unlock:
  assumes "sync_inv sz s" "writer s = Woken"
  shows "sync_inv sz (exclusive_unlock s)"
proof -
  let ?s' = "exclusive_unlock s"
  have sets: "members ?s' = members s" "parked ?s' = parked s"
    by (simp_all add: exclusive_unlock_def members_def parked_def)
  have "page_present s" using sync_invD(10)[OF assms(1)] assms(2) by simp
  then have "page_inv ?s'" unfolding page_inv_def sets
    using sync_invD(11,12)[OF assms(1)] by (simp add: exclusive_unlock_def)
  moreover have "lock s = By_Writer" using sync_invD(2)[OF assms(1)] assms(2) by simp
  then have "lock_inv ?s'" using assms unfolding sync_inv_def lock_inv_def by (simp add: exclusive_unlock_def)
  moreover have "count_inv sz ?s'"
    using assms(1) unfolding sync_inv_def count_inv_def sets by (simp add: exclusive_unlock_def)
  ultimately show ?thesis by (simp add: sync_inv_def)
qed

lemma sync_inv_writer_step:
  assumes "sync_inv sz s" "writer_step sz s = Some r"
  shows "\<exists>s'. r = Inr s' \<and> sync_inv sz s'"
  using assms(2) sync_inv_exclusive_lock[OF assms(1)] sync_inv_exclusive_check[OF assms(1)]
    sync_inv_exclusive_poll[OF assms(1)] sync_inv_exclusive_read_command[OF assms(1)]
    sync_inv_exclusive_read_event[OF assms(1)] sync_inv_exclusive_zeropage[OF assms(1)]
    sync_inv_exclusive_unlock[OF assms(1)]
  by (cases "writer s") (auto simp: writer_step_def)

lemma sync_inv_thread_step:
  assumes "sync_inv sz s" "thread_step sz t s = Some (Inr s')" "sz \<le> PIPE_BUF"
  shows "sync_inv sz s'"
  using assms(2) sync_inv_get_shared_lock[OF assms(1), of t s'] sync_inv_get_shared_count[OF assms(1), of t s']
    sync_inv_disable_guard_fast[OF assms(1), of t s'] sync_inv_disable_guard_slow[OF assms(1) _ _ assms(3), of t s']
  by (cases "threads s t") (simp_all add: thread_step_def)

lemma sync_inv_step:
  assumes "sync_inv sz s" "sync_step sz e s = Some (Inr s')" "sz \<le> PIPE_BUF"
  shows "sync_inv sz s'"
proof (cases e)
  case (Thread t)
  then show ?thesis using sync_inv_thread_step[OF assms(1) _ assms(3)] assms(2) by simp
next
  case (Leave t)
  then show ?thesis using sync_inv_disable_guard[OF assms(1), of t] assms(2) by (auto split: if_splits)
next
  case (Safepoint t)
  then show ?thesis using sync_inv_safepoint[OF assms(1), of t] assms(2) by (auto split: if_splits)
next
  case Writer
  then show ?thesis using sync_inv_writer_step[OF assms(1)] assms(2) by fastforce
qed

lemma sync_inv_steps: "sync_steps sz s s' \<Longrightarrow> sync_inv sz s \<Longrightarrow> sz \<le> PIPE_BUF \<Longrightarrow> sync_inv sz s'"
  by (induction rule: sync_steps.induct) (simp_all add: sync_inv_step)

lemma sync_reachable_inv: "sync_reachable sz s \<Longrightarrow> sz \<le> PIPE_BUF \<Longrightarrow> sync_inv sz s"
  using sync_inv_steps sync_inv_new by (auto simp: sync_reachable_def)

lemma members_counted:
  assumes "sync_inv sz s" "t \<in> members s"
  shows "1 \<le> live_threads s"
proof -
  have "card (members s) \<noteq> 0" using sync_invD(3)[OF assms(1)] assms(2) by auto
  then show ?thesis using sync_invD(8)[OF assms(1)] by linarith
qed

section \<open>Properties\<close>

text \<open>
  The threads that are counted but neither members nor announced in the pipe. Only the sending of a
  zero-sized command changes their number.
\<close>

definition lost_commands :: "gc_sync \<Rightarrow> nat" where
  "lost_commands s = live_threads s - (card (members s) + length (p_packets (gc_commands s)))"

lemma lost_thread_step:
  assumes inv: "sync_inv sz s" and step: "thread_step sz t s = Some (Inr s')" and sz: "sz \<le> PIPE_BUF"
  shows "card (members s) + live_threads s' = card (members s') + live_threads s + (if threads s t = Notifying then 1 else 0)"
proof -
  have fin: "finite (members s)" using sync_invD(3)[OF inv] .
  have mem: "members s' = (if threads s' t \<in> {Outside, Registering} then members s - {t} else insert t (members s))"
    using step by (intro sets_after(1)) (cases "threads s t";
      auto simp: thread_step_def reader_defs disable_guard_slow_eq[OF sz] res_eq_simps usub_eq_Inr split: if_splits)
  have "t \<in> members s \<longleftrightarrow> threads s t \<notin> {Outside, Registering}" by (simp add: members_def)
  moreover have "t \<in> members s \<Longrightarrow> Suc (card (members s - {t})) = card (members s)" using card_Suc_Diff1[OF fin] .
  ultimately show ?thesis
    using step fin unfolding mem
    by (cases "threads s t")
      (auto simp: thread_step_def reader_defs disable_guard_slow_eq[OF sz] res_eq_simps usub_eq_Inr split: if_splits)
qed

lemma lost_writer_step:
  assumes inv: "sync_inv 0 s" and step: "writer_step 0 s = Some (Inr s')"
  shows "members s' = members s \<and> live_threads s' = live_threads s"
  using step sync_invD(7)[OF inv]
  by (cases "writer s") (auto simp: writer_step_def writer_defs members_def Let_def split: if_splits)

lemma lost_step:
  assumes inv: "sync_inv sz s" and step: "sync_step sz e s = Some (Inr s')" and sz: "sz \<le> PIPE_BUF"
  shows "lost_commands s' = lost_commands s + (if sz = 0 \<and> (\<exists>t. e = Thread t \<and> threads s t = Notifying) then 1 else 0)"
proof (cases "sz = 0")
  case False
  then show ?thesis
    using sync_invD(9)[OF inv] sync_invD(9)[OF sync_inv_step[OF inv step sz]] by (simp add: lost_commands_def)
next
  case True
  note empty = sync_invD(6)[OF inv True] sync_invD(6)[OF sync_inv_step[OF inv step sz] True]
  have le: "card (members s) \<le> live_threads s" using sync_invD(8)[OF inv] by simp
  show ?thesis
  proof (cases e)
    case (Thread t)
    then have "thread_step sz t s = Some (Inr s')" using step by simp
    from lost_thread_step[OF inv this sz] show ?thesis using le True Thread by (simp add: lost_commands_def empty)
  next
    case (Leave t)
    with step have "members s' = members s" "live_threads s' = live_threads s"
      by (auto simp: disable_guard_def members_def split: if_splits)
    then show ?thesis using Leave by (simp add: lost_commands_def empty)
  next
    case (Safepoint t)
    with step have "members s' = members s" "live_threads s' = live_threads s"
      by (auto simp: safepoint_def members_def split: if_splits)
    then show ?thesis using Safepoint by (simp add: lost_commands_def empty)
  next
    case Writer
    then show ?thesis using lost_writer_step[of s s'] inv step True by (simp add: lost_commands_def empty)
  qed
qed

text \<open>
  C13: The thread count is right but for lost commands. In every reachable state the counter is the number
  of threads that have a guard plus the commands on their way plus the lost ones; the lock page is
  present exactly when no writer is stopping the world or holds the guard; and as long as the counter does
  not overflow no step panics: the counter never underflows. No command is lost if commands have a size.
  With the size 0 that they have, exactly the steps in which a thread sends one lose it.
\<close>

theorem gc_sync_counts:
  assumes "sync_reachable sz s" "sz \<le> PIPE_BUF"
  shows "live_threads s = card (members s) + length (p_packets (gc_commands s)) + lost_commands s \<and>
    (0 < sz \<longrightarrow> lost_commands s = 0) \<and>
    (page_present s \<longleftrightarrow> writer s = Idle \<or> writer s = Woken) \<and>
    (live_threads s + 1 < 2 ^ 32 \<longrightarrow> (\<forall>e r. sync_step sz e s = Some r \<longrightarrow> ok r)) \<and>
    (\<forall>e s'. sync_step sz e s = Some (Inr s') \<longrightarrow> lost_commands s' = lost_commands s +
      (if sz = 0 \<and> (\<exists>t. e = Thread t \<and> threads s t = Notifying) then 1 else 0))"
proof -
  have inv: "sync_inv sz s" using assms by (rule sync_reachable_inv)
  have "ok r" if small: "live_threads s + 1 < 2 ^ 32" and step: "sync_step sz e s = Some r" for e r
  proof (cases e)
    case (Thread t)
    have "1 \<le> live_threads s" if "threads s t = Unregistering"
      using members_counted[OF inv, of t] that by (simp add: members_def)
    then show ?thesis
      using step Thread small
      by (cases "threads s t") (auto simp: thread_step_def reader_defs disable_guard_slow_eq[OF assms(2)] split: if_splits)
  next
    case (Leave t)
    then show ?thesis using step by (auto split: if_splits)
  next
    case (Safepoint t)
    then show ?thesis using step by (auto split: if_splits)
  next
    case Writer
    then show ?thesis using sync_inv_writer_step[OF inv] step by fastforce
  qed
  moreover have "live_threads s = card (members s) + length (p_packets (gc_commands s)) + lost_commands s"
    using sync_invD(8)[OF inv] by (simp add: lost_commands_def)
  moreover have "0 < sz \<Longrightarrow> lost_commands s = 0" using sync_invD(9)[OF inv] by (simp add: lost_commands_def)
  ultimately show ?thesis using sync_invD(10)[OF inv] lost_step[OF inv _ assms(2)] by blast
qed

text \<open>A run of given events, to reach concrete states.\<close>

fun sync_run :: "nat \<Rightarrow> sync_event list \<Rightarrow> gc_sync \<Rightarrow> gc_sync res option" where
  "sync_run sz [] s = Some (Inr s)"
| "sync_run sz (e # es) s =
     (case sync_step sz e s of Some (Inr s) \<Rightarrow> sync_run sz es s | r \<Rightarrow> r)"

lemma sync_steps_trans: "sync_steps sz s' s'' \<Longrightarrow> sync_steps sz s s' \<Longrightarrow> sync_steps sz s s''"
  by (induction rule: sync_steps.induct) (auto intro: sync_snoc)

lemma sync_run_steps: "sync_run sz es s = Some (Inr s') \<Longrightarrow> sync_steps sz s s'"
proof (induction es arbitrary: s)
  case Nil
  then show ?case by (simp add: sync_refl)
next
  case (Cons e es)
  then obtain s1 where "sync_step sz e s = Some (Inr s1)" "sync_run sz es s1 = Some (Inr s')"
    by (auto split: option.splits sum.splits)
  with Cons.IH show ?case using sync_steps_trans[OF _ sync_snoc[OF sync_refl]] by blast
qed

lemma sync_run_reachable: "sync_run sz es (gc_sync_new slots) = Some (Inr s) \<Longrightarrow> sync_reachable sz s"
  unfolding sync_reachable_def by (rule exI) (rule sync_run_steps)

text \<open>
  \<open>unguarded\<close>: \<open>disable_guard\<close>, the closure (whatever it returns or unwinds with), \<open>enable_guard\<close>. Without
  contention it leaves the lock as it was.
\<close>

definition unguarded_before :: "nat \<Rightarrow> sync_event list" where
  "unguarded_before t = [Leave t, Thread t]"

definition unguarded_after :: "nat \<Rightarrow> sync_event list" where
  "unguarded_after t = [Thread t, Thread t]"

lemma unguarded_restores:
  assumes "threads s t = Guarded" "lock s = Unlocked" "0 < live_threads s" "live_threads s < 2 ^ 32"
  shows "\<exists>s'. sync_run sz (unguarded_before t) s = Some (Inr s') \<and> threads s' t = Outside \<and>
    sync_run sz (unguarded_after t) s' = Some (Inr s)"
proof -
  have "s\<lparr>live_threads := live_threads s, lock := Unlocked, threads := (threads s)(t := Guarded)\<rparr> = s"
    using assms(1,2) by (cases s) (auto simp: fun_upd_idem)
  then show ?thesis
    using assms by (simp add: unguarded_before_def unguarded_after_def thread_step_def reader_defs usub_def)
qed

lemmas sync_eval = thread_step_def reader_defs writer_step_def writer_defs disable_guard_slow_def
  write_blocking_turn_def pipe_write_def sys_write_def poll_out_def poll_in_def pipe_new_def
  gc_sync_new_def UnregisterThread_def exclusive_read_command_def pipe_receive_def pipe_read_def sys_read_def
  PIPE_BUF_def

theorem gc_sync_counts_witness:
  "\<exists>s s'. sync_run 0 [Thread 7, Thread 7, Writer, Leave 7] (gc_sync_new 16) = Some (Inr s) \<and>
     card (members s) + lost_commands s = 1 \<and> \<not> page_present s \<and>
     sync_step 0 (Thread 7) s = Some (Inr s') \<and> lost_commands s' = lost_commands s + 1"
proof -
  obtain s where run: "sync_run 0 [Thread 7, Thread 7, Writer, Leave 7] (gc_sync_new 16) = Some (Inr s)"
    and s: "live_threads s = 1" "p_packets (gc_commands s) = []" "p_slots (gc_commands s) = 16" "threads s 7 = Notifying"
      "writer s = Check 0"
    by (simp add: sync_eval)
  from s obtain s' where s': "sync_step 0 (Thread 7) s = Some (Inr s')"
    by (simp add: thread_step_def disable_guard_slow_eq poll_out_def)
  from gc_sync_counts[OF sync_run_reachable[OF run]] s
  have "card (members s) + lost_commands s = 1" "\<not> page_present s"
    "\<And>e s'. sync_step 0 e s = Some (Inr s') \<Longrightarrow> lost_commands s' = lost_commands s +
      (if \<exists>t. e = Thread t \<and> threads s t = Notifying then 1 else 0)" by auto
  from this(1,2) this(3)[OF s'] s(4) run s' show ?thesis by auto
qed

text \<open>
  C10: Stop-the-world. In every reachable state in which the writer holds the \<open>ExclusiveGuard\<close>, every
  thread is outside or parked at a safepoint, and whatever the threads try, no step is possible but
  the writer's own release: no reader runs, registers or leaves while the writer has the heap.
\<close>

theorem exclusive_stops_readers:
  assumes "sync_reachable sz s" "sz \<le> PIPE_BUF" "writer s = Exclusive"
  shows "(\<forall>t. threads s t = Outside \<or> threads s t = Parked) \<and>
    (\<forall>e r. sync_step sz e s = Some r \<longrightarrow> e = Writer)"
proof -
  have inv: "sync_inv sz s" using assms(1,2) by (rule sync_reachable_inv)
  have lock: "lock s = By_Writer" using sync_invD(2)[OF inv] assms(3) by simp
  have pcs: "threads s t = Outside \<or> threads s t = Parked" for t
  proof -
    have "threads s t \<noteq> Registering" using sync_invD(1)[OF inv, where t = t] lock by auto
    moreover have "t \<in> members s \<Longrightarrow> t \<in> parked s" using sync_invD(14)[OF inv assms(3)] by blast
    ultimately show ?thesis by (auto simp: members_def parked_def)
  qed
  have no_thread: "thread_step sz t s = None" "threads s t \<noteq> Guarded" for t
    using pcs[of t] lock by (auto simp: thread_step_def get_shared_lock_def)
  have "e = Writer" if "sync_step sz e s = Some r" for e r
    using that by (cases e) (simp_all add: no_thread)
  with pcs show ?thesis by blast
qed

theorem exclusive_stops_readers_witness:
  "\<exists>s. sync_run 1 [Thread 7, Thread 7, Writer, Safepoint 7, Writer, Writer, Writer, Writer, Writer] (gc_sync_new 16) =
     Some (Inr s) \<and> threads s 7 = Parked \<and> sync_step 1 (Thread 3) s = None"
proof -
  obtain s where run: "sync_run 1 [Thread 7, Thread 7, Writer, Safepoint 7, Writer, Writer, Writer, Writer, Writer]
      (gc_sync_new 16) = Some (Inr s)"
    and s: "writer s = Exclusive" "threads s 7 = Parked"
    by (simp add: sync_eval)
  from exclusive_stops_readers[OF sync_run_reachable[OF run] _ s(1)]
  have "\<forall>e r. sync_step 1 e s = Some r \<longrightarrow> e = Writer" by (simp add: PIPE_BUF_def)
  then have "sync_step 1 (Thread 3) s = None" by (cases "sync_step 1 (Thread 3) s") blast+
  then show ?thesis using run s(2) by blast
qed

text \<open>The writer on its own, for a number of steps.\<close>

fun writer_run :: "nat \<Rightarrow> nat \<Rightarrow> gc_sync \<Rightarrow> gc_sync res option" where
  "writer_run sz 0 s = Some (Inr s)"
| "writer_run sz (Suc n) s =
     (case writer_step sz s of Some (Inr s) \<Rightarrow> writer_run sz n s | r \<Rightarrow> r)"

text \<open>
  How far the writer is from the end: what is left to read, and the program point. An inner loop
  with something to read comes first and costs least.
\<close>

definition to_read :: "gc_sync \<Rightarrow> nat" where
  "to_read s = length (p_packets (gc_commands s)) + fault_events s"

fun pc_cost :: "gc_sync \<Rightarrow> writer_pc \<Rightarrow> nat" where
  "pc_cost s (Check _) = 2"
| "pc_cost s (Poll _) = 1"
| "pc_cost s (Read_Commands _ _) = (if p_packets (gc_commands s) = [] then 4 else 0)"
| "pc_cost s (Read_Events _) = (if fault_events s = 0 then 3 else 0)"
| "pc_cost s _ = 0"

definition writer_cost :: "gc_sync \<Rightarrow> nat" where
  "writer_cost s = 5 * to_read s + pc_cost s (writer s)"

definition all_stopped :: "gc_sync \<Rightarrow> bool" where
  "all_stopped s \<longleftrightarrow> (\<forall>t. threads s t = Outside \<or> threads s t = Parked)"

text \<open>While the writer polls, the counter is above what it has counted: nobody else can lower it.\<close>

definition poll_inv :: "gc_sync \<Rightarrow> bool" where
  "poll_inv s \<longleftrightarrow> (\<forall>b. writer s = Poll b \<longrightarrow> b < live_threads s)"

lemma poll_inv_step:
  assumes "sync_inv sz s" "poll_inv s" "sync_step sz e s = Some (Inr s')" "sz \<le> PIPE_BUF"
  shows "poll_inv s'"
proof (cases e)
  case (Thread t)
  show ?thesis
  proof (cases "threads s t = Registering \<or> threads s t = Unregistering")
    case True
    then have "lock s = By_Thread t" using sync_invD(1)[OF assms(1), where t = t] by auto
    then have "writer s = Idle" using sync_invD(2)[OF assms(1)] by simp
    then show ?thesis using True assms(3) Thread
      by (auto simp: poll_inv_def thread_step_def get_shared_count_def disable_guard_fast_def bind_res_eq_Inr split: if_splits)
  next
    case False
    then show ?thesis using assms(2,3) Thread
      by (cases "threads s t")
        (auto simp: poll_inv_def thread_step_def get_shared_lock_def disable_guard_slow_eq[OF assms(4)] split: if_splits)
  qed
next
  case Writer
  show ?thesis
  proof (cases "writer s")
    case (Read_Commands b e)
    then show ?thesis using assms(3) Writer exclusive_read_command_eq[OF assms(1) Read_Commands]
      by (auto simp: poll_inv_def writer_step_def split: list.splits if_splits)
  qed (use assms(3) Writer in \<open>auto simp: poll_inv_def writer_step_def writer_defs Let_def split: if_splits\<close>)
qed (use assms(2,3) in \<open>auto simp: poll_inv_def disable_guard_def safepoint_def split: if_splits\<close>)

lemma poll_inv_steps:
  "sync_steps sz s s' \<Longrightarrow> sync_inv sz s \<Longrightarrow> poll_inv s \<Longrightarrow> sz \<le> PIPE_BUF \<Longrightarrow> poll_inv s'"
  by (induction rule: sync_steps.induct) (blast intro: poll_inv_step sync_inv_steps)+

lemma sync_reachable_poll_inv: "sync_reachable sz s \<Longrightarrow> sz \<le> PIPE_BUF \<Longrightarrow> poll_inv s"
  using poll_inv_steps[OF _ sync_inv_new] by (fastforce simp: sync_reachable_def poll_inv_def gc_sync_new_def)

lemma writer_step_closer:
  assumes inv: "sync_inv sz s" "poll_inv s" and lost: "lost_commands s = 0" and stopped: "all_stopped s" and b: "stopping (writer s) = Some b"
  shows "\<exists>s'. writer_step sz s = Some (Inr s') \<and> threads s' = threads s \<and>
    (writer s' = Exclusive \<or> stopping (writer s') \<noteq> None) \<and> writer_cost s' < writer_cost s"
proof (cases "writer s")
  case (Check b)
  then show ?thesis
    by (simp add: writer_step_def exclusive_check_def writer_cost_def to_read_def)
next
  case (Poll c)
  have "members s = parked s" using stopped by (fastforce simp: all_stopped_def members_def parked_def)
  moreover have "live_threads s = card (members s) + length (p_packets (gc_commands s))"
    using sync_invD(8)[OF inv(1)] lost by (simp add: lost_commands_def)
  moreover have "c + fault_events s = card (parked s)" using sync_invD(13)[OF inv(1), of c] Poll by simp
  moreover have "c < live_threads s" using inv(2) Poll by (simp add: poll_inv_def)
  ultimately have "0 < length (p_packets (gc_commands s)) + fault_events s" by auto
  then show ?thesis using Poll
    by (auto simp: writer_step_def exclusive_poll_def poll_in_def Let_def writer_cost_def to_read_def)
next
  case (Read_Commands c e)
  then show ?thesis using exclusive_read_command_eq[OF inv(1) Read_Commands]
    by (auto simp: writer_step_def writer_cost_def to_read_def split: list.splits)
next
  case (Read_Events c)
  then show ?thesis by (auto simp: writer_step_def exclusive_read_event_def writer_cost_def to_read_def)
qed (use b in simp_all)

lemma writer_run_exclusive:
  "sync_inv sz s \<Longrightarrow> poll_inv s \<Longrightarrow> all_stopped s \<Longrightarrow> stopping (writer s) \<noteq> None \<Longrightarrow> lost_commands s = 0 \<Longrightarrow> sz \<le> PIPE_BUF \<Longrightarrow>
   \<exists>n s'. writer_run sz n s = Some (Inr s') \<and> writer s' = Exclusive \<and> n \<le> writer_cost s"
proof (induction "writer_cost s" arbitrary: s rule: less_induct)
  case less
  then obtain b where "stopping (writer s) = Some b" by auto
  from writer_step_closer[OF less.prems(1,2,5,3) this] obtain s1 where
    s1: "writer_step sz s = Some (Inr s1)" "threads s1 = threads s"
      "writer s1 = Exclusive \<or> stopping (writer s1) \<noteq> None" "writer_cost s1 < writer_cost s"
    by blast
  show ?case
  proof (cases "writer s1 = Exclusive")
    case True
    then have "writer_run sz 1 s = Some (Inr s1)" "1 \<le> writer_cost s" using s1(1,4) by simp_all
    with True show ?thesis by blast
  next
    case False
    have step: "sync_step sz Writer s = Some (Inr s1)" using s1(1) by simp
    have "\<exists>n s'. writer_run sz n s1 = Some (Inr s') \<and> writer s' = Exclusive \<and> n \<le> writer_cost s1"
      using False s1(2,3) less.prems sync_inv_step[OF less.prems(1) step less.prems(6)]
        poll_inv_step[OF less.prems(1,2) step less.prems(6)] lost_step[OF less.prems(1) step less.prems(6)]
      by (intro less.hyps[OF s1(4)]) (simp_all add: all_stopped_def)
    then obtain n s' where "writer_run sz n s1 = Some (Inr s')" "writer s' = Exclusive" "n \<le> writer_cost s1"
      by blast
    then have "writer_run sz (Suc n) s = Some (Inr s')" "writer s' = Exclusive" "Suc n \<le> writer_cost s"
      using s1(1,4) by simp_all
    then show ?thesis by blast
  qed
qed

text \<open>
  C17: The writer gets the heap. From every reachable state in which the writer is stopping the world, no
  command has been lost and every thread has reached a safepoint or left, however the faults and the
  leavings were interleaved with the writer's reading, the loop of \<open>get_exclusive\<close> ends: a number of steps
  of the writer alone, bounded by what there is to read, gives it the guard. This holds for commands of
  every size; with the size 0 that they have, no command is lost when no thread has left while a
  writer held the mutex.
\<close>

theorem writer_gets_exclusive:
  assumes "sync_reachable sz s" "lost_commands s = 0" "sz \<le> PIPE_BUF" "stopping (writer s) \<noteq> None"
    and "\<forall>t. threads s t = Outside \<or> threads s t = Parked"
  shows "\<exists>n s'. writer_run sz n s = Some (Inr s') \<and> writer s' = Exclusive \<and>
    n \<le> 5 * (length (p_packets (gc_commands s)) + fault_events s) + 4"
proof -
  have "pc_cost s (writer s) \<le> 4" by (cases "writer s") auto
  moreover have "all_stopped s" using assms(5) by (simp add: all_stopped_def)
  note writer_run_exclusive[OF sync_reachable_inv[OF assms(1,3)] sync_reachable_poll_inv[OF assms(1,3)] this assms(4,2,3)]
  ultimately show ?thesis unfolding writer_cost_def to_read_def by (meson add_left_mono le_trans)
qed

theorem writer_gets_exclusive_witness:
  "\<exists>s n s'. sync_run 0 [Thread 7, Thread 7, Thread 5, Thread 5, Writer, Safepoint 5, Writer, Safepoint 7]
       (gc_sync_new 16) = Some (Inr s) \<and> live_threads s = 2 \<and>
     writer_run 0 n s = Some (Inr s') \<and> writer s' = Exclusive"
proof -
  obtain s where run: "sync_run 0 [Thread 7, Thread 7, Thread 5, Thread 5, Writer, Safepoint 5, Writer, Safepoint 7]
      (gc_sync_new 16) = Some (Inr s)"
    and s: "live_threads s = 2" "writer s = Poll 0" "threads s = (\<lambda>_. Outside)(5 := Parked, 7 := Parked)"
      "p_packets (gc_commands s) = []"
    by (simp add: sync_eval fun_eq_iff)
  have "members s = {5, 7}" using s(3) by (auto simp: members_def)
  then have "lost_commands s = 0" by (simp add: lost_commands_def s)
  moreover have "\<forall>t. threads s t = Outside \<or> threads s t = Parked" using s(3) by simp
  ultimately obtain n s' where "writer_run 0 n s = Some (Inr s')" "writer s' = Exclusive"
    using writer_gets_exclusive[OF sync_run_reachable[OF run]] s(2) by auto
  then show ?thesis using run s(1) by blast
qed

text \<open>The counter is above the number of registered threads, so the loop condition stays true.\<close>

definition overcounted :: "gc_sync \<Rightarrow> bool" where
  "overcounted s \<longleftrightarrow> card (members s) < live_threads s \<and> writer s \<noteq> Exclusive"

lemma overcounted_writer_step:
  assumes "sync_inv 0 s" "overcounted s" "writer_step 0 s = Some (Inr s')"
  shows "overcounted s'"
proof (cases "writer s")
  case (Check b)
  have "card (parked s) \<le> card (members s)" using sync_invD(3)[OF assms(1)] parked_members by (rule card_mono)
  then have "b < live_threads s"
    using sync_invD(13)[OF assms(1), of b] Check assms(2) by (simp add: overcounted_def)
  then show ?thesis using assms(2,3) Check
    by (auto simp: overcounted_def writer_step_def exclusive_check_def members_def)
next
  case (Read_Commands b e)
  then show ?thesis using sync_invD(7)[OF assms(1), of b e] by simp
next
  case Exclusive
  then show ?thesis using assms(2) by (simp add: overcounted_def)
qed (use assms(2,3) in \<open>auto simp: overcounted_def writer_step_def writer_defs members_def Let_def split: if_splits\<close>)

lemma overcounted_thread_step:
  assumes "sync_inv 0 s" "overcounted s" "thread_step 0 t s = Some (Inr s')"
  shows "overcounted s'"
proof -
  note fin = sync_invD(3)[OF assms(1)]
  have sets: "members s' = (if pc \<in> {Outside, Registering} then members s - {t} else insert t (members s))"
    if "threads s' = (threads s)(t := pc)" for pc
    using that by (rule sets_after(1))
  show ?thesis
  proof (cases "threads s t")
    case Outside
    then have "s' = set_thread t Registering (s\<lparr>lock := By_Thread t\<rparr>)"
      using assms(3) by (auto simp: thread_step_def get_shared_lock_def split: if_splits)
    then show ?thesis using assms(2) card_Diff1_le[of "members s" t] sets[of Registering]
      by (auto simp: overcounted_def)
  next
    case Registering
    then have s': "s' = set_thread t Guarded (s\<lparr>live_threads := live_threads s + 1, lock := Unlocked\<rparr>)"
      using assms(3) by (auto simp: thread_step_def get_shared_count_def split: if_splits)
    have "members s' = insert t (members s)" using sets[of Guarded] s' by simp
    then have "card (members s') \<le> card (members s) + 1" using card_insert_le_m1[of "card (members s) + 1" "members s" t] by simp
    with s' assms(2) show ?thesis by (simp add: overcounted_def)
  next
    case Unregistering
    then have s': "s' = set_thread t Outside (s\<lparr>live_threads := live_threads s - 1, lock := Unlocked\<rparr>)"
      using assms(3) by (auto simp: thread_step_def disable_guard_fast_def bind_res_eq_Inr usub_eq_Inr)
    have "members s' = members s - {t}" "t \<in> members s" using sets[of Outside] s' Unregistering by (simp_all add: members_def)
    then have less: "card (members s') < card (members s)" using fin card_Diff1_less by metis
    have fields: "live_threads s' = live_threads s - 1" "writer s' = writer s" by (simp_all add: s')
    show ?thesis using less assms(2) unfolding overcounted_def fields by linarith
  next
    case Notifying
    then have "s' = set_thread t Outside (s\<lparr>gc_commands := command_sent 0 (gc_commands s)\<rparr>)"
      using assms(3) by (simp add: thread_step_def disable_guard_slow_eq split: if_splits)
    then show ?thesis using assms(2) card_Diff1_le[of "members s" t] sets[of Outside]
      by (auto simp: overcounted_def)
  qed (use assms(3) in \<open>simp_all add: thread_step_def\<close>)
qed

lemma overcounted_step:
  assumes "sync_inv 0 s" "overcounted s" "sync_step 0 e s = Some (Inr s')"
  shows "overcounted s'"
proof (cases e)
  case (Leave t)
  then have "s' = disable_guard t s" "threads s t = Guarded" using assms(3) by (auto split: if_splits)
  then have "members s' = members s" "live_threads s' = live_threads s" "writer s' = writer s"
    by (auto simp: disable_guard_def members_def)
  then show ?thesis using assms(2) by (simp add: overcounted_def)
next
  case (Safepoint t)
  then have "s' = safepoint t s" "threads s t = Guarded" using assms(3) by (auto split: if_splits)
  then have "members s' = members s" "live_threads s' = live_threads s" "writer s' = writer s"
    by (auto simp: safepoint_def members_def)
  then show ?thesis using assms(2) by (simp add: overcounted_def)
next
  case (Thread t)
  then show ?thesis using overcounted_thread_step[OF assms(1,2), of t s'] assms(3) by simp
next
  case Writer
  then show ?thesis using overcounted_writer_step[OF assms(1,2), of s'] assms(3) by simp
qed

lemma overcounted_steps: "sync_steps 0 s s' \<Longrightarrow> sync_inv 0 s \<Longrightarrow> overcounted s \<Longrightarrow> overcounted s'"
proof (induction rule: sync_steps.induct)
  case (sync_snoc s s' e s'')
  then have "sync_inv 0 s'" "overcounted s'" using sync_inv_steps[of 0 s s'] by simp_all
  then show ?case using overcounted_step sync_snoc.hyps(2) by blast
qed simp

text \<open>
  C38: A lost command blocks the collector for good. \<open>Command\<close> has a single variant without data, so
  its size is 0 and a packet with it does not exist. Once a registered thread has to leave by the
  slow path (\<open>try_lock\<close> failed, because the writer waits or because another thread is at the counter),
  in no later state does any writer get the \<open>ExclusiveGuard\<close>: it waits for a thread that has left.
\<close>

theorem lost_command_blocks_writer:
  assumes "sync_reachable 0 s" "threads s t = Notifying" "sync_step 0 (Thread t) s = Some (Inr s1)"
    and "sync_steps 0 s1 s'"
  shows "writer s' \<noteq> Exclusive"
proof -
  have inv: "sync_inv 0 s" using sync_reachable_inv[OF assms(1)] by simp
  have inv1: "sync_inv 0 s1" using sync_inv_step[OF inv assms(3)] by simp
  have mem: "t \<in> members s" "t \<notin> parked s" using assms(2) by (simp_all add: members_def parked_def)
  then have "t \<in> members s" "writer s \<noteq> Exclusive" using sync_invD(14)[OF inv] by blast+
  moreover from this have "card (members s - {t}) < card (members s)"
    using sync_invD(3)[OF inv] by (intro card_Diff1_less)
  moreover have "card (members s) \<le> live_threads s" using sync_invD(8)[OF inv] by simp
  moreover have "s1 = set_thread t Outside (s\<lparr>gc_commands := command_sent 0 (gc_commands s)\<rparr>)"
    using assms(2,3) by (simp add: thread_step_def disable_guard_slow_eq split: if_splits)
  moreover from this have "members s1 = members s - {t}" using sets_after(1)[of s1 s t Outside] by simp
  ultimately have "overcounted s1" by (simp add: overcounted_def)
  with overcounted_steps[OF assms(4) inv1] show ?thesis by (simp add: overcounted_def)
qed

theorem lost_command_blocks_writer_witness:
  "\<exists>s s1. sync_run 0 [Thread 7, Thread 7, Writer, Leave 7] (gc_sync_new 16) = Some (Inr s) \<and>
     sync_step 0 (Thread 7) s = Some (Inr s1) \<and> threads s1 = (\<lambda>_. Outside) \<and> writer s1 = Check 0 \<and>
     (\<forall>s'. sync_steps 0 s1 s' \<longrightarrow> writer s' \<noteq> Exclusive)"
proof -
  obtain s where run: "sync_run 0 [Thread 7, Thread 7, Writer, Leave 7] (gc_sync_new 16) = Some (Inr s)"
    and s: "threads s = (\<lambda>_. Outside)(7 := Notifying)" "writer s = Check 0"
      "p_packets (gc_commands s) = []" "p_slots (gc_commands s) = 16"
    by (simp add: sync_eval fun_eq_iff)
  obtain s1 where s1: "sync_step 0 (Thread 7) s = Some (Inr s1)" "threads s1 = (\<lambda>_. Outside)" "writer s1 = Check 0"
    using s by (simp add: thread_step_def disable_guard_slow_eq poll_out_def fun_eq_iff)
  from lost_command_blocks_writer[OF sync_run_reachable[OF run] _ s1(1)] s(1)
  have "\<forall>s'. sync_steps 0 s1 s' \<longrightarrow> writer s' \<noteq> Exclusive" by simp
  then show ?thesis using run s1 by blast
qed

end
