(* ===== verification/Memory_Map.thy ===== *)
theory Memory_Map
  imports MM_Context
begin

text \<open>
  \<open>uwugc/src/mmap.rs\<close>: the anonymous mappings behind the spaces and the lock page. The system calls
  \<open>mmap\<close>, \<open>madvise\<close> and \<open>munmap\<close> are parameters; modelled is which request the code makes and what it
  does with the answer. Protection and flags are the sets of the bits the code ors together. The
  lemmas say what \<open>MM::new\<close> asks for and where the space is.
\<close>

datatype prot_bit = PROT_READ | PROT_WRITE

datatype map_bit = MAP_ANON | MAP_PRIVATE | MAP_SHARED | MAP_FIXED

record mmap_request =
  mq_addr :: nat
  mq_len :: nat
  mq_prot :: "prot_bit set"
  mq_flags :: "map_bit set"

text \<open>\<open>PROT_NONE\<close> is no bit.\<close>

definition mmap_prot :: "bool \<Rightarrow> bool \<Rightarrow> prot_bit set" where
  "mmap_prot can_read can_write =
     (let prot = {};
          prot = (if can_read then insert PROT_READ prot else prot);
          prot = (if can_write then insert PROT_WRITE prot else prot)
      in if \<not> can_read \<and> \<not> can_write then prot \<union> {} else prot)"

definition mmap_flags :: "bool \<Rightarrow> nat option \<Rightarrow> map_bit set" where
  "mmap_flags is_private preferred_addr =
     (let flags = {MAP_ANON};
          flags = (if is_private then insert MAP_PRIVATE flags else insert MAP_SHARED flags)
      in if preferred_addr \<noteq> None then insert MAP_FIXED flags else flags)"

definition mmap_from_raw :: "nat \<Rightarrow> nat \<Rightarrow> mmap_area" where
  "mmap_from_raw ptr len = \<lparr>map_ptr = ptr, map_len = len\<rparr>"

definition mmap_map ::
    "(mmap_request \<Rightarrow> 'e + nat) \<Rightarrow> nat \<Rightarrow> bool \<Rightarrow> bool \<Rightarrow> bool \<Rightarrow> nat option \<Rightarrow> 'e + mmap_area" where
  "mmap_map os_mmap sz is_private can_read can_write preferred_addr =
     (case os_mmap \<lparr>mq_addr = (case preferred_addr of None \<Rightarrow> 0 | Some a \<Rightarrow> a), mq_len = sz,
         mq_prot = mmap_prot can_read can_write, mq_flags = mmap_flags is_private preferred_addr\<rparr> of
        Inl e \<Rightarrow> Inl e
      | Inr mapped \<Rightarrow> Inr (mmap_from_raw mapped sz))"

datatype mmap_advice = Advice_Remove | Advice_PopulateRead | Advice_DontNeed

datatype madvise_const = MADV_POPULATE_READ | MADV_REMOVE | MADV_DONTNEED

fun advice_const :: "mmap_advice \<Rightarrow> madvise_const" where
  "advice_const Advice_PopulateRead = MADV_POPULATE_READ"
| "advice_const Advice_Remove = MADV_REMOVE"
| "advice_const Advice_DontNeed = MADV_DONTNEED"

definition mmap_advise ::
    "(nat \<Rightarrow> nat \<Rightarrow> madvise_const \<Rightarrow> 'e + unit) \<Rightarrow> mmap_area \<Rightarrow> mmap_advice \<Rightarrow> 'e + unit" where
  "mmap_advise os_madvise area advise = os_madvise (map_ptr area) (map_len area) (advice_const advise)"

text \<open>\<open>Drop for Mmap\<close>: \<open>munmap\<close>, with \<open>expect\<close> on its result.\<close>

definition mmap_drop :: "(nat \<Rightarrow> nat \<Rightarrow> 'e + unit) \<Rightarrow> mmap_area \<Rightarrow> unit res" where
  "mmap_drop os_munmap area =
     (case os_munmap (map_ptr area) (map_len area) of Inl e \<Rightarrow> Inl Unwrap_None | Inr _ \<Rightarrow> Inr ())"

lemma mmap_prot_rw [simp]: "mmap_prot True True = {PROT_READ, PROT_WRITE}"
  by (auto simp: mmap_prot_def)

lemma mmap_flags_simps [simp]:
  "mmap_flags True (Some a) = {MAP_ANON, MAP_PRIVATE, MAP_FIXED}" "mmap_flags True None = {MAP_ANON, MAP_PRIVATE}"
  by (auto simp: mmap_flags_def)

text \<open>The mapping \<open>MM::new\<close> asks for, as the parameter of \<open>mm_new\<close>.\<close>

definition mm_os_map :: "(mmap_request \<Rightarrow> 'e + nat) \<Rightarrow> nat \<Rightarrow> nat option \<Rightarrow> 'e + nat" where
  "mm_os_map os_mmap len preferred =
     map_sum id map_ptr (mmap_map os_mmap len True True True preferred)"

text \<open>
  The space is as large as asked for, rounded up to whole pages, its page table starts at its first
  byte, and with a preferred base and a kernel that honours \<open>MAP_FIXED\<close> it is where it was asked for.
\<close>

lemma mm_new_mapping:
  assumes "mm_new (mm_os_map os_mmap) sz preferred = Inr mm"
  shows "sz \<le> map_len (mm_mapping mm)" "map_len (mm_mapping mm) < sz + BASE_PAGE_SIZE"
    "get_base_addr (mm_page_table mm) = map_ptr (mm_mapping mm)"
    "map_len (mm_mapping mm) = pt_nr_pages (mm_page_table mm) * BASE_PAGE_SIZE"
proof -
  obtain p where mm: "mm = \<lparr>mm_mapping = \<lparr>map_ptr = p, map_len = div_ceil sz BASE_PAGE_SIZE * BASE_PAGE_SIZE\<rparr>,
      mm_page_table = page_table_new p (div_ceil sz BASE_PAGE_SIZE)\<rparr>"
    using assms by (auto simp: mm_new_def Let_def split: sum.splits)
  show "sz \<le> map_len (mm_mapping mm)" "map_len (mm_mapping mm) < sz + BASE_PAGE_SIZE"
    by (simp_all add: mm div_ceil_mult_ge div_ceil_mult_less BASE_PAGE_SIZE_def)
  show "get_base_addr (mm_page_table mm) = map_ptr (mm_mapping mm)"
    "map_len (mm_mapping mm) = pt_nr_pages (mm_page_table mm) * BASE_PAGE_SIZE"
    by (simp_all add: mm page_table_new_def get_base_addr_def)
qed

lemma mm_new_fixed:
  assumes "mm_new (mm_os_map os_mmap) sz (Some base) = Inr mm"
    and "\<And>q p. os_mmap q = Inr p \<Longrightarrow> MAP_FIXED \<in> mq_flags q \<Longrightarrow> p = mq_addr q"
  shows "map_ptr (mm_mapping mm) = base"
proof -
  let ?q = "\<lparr>mq_addr = base, mq_len = div_ceil sz BASE_PAGE_SIZE * BASE_PAGE_SIZE, mq_prot = {PROT_READ, PROT_WRITE},
    mq_flags = {MAP_ANON, MAP_PRIVATE, MAP_FIXED}\<rparr>"
  from assms(1) have "os_mmap ?q = Inr (map_ptr (mm_mapping mm))"
    by (auto simp: mm_new_def mm_os_map_def mmap_map_def mmap_from_raw_def Let_def split: sum.splits)
  from assms(2)[OF this] show ?thesis by simp
qed

end
