(* ===== verification/Instance.thy ===== *)
theory Instance
  imports Mutator GC_Sync Memory_Map
begin

text \<open>
  \<open>UwUGC\<close> in \<open>uwugc/src/state.rs\<close>: an instance of the collector as its user holds it, with the
  controller, the stop-the-world lock and the state behind it. The system calls that \<open>new\<close> makes
  are parameters. The theorem shows that a new instance satisfies the invariant of \<open>Mutator\<close>, so that
  whatever is shown there holds from the creation on.
\<close>

section \<open>Creation\<close>

record uwugc =
  in_controller :: controller
  in_sync :: gc_sync
  in_shared :: "types_state shared_state"

datatype ('e, 'f) create_error_uwugc = CreateMM 'e | CreateGCSync "'f create_error"

definition uwugc_new ::
    "(nat \<Rightarrow> nat option \<Rightarrow> 'e + nat) \<Rightarrow> (nat \<Rightarrow> nat option \<Rightarrow> 'e + nat) \<Rightarrow> ('f create_error + gc_sync) \<Rightarrow> nat \<Rightarrow> nat option \<Rightarrow> nat option \<Rightarrow> types_state
     \<Rightarrow> ('e, 'f) create_error_uwugc + uwugc" where
  "uwugc_new os_map0 os_map1 sync_new sz preferred_primary_base preferred_second_space descriptor_manager =
     (case shared_state_new os_map0 os_map1 sz preferred_primary_base preferred_second_space descriptor_manager of
        Inl e \<Rightarrow> Inl (CreateMM e)
      | Inr shared \<Rightarrow>
          (case sync_new of
             Inl e \<Rightarrow> Inl (CreateGCSync e)
           | Inr sync \<Rightarrow>
               Inr \<lparr>in_controller = controller_start, in_sync = sync, in_shared = shared\<rparr>))"

text \<open>
  \<open>Drop\<close>: the request to shut down; \<open>join\<close> then waits for \<open>uwugc_joined\<close>.
\<close>

definition uwugc_drop :: "uwugc \<Rightarrow> uwugc" where
  "uwugc_drop gu = gu\<lparr>in_controller := shutdown (in_controller gu)\<rparr>"

definition uwugc_joined :: "uwugc \<Rightarrow> bool" where
  "uwugc_joined gu \<longleftrightarrow> c_looper (in_controller gu) = Looper_Exited"

text \<open>
  \<open>new_context\<close>, once \<open>get_shared\<close> has returned. No operation takes the entry out again: dropping a
  \<open>Context\<close> drops its \<open>SharedGuard\<close> only.
\<close>

definition uwugc_new_context :: "nat \<Rightarrow> root_set \<Rightarrow> uwugc \<Rightarrow> uwugc res" where
  "uwugc_new_context thread roots gu =
     bind_res (get_shared_count thread (in_sync gu)) (\<lambda>sync.
       Inr (gu\<lparr>in_sync := sync, in_shared := new_context thread roots (in_shared gu)\<rparr>))"

definition context_drop :: "nat \<Rightarrow> uwugc \<Rightarrow> uwugc" where
  "context_drop thread gu = gu\<lparr>in_sync := disable_guard thread (in_sync gu)\<rparr>"

definition instance_world :: "uwugc \<Rightarrow> memory \<Rightarrow> types_state world" where
  "instance_world gu m = \<lparr>w_shared = in_shared gu, w_controller = c_state (in_controller gu), w_memory = m\<rparr>"

text \<open>\<open>Context::safepoint\<close> and \<open>set_type_manager\<close> inside \<open>run_exclusive\<close> and \<open>get_exclusive\<close>.\<close>

definition uwugc_safepoint :: "nat \<Rightarrow> uwugc \<Rightarrow> uwugc" where
  "uwugc_safepoint thread gu = gu\<lparr>in_sync := safepoint thread (in_sync gu)\<rparr>"

section \<open>The first world\<close>

text \<open>What \<open>mmap\<close> promises of the two mappings: aligned, inside the address space and apart.\<close>

definition maps_apart ::
    "(nat \<Rightarrow> nat option \<Rightarrow> 'e + nat) \<Rightarrow> (nat \<Rightarrow> nat option \<Rightarrow> 'e + nat) \<Rightarrow> bool" where
  "maps_apart os_map0 os_map1 \<longleftrightarrow>
     (\<forall>os \<in> {os_map0, os_map1}. \<forall>len base p. os len base = Inr p \<longrightarrow> 8 dvd p \<and> 0 < p \<and> p + len < 2 ^ 64) \<and>
     (\<forall>len b0 b1 p q. os_map0 len b0 = Inr p \<longrightarrow> os_map1 len b1 = Inr q \<longrightarrow> block p len \<inter> block q len = {})"

lemma maps_apartD:
  assumes "maps_apart os_map0 os_map1"
  shows "os_map0 len base = Inr p \<Longrightarrow> 8 dvd p \<and> 0 < p \<and> p + len < 2 ^ 64"
    "os_map1 len base = Inr p \<Longrightarrow> 8 dvd p \<and> 0 < p \<and> p + len < 2 ^ 64"
    "os_map0 len b0 = Inr p \<Longrightarrow> os_map1 len b1 = Inr q \<Longrightarrow> block q len \<inter> block p len = {}"
  using assms unfolding maps_apart_def by (simp_all add: Int_commute del: in_block)

lemma mm_new_ok:
  assumes "mm_new os sz base = Inr mm" and "\<And>len p. os len base = Inr p \<Longrightarrow> 8 dvd p \<and> 0 < p \<and> p + len < 2 ^ 64"
  shows "mm_ok mm" "page_table_wf (mm_page_table mm)" "used_addrs (mm_page_table mm) = {}"
    "pt_nr_pages (mm_page_table mm) = div_ceil sz BASE_PAGE_SIZE"
    "\<exists>p. os (div_ceil sz BASE_PAGE_SIZE * BASE_PAGE_SIZE) base = Inr p \<and>
       mm_area mm = block p (div_ceil sz BASE_PAGE_SIZE * BASE_PAGE_SIZE)"
proof -
  let ?n = "div_ceil sz BASE_PAGE_SIZE"
  from assms(1) obtain p where p: "os (?n * BASE_PAGE_SIZE) base = Inr p"
    "mm = \<lparr>mm_mapping = \<lparr>map_ptr = p, map_len = ?n * BASE_PAGE_SIZE\<rparr>, mm_page_table = page_table_new p ?n\<rparr>"
    by (auto simp: mm_new_def Let_def split: sum.splits)
  from assms(2)[OF p(1)] have ok: "8 dvd p" "0 < p" "p + ?n * BASE_PAGE_SIZE < 2 ^ 64" by simp_all
  show "page_table_wf (mm_page_table mm)" "used_addrs (mm_page_table mm) = {}"
    using page_table_new_wf[of p ?n] ok by (simp_all add: p(2))
  show "mm_ok mm" using ok by (simp add: p(2) mm_ok_def space_ok_def page_table_new_def)
  show "pt_nr_pages (mm_page_table mm) = ?n" by (simp add: p(2) page_table_new_def)
  show "\<exists>p. os (?n * BASE_PAGE_SIZE) base = Inr p \<and> mm_area mm = block p (?n * BASE_PAGE_SIZE)"
    using p by (simp add: mm_area_def)
qed

lemma new_instance_ready:
  assumes "maps_apart os_map0 os_map1"
    and "uwugc_new os_map0 os_map1 sync_new sz base0 base1 manager = Inr gu"
  shows "system_inv statics None (instance_world gu m)" "live_objects statics (instance_world gu m) = {}"
    "uwugc_new_context thread [] gu = Inr gu' \<Longrightarrow> system_inv statics None (instance_world gu' m)"
proof -
  from assms(2) obtain second first sync where mm: "mm_new os_map0 sz base1 = Inr second" "mm_new os_map1 sz base0 = Inr first"
    and gu: "gu = \<lparr>in_controller = controller_start, in_sync = sync, in_shared =
      \<lparr>ss_mm = first, ss_second_mm = [second], ss_contexts = [], ss_mark_true_bit = Bit1, ss_type_manager = manager\<rparr>\<rparr>"
    by (auto simp: uwugc_new_def shared_state_new_def split: sum.splits)
  note d = maps_apartD[OF assms(1)]
  note o0 = mm_new_ok[OF mm(1) d(1)[where base = base1]] and o1 = mm_new_ok[OF mm(2) d(2)[where base = base0]]
  from o0(5) o1(5) d(3) have apart: "mm_area first \<inter> mm_area second = {}" by metis
  let ?w = "instance_world gu m"
  have roots: "roots_of ?w = []" by (simp add: roots_of_def instance_world_def gu)
  have none: "live_objects statics ?w = {}"
    using live_closed[of ?w "{}" statics] by (simp add: roots)
  have ready: "gc_ready statics {} None ?w"
    using o0(1,4) o1(1,4) apart none unfolding gc_ready_def Let_def roots
    by (simp add: instance_world_def gu heap_wf_def small_heap_def)
  have al: "heap_allocated statics {} ?w"
    using o1(2) by (simp add: heap_allocated_def instance_world_def gu)
  show "system_inv statics None (instance_world gu' m)" if "uwugc_new_context thread [] gu = Inr gu'"
  proof -
    have "instance_world gu' m = add_context thread [] ?w"
      using that by (auto simp: uwugc_new_context_def res_eq_simps instance_world_def add_context_def)
    with add_context_ready[OF ready, of "[]" thread] add_context_allocated[OF al] show ?thesis unfolding system_inv_def by auto
  qed
  show "system_inv statics None ?w" "live_objects statics ?w = {}" using ready al none unfolding system_inv_def by blast+
qed

section \<open>Properties\<close>

text \<open>
  A new instance is ready. If the kernel maps the two spaces apart from each other, then in
  the state that \<open>UwUGC::new\<close> returns the invariant of mutators and collector holds, with nothing
  alive, whatever the memory holds and whatever the size is; and it still holds when threads have got
  their contexts with \<open>new_context\<close>.
\<close>

theorem uwugc_new_ready:
  assumes "maps_apart os_map0 os_map1"
    and "uwugc_new os_map0 os_map1 sync_new sz base0 base1 manager = Inr gu"
  shows "system_inv statics None (instance_world gu m) \<and> live_objects statics (instance_world gu m) = {} \<and>
    (\<forall>thread gu'. uwugc_new_context thread [] gu = Inr gu' \<longrightarrow> system_inv statics None (instance_world gu' m))"
  using new_instance_ready[OF assms] by blast

definition two_maps :: "nat \<Rightarrow> nat \<Rightarrow> nat option \<Rightarrow> unit + nat" where
  "two_maps k len base = (if len \<le> 2 ^ 40 then Inr (2 ^ (50 + k)) else Inl ())"

lemma two_maps_apart: "maps_apart (two_maps 0) (two_maps 1)"
  by (auto simp: maps_apart_def two_maps_def split: if_splits)

theorem uwugc_new_ready_witness:
  "\<exists>gu. uwugc_new (two_maps 0) (two_maps 1) (Inr (gc_sync_new 16) :: unit create_error + gc_sync) 536870912
      (Some 106567371358208) None types_new = Inr gu \<and> system_inv sample_statics None (instance_world gu (\<lambda>_. 0))"
proof -
  obtain gu where gu: "uwugc_new (two_maps 0) (two_maps 1) (Inr (gc_sync_new 16) :: unit create_error + gc_sync) 536870912
      (Some 106567371358208) None types_new = Inr gu"
    by (simp add: uwugc_new_def shared_state_new_def mm_new_def two_maps_def div_ceil_def BASE_PAGE_SIZE_def)
  from uwugc_new_ready[OF two_maps_apart this] gu show ?thesis by blast
qed

end
