(* ===== verification/Safepoints.thy ===== *)
theory Safepoints
  imports Plus_Alloc Instance
begin

text \<open>
  The parts of \<open>uwugc-plus/src/\<close> that a program starts with: \<open>safepoint.rs\<close>, the values that say which
  root references a safepoint covers, and \<open>UwUGCPlus::new\<close>, \<open>init_context\<close>, \<open>with_context_mut\<close> and
  \<open>register\<close> of \<open>lib.rs\<close> and \<open>context.rs\<close>, the context of the current thread. A safepoint value is a
  tree; it acts as the list of its handles, and the free function \<open>safepoint\<close> goes through exactly when
  every live handle occurs in it once (\<open>safepoint_exact\<close>). A thread that has just got its context
  satisfies \<open>plus_inv\<close>, from which the theorems of \<open>Plus_Alloc\<close> start (\<open>plus_start_ready\<close>).
\<close>

section \<open>Safepoint values\<close>

text \<open>
  The implementors of \<open>Safepoint\<close> and \<open>SafepointMut\<close>: a \<open>RootRef\<close>, a slice of references to handles, a
  \<open>RootList\<close> and a \<open>SafepointList\<close>. \<open>&T\<close> and \<open>&mut T\<close> delegate to \<open>T\<close>.
\<close>

datatype safepoint_value =
    Root_Ref nat
  | Raw_Slice "nat list"
  | Root_List "nat list"
  | Safepoint_List "safepoint_value list"

fun sp_before :: "safepoint_value \<Rightarrow> plus_context \<Rightarrow> plus_context res"
  and sp_before_list :: "safepoint_value list \<Rightarrow> plus_context \<Rightarrow> plus_context res" where
  "sp_before (Root_Ref h) c = ctx_store h c"
| "sp_before (Raw_Slice hs) c = ctx_all ctx_store hs c"
| "sp_before (Root_List hs) c = ctx_all ctx_store hs c"
| "sp_before (Safepoint_List xs) c = sp_before_list xs c"
| "sp_before_list [] c = Inr c"
| "sp_before_list (x # xs) c = bind_res (sp_before x c) (sp_before_list xs)"

fun sp_after :: "safepoint_value \<Rightarrow> plus_context \<Rightarrow> plus_context res"
  and sp_after_list :: "safepoint_value list \<Rightarrow> plus_context \<Rightarrow> plus_context res" where
  "sp_after (Root_Ref h) c = ctx_load h c"
| "sp_after (Raw_Slice hs) c = ctx_all ctx_load hs c"
| "sp_after (Root_List hs) c = ctx_all ctx_load hs c"
| "sp_after (Safepoint_List xs) c = sp_after_list xs c"
| "sp_after_list [] c = Inr c"
| "sp_after_list (x # xs) c = bind_res (sp_after x c) (sp_after_list xs)"

text \<open>The free function \<open>safepoint\<close>; \<open>gc\<close> is what the collector does to the root set meanwhile.\<close>

definition run_safepoint :: "safepoint_value \<Rightarrow> (inner \<Rightarrow> inner res) \<Rightarrow> plus_context \<Rightarrow> plus_context res" where
  "run_safepoint sp gc c =
     bind_res (sp_before sp c) (\<lambda>c.
     bind_res (context_safepoint gc c) (\<lambda>c. sp_after sp c))"

text \<open>The handles of a safepoint value, in the order in which it visits them.\<close>

fun sp_handles :: "safepoint_value \<Rightarrow> nat list" where
  "sp_handles (Root_Ref h) = [h]"
| "sp_handles (Raw_Slice hs) = hs"
| "sp_handles (Root_List hs) = hs"
| "sp_handles (Safepoint_List xs) = concat (map sp_handles xs)"

lemma ctx_all_append: "ctx_all f (xs @ ys) c = bind_res (ctx_all f xs c) (ctx_all f ys)"
  by (induction xs arbitrary: c) (auto simp: bind_res_def split: sum.splits)

lemma ctx_all_single: "ctx_all f [h] c = f h c"
  by (auto simp: bind_res_def split: sum.splits)

lemma sp_before_flat:
  "sp_before sp c = before_safepoint (sp_handles sp) c"
  "sp_before_list xs c = before_safepoint (concat (map sp_handles xs)) c"
  unfolding before_safepoint_def
  by (induction sp c and xs c rule: sp_before_sp_before_list.induct)
    (auto simp: ctx_all_append bind_res_def split: sum.splits)

lemma sp_after_flat:
  "sp_after sp c = after_safepoint (sp_handles sp) c"
  "sp_after_list xs c = after_safepoint (concat (map sp_handles xs)) c"
  unfolding after_safepoint_def
  by (induction sp c and xs c rule: sp_after_sp_after_list.induct)
    (auto simp: ctx_all_append bind_res_def split: sum.splits)

lemma run_safepoint_flat: "run_safepoint sp gc c = plus_safepoint (sp_handles sp) gc c"
  by (simp add: run_safepoint_def plus_safepoint_def sp_before_flat(1) sp_after_flat(1))

text \<open>A handle that is listed again, or was stored before, panics in \<open>store\<close>.\<close>

lemma store_repeated:
  "ctx_inv c \<Longrightarrow> set hs \<subseteq> {..<length (pc_refs c)} \<Longrightarrow>
   \<not> (distinct hs \<and> (\<forall>h \<in> set hs. rf_ptr (pc_refs c ! h) \<noteq> None)) \<Longrightarrow> before_safepoint hs c = Inl Unwrap_None"
  unfolding before_safepoint_def
proof (induction hs arbitrary: c)
  case (Cons h hs)
  show ?case
  proof (cases "rf_ptr (pc_refs c ! h)")
    case None
    then show ?thesis by (simp add: ctx_store_def root_ref_store_def)
  next
    case (Some p)
    have h: "h < length (pc_refs c)" using Cons.prems(2) by simp
    note eff = stored_ctx_effect[OF Cons.prems(1) h Some]
    have len: "length (pc_refs (stored_ctx h p c)) = length (pc_refs c)" using same_handles_length[OF eff(1)] .
    have "\<not> (distinct hs \<and> (\<forall>k \<in> set hs. rf_ptr (pc_refs (stored_ctx h p c) ! k) \<noteq> None))"
    proof
      assume a: "distinct hs \<and> (\<forall>k \<in> set hs. rf_ptr (pc_refs (stored_ctx h p c) ! k) \<noteq> None)"
      have "k \<noteq> h \<and> rf_ptr (pc_refs c ! k) \<noteq> None" if "k \<in> set hs" for k
      proof -
        have "k < length (pc_refs c)" using that Cons.prems(2) by auto
        moreover have "rf_ptr (pc_refs (stored_ctx h p c) ! k) \<noteq> None" using a that by blast
        ultimately show ?thesis using eff(3)[of k] by (simp split: if_splits)
      qed
      with a Some Cons.prems(3) show False by auto
    qed
    with Cons.IH[OF ctx_store_ok(2)[OF Cons.prems(1) h Some]] Cons.prems(2) len
    show ?thesis by (simp add: ctx_store_ok(1)[OF Cons.prems(1) h Some])
  qed
qed simp

section \<open>The context of the current thread\<close>

text \<open>
  \<open>UwUGCPlus::new\<close>: the type manager of the instance is replaced. \<open>CURRENT_CONTEXT\<close> of a thread is
  \<open>None\<close> until \<open>init_context\<close>.
\<close>

definition uwugc_plus_new :: "uwugc \<Rightarrow> uwugc" where
  "uwugc_plus_new gu = gu\<lparr>in_shared := fst (set_type_manager types_new (in_shared gu))\<rparr>"

definition init_context :: "nat \<Rightarrow> uwugc \<Rightarrow> plus_context option \<Rightarrow> (uwugc \<times> plus_context option) res" where
  "init_context thread gu current =
     assert_then (current = None)
       (bind_res (uwugc_new_context thread (inner_iter_pointers (pc_inner plus_context_new)) gu) (\<lambda>gu.
          Inr (gu, Some plus_context_new)))"

definition with_context_mut :: "(plus_context \<Rightarrow> (plus_context \<times> 'r) res) \<Rightarrow> plus_context option \<Rightarrow> (plus_context option \<times> 'r) res" where
  "with_context_mut func current =
     bind_res (unwrap current) (\<lambda>c. bind_res (func c) (\<lambda>(c, r). Inr (Some c, r)))"

text \<open>\<open>register\<close>; \<open>get_type_manager\<close> finds \<open>Types\<close> in an instance that \<open>UwUGCPlus::new\<close> has prepared.\<close>

definition plus_register :: "descriptor cow \<Rightarrow> uwugc \<Rightarrow> plus_context option \<Rightarrow> (uwugc \<times> 64 word) res" where
  "plus_register descriptor gu current =
     bind_res (with_context_mut (\<lambda>c. Inr (c, ())) current) (\<lambda>_.
     bind_res (types_register (ss_type_manager (in_shared gu)) descriptor) (\<lambda>(ts, ty).
       Inr (gu\<lparr>in_shared := (in_shared gu)\<lparr>ss_type_manager := ts\<rparr>\<rparr>, ty)))"

section \<open>Properties\<close>

text \<open>
  C14: A safepoint goes through exactly when it covers every live root reference once. Let all handles
  of a thread be loaded and \<open>sp\<close> be any nesting of references, lists and slices of them. If every handle
  occurs in \<open>sp\<close> exactly once, \<open>safepoint\<close> returns and each handle holds what the collector made of its
  pointer; if one occurs twice, its second \<open>store\<close> panics; if one is missing, the assertion of
  \<open>Context::safepoint\<close> panics before the collector runs.
\<close>

theorem safepoint_exact:
  assumes inv: "ctx_inv c" and loaded: "loaded c"
    and range: "set (sp_handles sp) \<subseteq> {..<length (pc_refs c)}"
    and visitor: "\<forall>h < length (pc_refs c). \<forall>p. rf_ptr (pc_refs c ! h) = Some p \<longrightarrow> visitor p = Inr (f p)"
  shows "if distinct (sp_handles sp) \<and> set (sp_handles sp) = {..<length (pc_refs c)}
    then \<exists>c'. run_safepoint sp (inner_map_pointers visitor) c = Inr c' \<and> ctx_inv c' \<and>
      length (pc_refs c') = length (pc_refs c) \<and>
      (\<forall>h < length (pc_refs c). rf_ptr (pc_refs c' ! h) = map_option f (rf_ptr (pc_refs c ! h)))
    else run_safepoint sp (inner_map_pointers visitor) c =
      Inl (if distinct (sp_handles sp) then Assert_Failed else Unwrap_None)"
proof -
  let ?hs = "sp_handles sp" and ?n = "length (pc_refs c)"
  have some: "\<forall>h < ?n. rf_ptr (pc_refs c ! h) \<noteq> None" using loaded by (simp add: loaded_def)
  consider (all) "distinct ?hs" "set ?hs = {..<?n}" | (missing) h where "distinct ?hs" "h < ?n" "h \<notin> set ?hs"
    | (twice) "\<not> distinct ?hs"
    using range by blast
  then show ?thesis
  proof cases
    case all
    with safepoint_all_handles[OF inv some all visitor] show ?thesis by (simp add: run_safepoint_flat)
  next
    case missing
    have "\<forall>h \<in> set ?hs. h < ?n \<and> rf_ptr (pc_refs c ! h) \<noteq> None" using range some by blast
    from forgotten_root[OF inv missing(1) this missing(2,3)] some missing show ?thesis
      by (auto simp: run_safepoint_flat)
  next
    case twice
    with store_repeated[OF inv range] show ?thesis by (simp add: run_safepoint_flat plus_safepoint_def)
  qed
qed

theorem safepoint_exact_witness:
  "(\<exists>c'. run_safepoint (Safepoint_List [Root_Ref 1, Root_List [0]]) (inner_map_pointers (\<lambda>p. Inr (p + 8))) two_roots = Inr c' \<and>
      rf_ptr (pc_refs c' ! 0) = Some 72) \<and>
   run_safepoint (Safepoint_List [Root_Ref 1, Raw_Slice [0, 1]]) (inner_map_pointers (\<lambda>p. Inr (p + 8))) two_roots = Inl Unwrap_None \<and>
   run_safepoint (Root_Ref 1) (inner_map_pointers (\<lambda>p. Inr (p + 8))) two_roots = Inl Assert_Failed"
proof (intro conjI)
  have l: "loaded two_roots" by (auto simp: loaded_def two_roots_def less_Suc_eq)
  have two: "length (pc_refs two_roots) = 2" and first: "rf_ptr (pc_refs two_roots ! 0) = Some 64"
    by (simp_all add: two_roots_def)
  have set2: "{..<2} = {1, 0::nat}" by auto
  note e = safepoint_exact[OF two_roots_inv l, of _ "\<lambda>p. Inr (p + 8)" "\<lambda>p. p + 8", unfolded two set2]
  have h: "(0::nat) < 2" by simp
  from e[of "Safepoint_List [Root_Ref 1, Root_List [0]]"] obtain c' where
    "run_safepoint (Safepoint_List [Root_Ref 1, Root_List [0]]) (inner_map_pointers (\<lambda>p. Inr (p + 8))) two_roots = Inr c'"
    "\<forall>h < 2. rf_ptr (pc_refs c' ! h) = map_option (\<lambda>p. p + 8) (rf_ptr (pc_refs two_roots ! h))" by auto
  moreover from this(2)[rule_format, OF h] have "rf_ptr (pc_refs c' ! 0) = Some 72" unfolding first by simp
  ultimately show "\<exists>c'. run_safepoint (Safepoint_List [Root_Ref 1, Root_List [0]]) (inner_map_pointers (\<lambda>p. Inr (p + 8))) two_roots = Inr c' \<and>
     rf_ptr (pc_refs c' ! 0) = Some 72" by blast
  show "run_safepoint (Safepoint_List [Root_Ref 1, Raw_Slice [0, 1]]) (inner_map_pointers (\<lambda>p. Inr (p + 8))) two_roots = Inl Unwrap_None"
    using e[of "Safepoint_List [Root_Ref 1, Raw_Slice [0, 1]]"] by simp
  have "{1::nat} \<noteq> {1, 0}" by auto
  then show "run_safepoint (Root_Ref 1) (inner_map_pointers (\<lambda>p. Inr (p + 8))) two_roots = Inl Assert_Failed"
    using e[of "Root_Ref 1"] by simp
qed

text \<open>
  C16: A thread that starts is ready to allocate. If the kernel maps the two spaces apart, then a thread
  that calls \<open>init_context\<close> on a fresh instance gets an empty context, and context and heap satisfy
  the invariant under which allocation is shown safe; calling \<open>init_context\<close> again on the thread
  panics, and so does using the context of a thread without one.
\<close>

theorem plus_start_ready:
  assumes "maps_apart os_map0 os_map1"
    and "uwugc_new os_map0 os_map1 sync_new sz base0 base1 manager = Inr gu"
    and "init_context thread (uwugc_plus_new gu) None = Inr (gu', current)"
  shows "current = Some plus_context_new \<and> plus_inv statics thread plus_context_new (instance_world gu' m) \<and>
    init_context thread gu' current = Inl Assert_Failed \<and>
    plus_register descriptor gu' None = Inl Unwrap_None"
proof -
  let ?gu = "uwugc_plus_new gu"
  have new: "uwugc_new os_map0 os_map1 sync_new sz base0 base1 types_new = Inr ?gu"
    using assms(2) by (auto simp: uwugc_new_def shared_state_new_def uwugc_plus_new_def set_type_manager_def split: sum.splits)
  have nil: "inner_iter_pointers (pc_inner plus_context_new) = []"
    by (simp add: inner_iter_pointers_def plus_context_new_def)
  from assms(3) have gu': "uwugc_new_context thread [] ?gu = Inr gu'" and cur: "current = Some plus_context_new"
    by (auto simp: init_context_def res_eq_simps nil)
  let ?w = "instance_world gu' m"
  from new_instance_ready(3)[OF assms(1) new gu'] obtain objs where
    r: "gc_ready statics objs None ?w" "heap_allocated statics objs ?w" unfolding system_inv_def by blast
  from gu' have cs: "map_of (ss_contexts (w_shared ?w)) thread = Some \<lparr>cs_mm_context = mm_context_new, cs_root_set = []\<rparr>"
    by (auto simp: uwugc_new_context_def res_eq_simps instance_world_def new_context_def update_conv')
  have "root_handles thread plus_context_new ?w = ?w"
    using set_roots_same[OF cs] by (simp add: root_handles_def handle_values_def plus_context_new_def)
  with r cs have "plus_inv statics thread plus_context_new ?w"
    using ctx_inv_new by (auto simp: plus_inv_def loaded_def plus_context_new_def)
  with cur show ?thesis by (simp add: init_context_def plus_register_def with_context_mut_def)
qed

theorem plus_start_ready_witness:
  "\<exists>gu gu'. uwugc_new (two_maps 0) (two_maps 1) (Inr (gc_sync_new 16) :: unit create_error + gc_sync) 536870912 None None types_new = Inr gu \<and>
     init_context 1 (uwugc_plus_new gu) None = Inr (gu', Some plus_context_new) \<and>
     plus_inv sample_statics 1 plus_context_new (instance_world gu' (\<lambda>_. 0))"
proof -
  obtain gu where gu: "uwugc_new (two_maps 0) (two_maps 1) (Inr (gc_sync_new 16) :: unit create_error + gc_sync) 536870912
      None None types_new = Inr gu" "in_sync gu = gc_sync_new 16"
    by (simp add: uwugc_new_def shared_state_new_def mm_new_def two_maps_def div_ceil_def BASE_PAGE_SIZE_def)
  then obtain gu' where gu': "init_context 1 (uwugc_plus_new gu) None = Inr (gu', Some plus_context_new)"
    by (auto simp: init_context_def uwugc_new_context_def uwugc_plus_new_def get_shared_count_def gc_sync_new_def)
  from plus_start_ready[OF two_maps_apart gu(1) this] gu(1) gu' show ?thesis by blast
qed

end
