(* ===== verification/Gc_Vec.thy ===== *)
theory Gc_Vec
  imports Root_Refs
begin

text \<open>
  \<open>uwugc-plus-alloc/src/vec.rs\<close> and \<open>zero_or_init.rs\<close>: the growable vector in the managed heap. The
  backing array is a list of slots, \<open>None\<close> for the zero bytes of an uninitialised \<open>ZeroOrInit\<close>. Its
  operations run against the root references of the thread (\<open>Root_Refs\<close>), because they allocate and
  reach safepoints: \<open>hs\<close> is the caller's safepoint list, \<open>gc\<close> what a collection does to the root set,
  and an allocation is given by what the fast and the slow path would return. Shown are insertion
  where it works (\<open>vec_insert_correct\<close>) and the two ways in which growing fails
  (\<open>vec_growth_panics\<close>, \<open>vec_resize_panics\<close>).
\<close>

section \<open>\<open>ZeroOrInit\<close> and powers of two\<close>

type_synonym 'a zero_or_init = "'a option"

definition zeroed :: "'a zero_or_init" where
  "zeroed = None"

definition zero_or_init_new :: "'a \<Rightarrow> 'a zero_or_init" where
  "zero_or_init_new x = Some x"

text \<open>\<open>take\<close> copies the bytes and leaves the source as it is.\<close>

definition zero_or_init_take :: "'a zero_or_init \<Rightarrow> 'a zero_or_init \<times> 'a zero_or_init" where
  "zero_or_init_take x = (x, x)"

text \<open>\<open>usize::next_power_of_two\<close> and \<open>is_power_of_two\<close>.\<close>

function pow_from :: "nat \<Rightarrow> nat \<Rightarrow> nat" where
  "pow_from p n = (if n \<le> p \<or> p = 0 then p else pow_from (2 * p) n)"
  by pat_completeness auto
termination by (relation "measure (\<lambda>(p, n). n - p)") auto

declare pow_from.simps [simp del]

definition next_power_of_two :: "nat \<Rightarrow> nat res" where
  "next_power_of_two n = (if pow_from 1 n < 2 ^ 64 then Inr (pow_from 1 n) else Inl Arith_Overflow)"

definition is_power_of_two :: "nat \<Rightarrow> bool" where
  "is_power_of_two n \<longleftrightarrow> n \<noteq> 0 \<and> pow_from 1 n = n"

section \<open>The vector\<close>

record 'a gc_vec =
  v_backing :: "'a zero_or_init list option"
  v_len :: nat

definition vec_new :: "'a gc_vec" where
  "vec_new = \<lparr>v_backing = None, v_len = 0\<rparr>"

definition vec_capacity :: "'a gc_vec \<Rightarrow> nat res" where
  "vec_capacity v = bind_res (unwrap (v_backing v)) (\<lambda>b. Inr (length b))"

definition vec_deref :: "'a gc_vec \<Rightarrow> 'a zero_or_init list res" where
  "vec_deref v =
     (if v_len v = 0 then Inr [] else bind_res (unwrap (v_backing v)) (\<lambda>b. Inr (take (v_len v) b)))"

text \<open>\<open>DerefMut\<close> and an assignment to an element through it.\<close>

definition vec_deref_mut :: "'a gc_vec \<Rightarrow> 'a zero_or_init list res" where
  "vec_deref_mut v =
     (if v_len v = 0 then Inr [] else bind_res (unwrap (v_backing v)) (\<lambda>b. Inr (take (v_len v) b)))"

definition vec_index_set :: "nat \<Rightarrow> 'a \<Rightarrow> 'a gc_vec \<Rightarrow> 'a gc_vec res" where
  "vec_index_set i x v =
     bind_res (vec_deref_mut v) (\<lambda>s. bind_res (index_set s i (Some x)) (\<lambda>s.
       Inr (v\<lparr>v_backing := map_option (\<lambda>b. s @ drop (v_len v) b) (v_backing v)\<rparr>)))"

text \<open>\<open>alloc_array(.., || ZeroOrInit::zeroed(), n)\<close>; its root reference is the last handle.\<close>

definition alloc_zeroed ::
    "nat list \<Rightarrow> (inner \<Rightarrow> inner res) \<Rightarrow> object_ptr option \<times> object_ptr option \<Rightarrow> nat \<Rightarrow> plus_context
     \<Rightarrow> (plus_context \<times> 'a zero_or_init list option) res" where
  "alloc_zeroed hs gc alloc n c =
     bind_res (plus_alloc hs gc (fst alloc) (snd alloc) c) (\<lambda>(c, found).
       Inr (c, if found then Some (replicate n zeroed) else None))"

text \<open>\<open>self.backing.store(Some(allocated))\<close>: the root reference gives its pointer and is dropped.\<close>

definition backing_store ::
    "'a zero_or_init list \<Rightarrow> 'a gc_vec \<Rightarrow> plus_context \<Rightarrow> ('a gc_vec \<times> plus_context) res" where
  "backing_store b v c =
     (let h = length (pc_refs c) - 1 in
      bind_res (get_ptr (pc_refs c ! h)) (\<lambda>_.
      bind_res (ctx_drop h c) (\<lambda>c. Inr (v\<lparr>v_backing := Some b\<rparr>, c))))"

text \<open>The copying loop of \<open>ensure_capacity\<close>, from element \<open>i\<close> on.\<close>

fun copy_loop ::
    "nat list \<Rightarrow> (inner \<Rightarrow> inner res) \<Rightarrow> nat \<Rightarrow> 'a zero_or_init list \<Rightarrow> 'a zero_or_init list \<Rightarrow> plus_context
     \<Rightarrow> ('a zero_or_init list \<times> plus_context) res" where
  "copy_loop hs gc i [] allocated c = Inr (allocated, c)"
| "copy_loop hs gc i (src # old) allocated c =
     bind_res (index_set allocated i (fst (zero_or_init_take src))) (\<lambda>allocated.
     bind_res
       (if i mod 512 \<noteq> 0 then plus_safepoint ((length (pc_refs c) - 1) # hs) gc c else Inr c)
       (\<lambda>c. copy_loop hs gc (i + 1) old allocated c))"

text \<open>\<open>ensure_capacity\<close>: the vector and the context, and whether it returned \<open>Ok\<close>.\<close>

definition ensure_capacity ::
    "nat list \<Rightarrow> (inner \<Rightarrow> inner res) \<Rightarrow> object_ptr option \<times> object_ptr option
     \<Rightarrow> object_ptr option \<times> object_ptr option \<Rightarrow> nat \<Rightarrow> 'a gc_vec \<Rightarrow> plus_context
     \<Rightarrow> ('a gc_vec \<times> plus_context \<times> bool) res" where
  "ensure_capacity hs gc alloc1 alloc2 min_capacity v c =
     bind_res (if is_power_of_two min_capacity then Inr min_capacity else next_power_of_two min_capacity)
       (\<lambda>min_capacity.
     bind_res
       (case v_backing v of
          Some _ \<Rightarrow> Inr (v, c, True)
        | None \<Rightarrow>
            bind_res (alloc_zeroed hs gc alloc1 min_capacity c) (\<lambda>(c, r).
              case r of
                None \<Rightarrow> Inr (v, c, False)
              | Some b \<Rightarrow> bind_res (backing_store b v c) (\<lambda>(v, c). Inr (v, c, True))))
       (\<lambda>(v, c, success).
     if \<not> success then Inr (v, c, False)
     else
       bind_res (unwrap (v_backing v)) (\<lambda>backing.
         if length backing < min_capacity then
           bind_res (alloc_zeroed hs gc alloc2 min_capacity c) (\<lambda>(c, r).
             case r of
               None \<Rightarrow> Inr (v, c, False)
             | Some allocated \<Rightarrow>
                 bind_res (copy_loop hs gc 0 backing allocated c) (\<lambda>(allocated, c).
                 bind_res (backing_store allocated v c) (\<lambda>(v, c). Inr (v, c, True))))
         else Inr (v, c, True))))"

text \<open>\<open>self.backing.get_mut().unwrap()[self.len] = ZeroOrInit::new(data); self.len += 1\<close>.\<close>

definition vec_push :: "'a \<Rightarrow> 'a gc_vec \<Rightarrow> 'a gc_vec res" where
  "vec_push x v =
     bind_res (unwrap (v_backing v)) (\<lambda>b.
     bind_res (index_set b (v_len v) (zero_or_init_new x)) (\<lambda>b.
       Inr (v\<lparr>v_backing := Some b, v_len := v_len v + 1\<rparr>)))"

definition vec_insert ::
    "nat list \<Rightarrow> (inner \<Rightarrow> inner res) \<Rightarrow> object_ptr option \<times> object_ptr option
     \<Rightarrow> object_ptr option \<times> object_ptr option \<Rightarrow> 'a \<Rightarrow> 'a gc_vec \<Rightarrow> plus_context
     \<Rightarrow> ('a gc_vec \<times> plus_context \<times> bool) res" where
  "vec_insert hs gc alloc1 alloc2 x v c =
     bind_res (ensure_capacity hs gc alloc1 alloc2 (v_len v + 1) v c) (\<lambda>(v, c, success).
       if success then bind_res (vec_push x v) (\<lambda>v. Inr (v, c, True)) else Inr (v, c, False))"

fun push_all :: "'a list \<Rightarrow> 'a gc_vec \<Rightarrow> 'a gc_vec res" where
  "push_all [] v = Inr v"
| "push_all (x # xs) v = bind_res (vec_push x v) (push_all xs)"

text \<open>\<open>resize_with\<close>, with the values its closure returns.\<close>

definition vec_resize_with ::
    "nat list \<Rightarrow> (inner \<Rightarrow> inner res) \<Rightarrow> object_ptr option \<times> object_ptr option
     \<Rightarrow> object_ptr option \<times> object_ptr option \<Rightarrow> 'a list \<Rightarrow> 'a gc_vec \<Rightarrow> plus_context
     \<Rightarrow> ('a gc_vec \<times> plus_context \<times> bool) res" where
  "vec_resize_with hs gc alloc1 alloc2 xs v c =
     bind_res (ensure_capacity hs gc alloc1 alloc2 (v_len v + 1) v c) (\<lambda>(v, c, success).
       if success then bind_res (push_all xs v) (\<lambda>v. Inr (v, c, True)) else Inr (v, c, False))"

section \<open>Powers of two\<close>

lemma pow_from_done: "n \<le> p \<Longrightarrow> pow_from p n = p"
  by (subst pow_from.simps) simp

lemma pow_from_pow: "\<exists>k. p = 2 ^ k \<Longrightarrow> \<exists>k. pow_from p n = 2 ^ k"
proof (induction p n rule: pow_from.induct)
  case (1 p n)
  show ?case
  proof (cases "n \<le> p \<or> p = 0")
    case True
    then show ?thesis using "1.prems" by (auto simp: pow_from_done)
  next
    case False
    from "1.prems" obtain k where "p = 2 ^ k" by blast
    then have "\<exists>k. 2 * p = 2 ^ k" by (intro exI[of _ "Suc k"]) simp
    with "1.IH"[OF False] False show ?thesis by (subst pow_from.simps) simp
  qed
qed

lemma pow_from_ge: "p \<noteq> 0 \<Longrightarrow> n \<le> pow_from p n"
  by (induction p n rule: pow_from.induct) (subst pow_from.simps, auto)

lemma pow_from_least: "p = 2 ^ j \<Longrightarrow> n \<le> 2 ^ k \<Longrightarrow> j \<le> k \<Longrightarrow> pow_from p n \<le> 2 ^ k"
proof (induction p n arbitrary: j rule: pow_from.induct)
  case (1 p n)
  show ?case
  proof (cases "n \<le> p \<or> p = 0")
    case True
    then show ?thesis using "1.prems" by (auto simp: pow_from_done)
  next
    case False
    then have "j \<noteq> k" using "1.prems" by auto
    with "1.prems" have "pow_from (2 * p) n \<le> 2 ^ k" by (intro "1.IH"[OF False, of "Suc j"]) simp_all
    with False show ?thesis by (subst pow_from.simps) simp
  qed
qed

lemma pow_from_pow_eq: "pow_from 1 (2 ^ k) = 2 ^ k"
  using pow_from_ge[of 1 "2 ^ k"] pow_from_least[of 1 0 "2 ^ k" k] by simp

text \<open>What \<open>ensure_capacity\<close> computes first: the least power of two above its argument.\<close>

lemma capacity_rounded:
  assumes "n \<le> 2 ^ 63"
  shows "(if is_power_of_two n then Inr n else next_power_of_two n) = (Inr (pow_from 1 n) :: nat res)"
proof -
  have "pow_from 1 n \<le> 2 ^ 63" using assms by (intro pow_from_least[of 1 0]) simp_all
  then show ?thesis by (auto simp: is_power_of_two_def next_power_of_two_def)
qed

section \<open>Properties\<close>

text \<open>The backing has a power of two of slots, the first \<open>len\<close> of them initialised.\<close>

definition vec_ok :: "'a gc_vec \<Rightarrow> bool" where
  "vec_ok v \<longleftrightarrow>
     (case v_backing v of
        None \<Rightarrow> v_len v = 0
      | Some b \<Rightarrow> (\<exists>k. length b = 2 ^ k) \<and> v_len v \<le> length b \<and> (\<forall>i < v_len v. b ! i \<noteq> None))"

definition vec_contents :: "'a gc_vec \<Rightarrow> 'a list" where
  "vec_contents v = (case v_backing v of None \<Rightarrow> [] | Some b \<Rightarrow> map the (take (v_len v) b))"

lemma vec_deref_ok: "vec_ok v \<Longrightarrow> vec_deref v = Inr (map Some (vec_contents v))"
  by (auto simp: vec_ok_def vec_deref_def vec_contents_def intro!: nth_equalityI split: option.splits)

lemma vec_push_ok:
  assumes "vec_ok v" "v_backing v = Some b" "v_len v < length b"
  shows "vec_push x v = Inr (v\<lparr>v_backing := Some (b[v_len v := Some x]), v_len := v_len v + 1\<rparr>)"
    "vec_ok (v\<lparr>v_backing := Some (b[v_len v := Some x]), v_len := v_len v + 1\<rparr>)"
    "vec_contents (v\<lparr>v_backing := Some (b[v_len v := Some x]), v_len := v_len v + 1\<rparr>) = vec_contents v @ [x]"
  using assms by (auto simp: vec_push_def zero_or_init_new_def vec_ok_def vec_contents_def less_Suc_eq
      nth_list_update take_Suc_conv_app_nth)

text \<open>A fast allocation leaves the other handles alone, and so does giving its root reference away.\<close>

lemma fast_alloc_and_store:
  assumes "ctx_inv c"
  shows "\<exists>c1 c2. alloc_zeroed hs gc (Some p, slow) n c = Inr (c1, Some (replicate n (None :: 'a zero_or_init))) \<and> ctx_inv c1 \<and>
    length (pc_refs c1) = length (pc_refs c) + 1 \<and>
    backing_store b (v :: 'a gc_vec) c1 = Inr (v\<lparr>v_backing := Some b\<rparr>, c2) \<and> ctx_inv c2 \<and> length (pc_refs c2) = length (pc_refs c)"
proof -
  obtain c1 where c1: "ctx_add p c = Inr c1" "ctx_inv c1" "length (pc_refs c1) = length (pc_refs c) + 1"
    "rf_ptr (pc_refs c1 ! length (pc_refs c)) = Some p"
    using ctx_add_ok[OF assms, of p] by blast
  have "length (pc_refs c) < length (pc_refs c1)" using c1(3) by simp
  from ctx_drop_ok[OF c1(2) this] obtain c2 where
    "ctx_drop (length (pc_refs c)) c1 = Inr c2" "ctx_inv c2"
    "pc_refs c2 = take (length (pc_refs c)) (pc_refs c1) @ drop (Suc (length (pc_refs c))) (pc_refs c1)"
    by blast
  then show ?thesis using c1
    by (simp add: alloc_zeroed_def plus_alloc_def zeroed_def backing_store_def get_ptr_def Let_def)
qed

lemma ensure_capacity_room:
  assumes "vec_ok v" "v_backing v = Some b" "v_len v < length b" "v_len v < 2 ^ 63"
  shows "ensure_capacity hs gc a1 a2 (v_len v + 1) v c = Inr (v, c, True)"
proof -
  obtain k where "length b = 2 ^ k" using assms(1,2) by (auto simp: vec_ok_def)
  then have "pow_from 1 (v_len v + 1) \<le> length b" using pow_from_least[of 1 0 "v_len v + 1" k] assms(3) by simp
  then show ?thesis
    unfolding ensure_capacity_def using assms(2,4) by (subst capacity_rounded) simp_all
qed

text \<open>
  C33: Insertion works while no old slots have to be copied. If the backing has room, or there is none
  yet and the fast path of the allocator finds memory, \<open>insert\<close> returns \<open>Ok\<close> with the element at the
  end and all others kept, slicing the vector gives exactly its elements, and the thread's root
  references are as many as before.
\<close>

theorem vec_insert_correct:
  fixes v :: "'a gc_vec"
  assumes "vec_ok v" "ctx_inv c" "v_len v < 2 ^ 63"
    and "(\<exists>b. v_backing v = Some b \<and> v_len v < length b) \<or> (v_backing v = None \<and> fst alloc1 \<noteq> None)"
  shows "\<exists>v' c'. vec_insert hs gc alloc1 alloc2 x v c = Inr (v', c', True) \<and> vec_ok v' \<and> ctx_inv c' \<and>
    vec_deref v' = Inr (map Some (vec_contents v @ [x])) \<and> length (pc_refs c') = length (pc_refs c)"
  using assms(4)
proof
  assume "\<exists>b. v_backing v = Some b \<and> v_len v < length b"
  then obtain b where b: "v_backing v = Some b" "v_len v < length b" by blast
  note push = vec_push_ok[OF assms(1) b, of x]
  show ?thesis
    using ensure_capacity_room[OF assms(1) b assms(3), of hs gc alloc1 alloc2 c] push vec_deref_ok[OF push(2)] assms(2)
    by (simp add: vec_insert_def)
next
  assume none: "v_backing v = None \<and> fst alloc1 \<noteq> None"
  then obtain p slow where a1: "alloc1 = (Some p, slow)" by (cases alloc1) auto
  have len: "v_len v = 0" using assms(1) none by (simp add: vec_ok_def)
  have one: "is_power_of_two (Suc 0)" by (simp add: is_power_of_two_def pow_from_done)
  let ?v = "v\<lparr>v_backing := Some [None]\<rparr>"
  obtain c1 c2 where c: "alloc_zeroed hs gc alloc1 1 c = Inr (c1, Some [None :: 'a zero_or_init])"
    "backing_store [None] v c1 = Inr (?v, c2)" "ctx_inv c2" "length (pc_refs c2) = length (pc_refs c)"
    using fast_alloc_and_store[OF assms(2), of hs gc p slow 1 "[None]" v] a1 by (auto simp: numeral_eq_Suc)
  have "ensure_capacity hs gc alloc1 alloc2 (v_len v + 1) v c = Inr (?v, c2, True)"
    using none len one c(1,2) by (simp add: ensure_capacity_def)
  moreover have v: "vec_ok ?v" "v_backing ?v = Some [None]" "v_len ?v < length [None]" "vec_contents ?v = vec_contents v"
    using len none by (auto simp: vec_ok_def vec_contents_def intro: exI[of _ 0])
  moreover note push = vec_push_ok[OF v(1-3), of x]
  ultimately show ?thesis using vec_deref_ok[OF push(2)] c(3,4) by (simp add: vec_insert_def)
qed

theorem vec_insert_correct_witness:
  "\<exists>v' c'. vec_insert [] Inr (Some 4096, None) (None, None) (7 :: nat) vec_new two_roots = Inr (v', c', True) \<and>
     vec_deref v' = Inr [Some 7]"
  using vec_insert_correct[of "vec_new :: nat gc_vec" two_roots "(Some 4096, None)" "[]" Inr "(None, None)" 7] two_roots_inv
  by (auto simp: vec_new_def vec_ok_def vec_contents_def)

text \<open>
  Growing a vector of two or more slots panics. The vector itself is reached through a root
  reference that is loaded while \<open>insert\<close> borrows it, so it is a handle that is not in the safepoint
  list; the copying loop reaches a safepoint after the second slot, and the assertion there fails.
  (When the fast path finds no memory the assertion of \<open>alloc_slow\<close> fails before that.)
\<close>

theorem vec_growth_panics:
  assumes "ctx_inv c" "v_backing v = Some b" "2 \<le> length b" "length b \<le> v_len v" "v_len v < 2 ^ 63"
    and "distinct hs" "\<forall>h \<in> set hs. h < length (pc_refs c) \<and> rf_ptr (pc_refs c ! h) \<noteq> None"
    and "h < length (pc_refs c)" "h \<notin> set hs" "rf_ptr (pc_refs c ! h) \<noteq> None"
  shows "vec_insert hs gc alloc1 alloc2 x v c = Inl Assert_Failed"
proof -
  let ?n = "pow_from 1 (v_len v + 1)"
  have n: "length b < ?n" using pow_from_ge[of 1 "v_len v + 1"] assms(4) by simp
  have "bind_res (alloc_zeroed hs gc alloc2 ?n c) (\<lambda>(c, r).
      case r of
        None \<Rightarrow> Inr (v, c, False)
      | Some allocated \<Rightarrow>
          bind_res (copy_loop hs gc 0 b allocated c) (\<lambda>(allocated, c).
          bind_res (backing_store allocated v c) (\<lambda>(v, c). Inr (v, c, True)))) = Inl Assert_Failed"
  proof (cases "fst alloc2")
    case None
    then show ?thesis using forgotten_root[OF assms(1,6-10)] by (simp add: alloc_zeroed_def)
  next
    case (Some p)
    obtain c1 where c1: "ctx_add p c = Inr c1" "ctx_inv c1" "length (pc_refs c1) = length (pc_refs c) + 1"
      "\<forall>k < length (pc_refs c). rf_ptr (pc_refs c1 ! k) = rf_ptr (pc_refs c ! k)"
      "rf_ptr (pc_refs c1 ! length (pc_refs c)) = Some p"
      using ctx_add_ok[OF assms(1), of p] by blast
    obtain x0 x1 rest where b: "b = x0 # x1 # rest" using assms(3) by (cases b; cases "tl b") auto
    have "plus_safepoint (length (pc_refs c) # hs) gc c1 = Inl Assert_Failed"
    proof (rule conjunct1[OF forgotten_root[OF c1(2), where slow = None]])
      show "distinct (length (pc_refs c) # hs)" using assms(6,7) by auto
      show "\<forall>h \<in> set (length (pc_refs c) # hs). h < length (pc_refs c1) \<and> rf_ptr (pc_refs c1 ! h) \<noteq> None"
        using assms(7) c1(3-5) by auto
      show "h < length (pc_refs c1)" "h \<notin> set (length (pc_refs c) # hs)" "rf_ptr (pc_refs c1 ! h) \<noteq> None"
        using assms(8-10) c1(3,4) by auto
    qed
    moreover have "2 \<le> ?n" using n assms(3) by simp
    ultimately show ?thesis using Some c1(1,3) b
      by (simp add: alloc_zeroed_def plus_alloc_def zero_or_init_take_def)
  qed
  then have "ensure_capacity hs gc alloc1 alloc2 (v_len v + 1) v c = Inl Assert_Failed"
    unfolding ensure_capacity_def using assms(2,5) n by (subst capacity_rounded) simp_all
  then show ?thesis by (simp add: vec_insert_def)
qed

theorem vec_growth_panics_witness:
  "vec_insert [1] Inr (None, None) (Some 4096, None) (7 :: nat) \<lparr>v_backing = Some [Some 3, Some 4], v_len = 2\<rparr> two_roots =
     Inl Assert_Failed"
  by (rule vec_growth_panics[OF two_roots_inv, where h = 0 and b = "[Some 3, Some 4]"]) (simp_all add: two_roots_def)

text \<open>Pushing more elements than there are free slots.\<close>

lemma push_all_full:
  "vec_ok v \<Longrightarrow> v_backing v = Some b \<Longrightarrow> v_len v < length b \<Longrightarrow> length b < v_len v + length xs \<Longrightarrow>
   push_all xs v = Inl Out_Of_Bounds"
proof (induction xs arbitrary: v b)
  case (Cons x xs)
  note push = vec_push_ok[OF Cons.prems(1-3), of x]
  let ?v = "v\<lparr>v_backing := Some (b[v_len v := Some x]), v_len := v_len v + 1\<rparr>"
  show ?case
  proof (cases "v_len v + 1 < length b")
    case True
    then have "push_all xs ?v = Inl Out_Of_Bounds" using Cons.prems(4) push(2)
      by (intro Cons.IH[of ?v "b[v_len v := Some x]"]) simp_all
    then show ?thesis using push(1) by simp
  next
    case False
    with Cons.prems(3,4) obtain y ys where "xs = y # ys" by (cases xs) auto
    then show ?thesis using False push(1) by (simp add: vec_push_def index_set_def)
  qed
qed simp

lemma vec_index_set_ok:
  assumes "vec_ok v" "i < v_len v"
  shows "\<exists>v'. vec_index_set i x v = Inr v' \<and> vec_ok v' \<and> vec_contents v' = (vec_contents v)[i := x]"
proof -
  from assms obtain b k where b: "v_backing v = Some b" "length b = 2 ^ k" "v_len v \<le> length b" "\<forall>i < v_len v. b ! i \<noteq> None"
    by (auto simp: vec_ok_def split: option.splits)
  have "(take (v_len v) b)[i := Some x] @ drop (v_len v) b = b[i := Some x]"
    using assms(2) b(3) by (simp add: list_update_append1[symmetric])
  then have "vec_index_set i x v = Inr (v\<lparr>v_backing := Some (b[i := Some x])\<rparr>)"
    using assms(2) b(1,3) by (simp add: vec_index_set_def vec_deref_mut_def)
  moreover have "vec_ok (v\<lparr>v_backing := Some (b[i := Some x])\<rparr>)"
    using b assms(2) by (auto simp: vec_ok_def nth_list_update)
  moreover have "map the (take (v_len v) (b[i := Some x])) = (map the (take (v_len v) b))[i := x]"
    by (simp add: take_update_swap map_update)
  ultimately show ?thesis using b(1) by (simp add: vec_contents_def)
qed

text \<open>
  \<open>resize_with\<close> writes past the end. It makes room for one element and then pushes all it was
  asked for: with more elements than free slots it panics on the index, whatever memory there is.
\<close>

theorem vec_resize_panics:
  assumes "vec_ok v" "v_backing v = Some b" "v_len v < length b" "v_len v < 2 ^ 63" "length b < v_len v + length xs"
  shows "vec_resize_with hs gc alloc1 alloc2 xs v c = Inl Out_Of_Bounds"
  using push_all_full[OF assms(1-3,5)] ensure_capacity_room[OF assms(1-4)] by (simp add: vec_resize_with_def)

theorem vec_resize_panics_witness:
  "vec_resize_with [] Inr (None, None) (Some 4096, None) [1, 2, 3 :: nat] \<lparr>v_backing = Some [Some 0, None], v_len = 1\<rparr>
     two_roots = Inl Out_Of_Bounds"
  by (rule vec_resize_panics[where b = "[Some 0, None]"]) (auto simp: vec_ok_def intro!: exI[of _ 1])

end
