(* ===== verification/Latency_Test.thy ===== *)
theory Latency_Test
  imports Plus_Alloc Gc_Vec Instance
begin

text \<open>
  The test programs \<open>uwugc-test/src/\<close>: \<open>dumbrootset.rs\<close>, \<open>gclatencytest.rs\<close>, \<open>gclatencyexperiment.rs\<close>
  and the type manager of \<open>main.rs\<close>. In \<open>gclatencytest.rs\<close> a window of \<open>WINDOW_SIZE\<close> pointers is the only root; every step allocates a message,
  fills it and stores it into the window over the oldest. The root set and the type manager of the
  program fulfil the two contracts of the collector, \<open>root_set_contract\<close> and \<open>field_layout\<close>, so that
  what is proved in these locales holds of the program's heap. \<open>latency_run_window\<close> shows what the window
  holds in the first iterations of the loop of \<open>main\<close>, up to the first collection, \<open>experiment_panics\<close>
  that the other program ends in its second statement. Measuring and printing times is left out.
\<close>

section \<open>The root set\<close>

type_synonym dumb_root_set = "object_ptr option list"

definition dumb_new :: "nat \<Rightarrow> dumb_root_set" where
  "dumb_new n = replicate n None"

definition dumb_clone_boxed :: "dumb_root_set \<Rightarrow> dumb_root_set" where
  "dumb_clone_boxed roots = roots"

definition dumb_iter_pointers :: "dumb_root_set \<Rightarrow> object_ptr list" where
  "dumb_iter_pointers roots = concat (map (\<lambda>x. case x of None \<Rightarrow> [] | Some p \<Rightarrow> [p]) roots)"

definition dumb_map_pointers :: "(object_ptr \<Rightarrow> object_ptr res) \<Rightarrow> dumb_root_set \<Rightarrow> dumb_root_set res" where
  "dumb_map_pointers visitor roots = map_slots visitor roots"

interpretation dumb_roots: root_set_contract dumb_iter_pointers dumb_map_pointers
  by unfold_locales (simp add: dumb_iter_pointers_def dumb_map_pointers_def map_slots_refines bind_res_def split: sum.splits)

section \<open>Type managers\<close>

text \<open>\<open>NoopTypeManager\<close> knows no type.\<close>

definition noop_ops :: "unit type_manager_ops" where
  "noop_ops =
     \<lparr>tm_assume_all_dead = (\<lambda>tm. tm), tm_set_alive = (\<lambda>tm _. (tm, False)), tm_wipe_deads = (\<lambda>tm. tm),
      tm_iterate = (\<lambda>_ _ _ _. Inr None), tm_update = (\<lambda>_ _ _ _ _. Inr None),
      tm_static_size = (\<lambda>_ _. Inr None), tm_dynamic_size = (\<lambda>_ _ _ _. Inr None)\<rparr>"

definition WINDOW_TYPE_ID :: "64 word" where "WINDOW_TYPE_ID = 0"
definition WINDOW_SIZE :: nat where "WINDOW_SIZE = 200000"
definition MSG_COUNT :: nat where "MSG_COUNT = 10000000"
definition MSG_SIZE :: nat where "MSG_SIZE = 1024"

text \<open>The slice over the data of the window: the addresses of its cells.\<close>

definition window_cells :: "object_ptr \<Rightarrow> nat list" where
  "window_cells obj = map (\<lambda>i. object_data obj + 8 * i) [0..<WINDOW_SIZE]"

definition latency_set_alive :: "64 word \<Rightarrow> bool" where
  "latency_set_alive type_id \<longleftrightarrow> type_id = WINDOW_TYPE_ID"

definition latency_static_size :: "64 word \<Rightarrow> nat option" where
  "latency_static_size type_id = (if type_id = WINDOW_TYPE_ID then Some (8 * WINDOW_SIZE) else None)"

definition latency_dynamic_size :: "64 word \<Rightarrow> object_ptr \<Rightarrow> nat option" where
  "latency_dynamic_size type_id obj = latency_static_size type_id"

definition latency_iterate :: "memory \<Rightarrow> 64 word \<Rightarrow> object_ptr \<Rightarrow> object_ptr list option res" where
  "latency_iterate m type_id object =
     (if type_id \<noteq> WINDOW_TYPE_ID then Inr None
      else bind_res (visit_fields m (window_cells object)) (\<lambda>vs. Inr (Some vs)))"

definition latency_update ::
    "memory \<Rightarrow> 64 word \<Rightarrow> object_ptr \<Rightarrow> (object_ptr \<Rightarrow> object_ptr res) \<Rightarrow> memory option res" where
  "latency_update m type_id object updater =
     (if type_id \<noteq> WINDOW_TYPE_ID then Inr None
      else bind_res (update_fields m (window_cells object) updater) (\<lambda>m. Inr (Some m)))"

definition latency_ops :: "unit type_manager_ops" where
  "latency_ops =
     \<lparr>tm_assume_all_dead = (\<lambda>tm. tm), tm_set_alive = (\<lambda>tm ty. (tm, latency_set_alive ty)), tm_wipe_deads = (\<lambda>tm. tm),
      tm_iterate = (\<lambda>_. latency_iterate), tm_update = (\<lambda>_. latency_update),
      tm_static_size = (\<lambda>_ ty. Inr (latency_static_size ty)),
      tm_dynamic_size = (\<lambda>_ _ ty obj. Inr (latency_dynamic_size ty obj))\<rparr>"

interpretation latency: field_layout latency_ops tm "\<lambda>_ _ _. map (\<lambda>i. 8 * i) [0..<WINDOW_SIZE]" "\<lambda>ty. ty = WINDOW_TYPE_ID"
  for tm
proof unfold_locales
  fix ty :: "64 word" and m obj f
  assume ty: "ty = WINDOW_TYPE_ID"
  then show "tm_iterate latency_ops tm m ty obj = bind_res (visit_fields m
      (map (\<lambda>off. object_data obj + off) (map (\<lambda>i. 8 * i) [0..<WINDOW_SIZE]))) (\<lambda>vs. Inr (Some vs))"
    and "tm_update latency_ops tm m ty obj f = bind_res (update_fields m
      (map (\<lambda>off. object_data obj + off) (map (\<lambda>i. 8 * i) [0..<WINDOW_SIZE])) f) (\<lambda>m'. Inr (Some m'))"
    by (simp_all add: latency_ops_def latency_iterate_def latency_update_def window_cells_def o_def)
  from ty show "\<exists>n. tm_dynamic_size latency_ops tm m ty obj = Inr (Some n) \<and>
      (\<forall>off \<in> set (map (\<lambda>i. 8 * i) [0..<WINDOW_SIZE]). off + 8 \<le> n \<and> 8 dvd off) \<and>
      distinct (map (\<lambda>i :: nat. 8 * i) [0..<WINDOW_SIZE])"
    by (simp add: latency_ops_def latency_dynamic_size_def latency_static_size_def distinct_map inj_on_def)
qed (simp add: latency_ops_def latency_dynamic_size_def latency_static_size_def)

text \<open>So the marker is exact on the program's heap: an instance of the lemma on \<open>field_layout\<close>.\<close>

lemma latency_marks:
  assumes "heap_wf latency_ops () (\<lambda>ty. ty = WINDOW_TYPE_ID) m objs" "\<forall>x \<in> objs. hi_start hi \<le> x"
    and "set (dumb_iter_pointers roots) \<subseteq> objs" "\<forall>obj \<in> objs. \<not> obj_marked t m obj"
    and "space_ok pt" "base_addr pt = hi_to_space hi" "hi_start hi \<le> hi_used_end hi"
    and "(\<Sum>obj \<in> {obj. reaches latency_ops () m (dumb_iter_pointers roots) obj}. alloc_need (obj_size latency_ops () m obj))
      \<le> fresh_room (pt_nr_pages pt)"
  obtains st where "marker_start latency_ops () m marker_new [dumb_iter_pointers roots] pt builder_new hi t = Some (Inr st)"
    "\<forall>obj \<in> objs. obj_marked t (ms_memory st) obj \<longleftrightarrow> reaches latency_ops () m (dumb_iter_pointers roots) obj"
proof -
  have roots: "concat [dumb_iter_pointers roots] = dumb_iter_pointers roots" and mk: "mk_stack marker_new = []"
    by (simp_all add: marker_new_def)
  from latency.marker_start_total[of "()" m objs hi "[dumb_iter_pointers roots]" t pt marker_new builder_new, unfolded roots,
      OF assms mk]
  obtain order st where "marker_start latency_ops () m marker_new [dumb_iter_pointers roots] pt builder_new hi t = Some (Inr st)"
    "mark_inv latency_ops () m objs hi t builder_new (dumb_iter_pointers roots) order st"
    "ms_stack st = []" "fst ` set order = {obj. reaches latency_ops () m (dumb_iter_pointers roots) obj}"
    "fresh_room (pt_nr_pages pt) \<le> ctx_room (ms_alloc st) +
      (\<Sum>obj \<in> {obj. reaches latency_ops () m (dumb_iter_pointers roots) obj}. alloc_need (obj_size latency_ops () m obj))" .
  with mark_invD(2)[OF this(2)] show thesis by (intro that) auto
qed

section \<open>The program\<close>

text \<open>\<open>slice.fill\<close>: every byte of the message is \<open>n\<close>, so every cell is \<open>n\<close> eight times.\<close>

definition fill_word :: "8 word \<Rightarrow> 64 word" where
  "fill_word n = word_rcat (replicate 8 n)"

definition fill :: "memory \<Rightarrow> nat \<Rightarrow> nat \<Rightarrow> 8 word \<Rightarrow> memory" where
  "fill m a n byte = (\<lambda>x. if x \<in> block a n then fill_word byte else m x)"

text \<open>
  \<open>make_message\<close>: \<open>alloc_fast\<close>, else \<open>alloc_slow\<close> with the collections of \<open>cycle\<close>, which see and change
  the root set.
\<close>

definition make_message ::
    "bool \<Rightarrow> 'tm type_manager_ops \<Rightarrow> ('tm world \<Rightarrow> 'tm world res) \<Rightarrow> nat \<Rightarrow> 8 word \<Rightarrow> 'tm world \<Rightarrow> dumb_root_set
     \<Rightarrow> ('tm world \<times> dumb_root_set \<times> object_ptr option) res" where
  "make_message checks ops cycle thread n w roots =
     bind_res (alloc_fast checks ops thread (Plain MSG_SIZE) 0 w) (\<lambda>(w, fast).
     bind_res
       (case fast of
          Some x \<Rightarrow> Inr (w, roots, Some x)
        | None \<Rightarrow>
            bind_res (alloc_slow checks ops cycle thread (Plain MSG_SIZE) 0 (set_roots thread (dumb_iter_pointers roots) w))
              (\<lambda>(w, slow). Inr (w, refill (roots_in thread w) roots, slow)))
       (\<lambda>(w, roots, ret).
         case ret of
           None \<Rightarrow> Inr (w, roots, None)
         | Some x \<Rightarrow> Inr (w\<lparr>w_memory := fill (w_memory w) (object_data x) MSG_SIZE n\<rparr>, roots, Some x)))"

definition get_window :: "dumb_root_set \<Rightarrow> nat list res" where
  "get_window roots = bind_res (index roots 0) (\<lambda>slot. bind_res (unwrap slot) (\<lambda>window. Inr (window_cells window)))"

definition push_message ::
    "bool \<Rightarrow> 'tm type_manager_ops \<Rightarrow> ('tm world \<Rightarrow> 'tm world res) \<Rightarrow> nat \<Rightarrow> nat \<Rightarrow> 'tm world \<times> dumb_root_set
     \<Rightarrow> ('tm world \<times> dumb_root_set) res" where
  "push_message checks ops cycle thread id0 = (\<lambda>(w, roots).
     bind_res (make_message checks ops cycle thread (word_of_nat (id0 mod 256)) w roots) (\<lambda>(w, roots, ret).
     bind_res (unwrap ret) (\<lambda>message.
     bind_res (get_window roots) (\<lambda>window.
     bind_res (index window (id0 mod WINDOW_SIZE)) (\<lambda>cell.
       Inr (w\<lparr>w_memory := (w_memory w)(cell := word_of_nat message)\<rparr>, roots))))))"

text \<open>The loop of \<open>run\<close>; \<open>pause id\<close> is what happens to the thread at the safepoint of iteration \<open>id\<close>.\<close>

type_synonym 'tm pause = "nat \<Rightarrow> 'tm world \<times> dumb_root_set \<Rightarrow> ('tm world \<times> dumb_root_set) res"

fun push_messages ::
    "bool \<Rightarrow> 'tm type_manager_ops \<Rightarrow> ('tm world \<Rightarrow> 'tm world res) \<Rightarrow> 'tm pause
     \<Rightarrow> nat \<Rightarrow> nat list \<Rightarrow> 'tm world \<times> dumb_root_set \<Rightarrow> ('tm world \<times> dumb_root_set) res" where
  "push_messages checks ops cycle pause thread [] s = Inr s"
| "push_messages checks ops cycle pause thread (id0 # ids) s =
     bind_res (push_message checks ops cycle thread id0 s) (\<lambda>s.
     bind_res (pause id0 s) (push_messages checks ops cycle pause thread ids))"

text \<open>\<open>run\<close>: context and window, then the loop over \<open>MSG_COUNT\<close> ids.\<close>

definition latency_start :: "bool \<Rightarrow> nat \<Rightarrow> unit world \<Rightarrow> (unit world \<times> dumb_root_set) res" where
  "latency_start checks thread w =
     (let roots = dumb_new 10; w = add_context thread (dumb_iter_pointers roots) w in
      bind_res (alloc_fast checks latency_ops thread (Typed WINDOW_TYPE_ID) 0 w) (\<lambda>(w, ret).
      bind_res (unwrap ret) (\<lambda>window.
      bind_res (index_set roots 0 (Some window)) (\<lambda>roots. Inr (w, roots)))))"

definition latency_run ::
    "bool \<Rightarrow> (unit world \<Rightarrow> unit world res) \<Rightarrow> unit pause \<Rightarrow> nat \<Rightarrow> unit world \<Rightarrow> (unit world \<times> dumb_root_set) res" where
  "latency_run checks cycle pause thread w =
     bind_res (latency_start checks thread w) (push_messages checks latency_ops cycle pause thread [0..<MSG_COUNT])"

text \<open>
  \<open>main\<close>: the instance of 512 MiB with its preferred bases, then \<open>run\<close>, which replaces the type manager
  first (both are stateless). The pipes of the lock are \<open>sync_new\<close>; \<open>m\<close> is what the memory holds.
\<close>

definition main_instance ::
    "(nat \<Rightarrow> nat option \<Rightarrow> 'e + nat) \<Rightarrow> (nat \<Rightarrow> nat option \<Rightarrow> 'e + nat) \<Rightarrow> ('f create_error + gc_sync) \<Rightarrow> memory \<Rightarrow> unit world res" where
  "main_instance os_map0 os_map1 sync_new m =
     (case shared_state_new os_map0 os_map1 (512 * 1024 * 1024) (Some 0x60ef00000000) (Some 0x60ff00000000) () of
        Inl _ \<Rightarrow> Inl Unwrap_None
      | Inr shared \<Rightarrow>
          (case sync_new of
             Inl _ \<Rightarrow> Inl Unwrap_None
           | Inr _ \<Rightarrow> Inr \<lparr>w_shared = shared, w_controller = c_state controller_start, w_memory = m\<rparr>))"

definition test_main ::
    "bool \<Rightarrow> (nat \<Rightarrow> nat option \<Rightarrow> 'e + nat) \<Rightarrow> (nat \<Rightarrow> nat option \<Rightarrow> 'e + nat) \<Rightarrow> ('f create_error + gc_sync)
     \<Rightarrow> (unit world \<Rightarrow> unit world res) \<Rightarrow> unit pause \<Rightarrow> nat \<Rightarrow> memory \<Rightarrow> (unit world \<times> dumb_root_set) res" where
  "test_main checks os_map0 os_map1 sync_new cycle pause thread m =
     bind_res (main_instance os_map0 os_map1 sync_new m) (\<lambda>w.
       latency_run checks cycle pause thread (w\<lparr>w_shared := fst (set_type_manager () (w_shared w))\<rparr>))"

lemma push_messages_append:
  "push_messages checks ops cycle pause thread (ids @ ids') s =
   bind_res (push_messages checks ops cycle pause thread ids s) (push_messages checks ops cycle pause thread ids')"
  by (induction ids arbitrary: s) (auto simp: bind_res_def split: sum.splits)

section \<open>What the window holds\<close>

definition is_message :: "memory \<Rightarrow> object_ptr \<Rightarrow> 8 word \<Rightarrow> bool" where
  "is_message m p byte \<longleftrightarrow>
     obj_kind m p = PlainOldData (word_of_nat MSG_SIZE) \<and>
     (\<forall>i < MSG_SIZE div 8. m (object_data p + 8 * i) = fill_word byte)"

definition window_cell :: "object_ptr \<Rightarrow> nat \<Rightarrow> nat" where
  "window_cell window id0 = object_data window + 8 * (id0 mod WINDOW_SIZE)"

lemma window_index: "index (window_cells window) (id0 mod WINDOW_SIZE) = Inr (window_cell window id0)"
  by (simp add: window_cells_def window_cell_def WINDOW_SIZE_def del: upt_Suc)

lemma window_cell_in: "window_cell window id0 \<in> block window (METADATA_SIZE + 8 * WINDOW_SIZE)"
  by (simp add: window_cell_def object_data_def METADATA_SIZE_def WINDOW_SIZE_def)

lemma window_cell_eq: "window_cell window i = window_cell window j \<longleftrightarrow> i mod WINDOW_SIZE = j mod WINDOW_SIZE"
  by (simp add: window_cell_def)

lemma fresh_bound:
  assumes "context_wf (ctx, pt')" "fresh_block pt n pt' a" "0 < n"
  shows "a < 2 ^ 64"
proof -
  have wf: "page_table_wf pt'" using assms(1) by (simp add: context_wf_def)
  have "a \<in> used_addrs pt'" using assms(2,3) by (simp add: fresh_block_def)
  then have "a \<in> space_block pt'" using used_in_space_block[OF wf] by blast
  with page_table_wfD(1)[OF wf] show ?thesis by (simp add: space_block_def space_ok_def)
qed

text \<open>The bytes the program asks for, and a message that lies in them.\<close>

abbreviation msg_bytes :: nat where
  "msg_bytes \<equiv> MSG_SIZE + METADATA_SIZE"

lemma is_message_cong:
  assumes "is_message m p byte" "\<And>x. x \<in> block p msg_bytes \<Longrightarrow> m' x = m x"
  shows "is_message m' p byte"
proof -
  have "m' p = m p" "m' (p + 8) = m (p + 8)" by (rule assms(2); simp add: MSG_SIZE_def METADATA_SIZE_def)+
  moreover have "m' (object_data p + 8 * i) = m (object_data p + 8 * i)" if "i < MSG_SIZE div 8" for i
    using that by (intro assms(2)) (simp add: object_data_def MSG_SIZE_def METADATA_SIZE_def)
  ultimately show ?thesis using assms(1) by (auto simp: is_message_def obj_kind_def split: if_splits)
qed

text \<open>One push, when there is room.\<close>

lemma push_message_room:
  assumes wf: "context_wf (cs_mm_context cs, mm_page_table (ss_mm (w_shared w)))"
    and cs: "map_of (ss_contexts (w_shared w)) thread = Some cs"
    and roots: "roots \<noteq> []" "roots ! 0 = Some window"
    and win: "block window (METADATA_SIZE + 8 * WINDOW_SIZE) \<subseteq> used_addrs (mm_page_table (ss_mm (w_shared w)))"
    and room: "k + alloc_need msg_bytes \<le> ctx_room (cs_mm_context cs, mm_page_table (ss_mm (w_shared w)))"
  obtains w' a cs' where "push_message checks ops cycle thread id0 (w, roots) = Inr (w', roots)"
    "\<And>x. x \<notin> block a msg_bytes \<Longrightarrow> x \<noteq> window_cell window id0 \<Longrightarrow> w_memory w' x = w_memory w x"
    "is_message (w_memory w') a (word_of_nat (id0 mod 256))" "unat (w_memory w' (window_cell window id0)) = a"
    "context_wf (cs_mm_context cs', mm_page_table (ss_mm (w_shared w')))"
    "map_of (ss_contexts (w_shared w')) thread = Some cs'"
    "used_addrs (mm_page_table (ss_mm (w_shared w'))) = used_addrs (mm_page_table (ss_mm (w_shared w))) \<union> block a msg_bytes"
    "used_addrs (mm_page_table (ss_mm (w_shared w))) \<inter> block a msg_bytes = {}"
    "k \<le> ctx_room (cs_mm_context cs', mm_page_table (ss_mm (w_shared w')))"
proof -
  have size: "get_size_of_alloc True ops (ss_type_manager (w_shared w)) (Plain MSG_SIZE) = Inr msg_bytes"
    by (simp add: MSG_SIZE_def METADATA_SIZE_def)
  have al: "8 dvd msg_bytes + 0" by (simp add: MSG_SIZE_def METADATA_SIZE_def)
  have fits: "msg_bytes + 0 < 2 ^ 64" by (simp add: MSG_SIZE_def METADATA_SIZE_def)
  from wf cs size al fits show thesis
  proof (cases rule: alloc_fast_split[where checks = checks])
    case full
    with room show thesis by (simp add: ctx_room_def alloc_need_def)
  next
    case (some ctx pt a)
    let ?v = "allocated_world thread cs ctx pt a (Plain MSG_SIZE) w" and ?byte = "word_of_nat (id0 mod 256) :: 8 word"
    let ?cell = "window_cell window id0"
    let ?m = "(fill (w_memory ?v) (object_data a) MSG_SIZE ?byte)(?cell := word_of_nat a)"
    let ?w = "?v\<lparr>w_memory := ?m\<rparr>"
    have apart: "used_addrs (mm_page_table (ss_mm (w_shared w))) \<inter> block a msg_bytes = {}"
      "used_addrs pt = used_addrs (mm_page_table (ss_mm (w_shared w))) \<union> block a msg_bytes"
      using some(3) by (simp_all add: fresh_block_def del: in_block)
    have cell: "?cell \<notin> block a msg_bytes" using win window_cell_in[of window id0] apart(1) by blast
    have msg: "is_message ?m a ?byte"
    proof (rule is_message_cong)
      have "fill (w_memory ?v) (object_data a) MSG_SIZE ?byte x = w_memory ?v x" if "x = a \<or> x = a + 8" for x
        using that by (auto simp: fill_def object_data_def METADATA_SIZE_def)
      then have "obj_kind (fill (w_memory ?v) (object_data a) MSG_SIZE ?byte) a = obj_kind (w_memory ?v) a"
        by (simp add: obj_kind_def)
      also have "\<dots> = PlainOldData (word_of_nat MSG_SIZE)"
        using allocated_header(1)[where m = "w_memory ?v", OF refl refl] by simp
      finally show "is_message (fill (w_memory ?v) (object_data a) MSG_SIZE ?byte) a ?byte"
        by (simp add: is_message_def fill_def MSG_SIZE_def)
      show "?m x = fill (w_memory ?v) (object_data a) MSG_SIZE ?byte x" if "x \<in> block a msg_bytes" for x
        using that cell by auto
    qed
    show thesis
    proof (rule that[of ?w a "cs\<lparr>cs_mm_context := ctx\<rparr>"])
      show "push_message checks ops cycle thread id0 (w, roots) = Inr (?w, roots)"
        using some(1) roots window_index[of window id0]
        by (simp add: push_message_def make_message_def get_window_def)
      show "w_memory ?w x = w_memory w x" if "x \<notin> block a msg_bytes" "x \<noteq> ?cell" for x
        using that by (auto simp: fill_def allocated_memory object_data_def MSG_SIZE_def METADATA_SIZE_def)
      show "unat (w_memory ?w ?cell) = a"
        using fresh_bound[OF some(2,3)] by (simp add: MSG_SIZE_def unsigned_of_nat take_bit_nat_eq_self)
      show "k \<le> ctx_room (cs_mm_context (cs\<lparr>cs_mm_context := ctx\<rparr>), mm_page_table (ss_mm (w_shared ?w)))"
        using room some(5) by (simp add: ctx_room_def alloc_need_def)
    qed (use msg some(2) apart in \<open>simp_all add: update_conv' del: in_block\<close>)
  qed
qed

text \<open>
  The invariant of the loop after the ids \<open>0..<n\<close>: the cell of each of the last \<open>WINDOW_SIZE\<close> ids
  points to its message, which lies in allocated memory outside the window.
\<close>

definition window_holds :: "object_ptr \<Rightarrow> nat \<Rightarrow> 'tm world \<Rightarrow> bool" where
  "window_holds window n w \<longleftrightarrow>
     (\<forall>id0 < n. n \<le> id0 + WINDOW_SIZE \<longrightarrow>
        (let p = unat (w_memory w (window_cell window id0)) in
         is_message (w_memory w) p (word_of_nat (id0 mod 256)) \<and>
         block p msg_bytes \<subseteq> used_addrs (mm_page_table (ss_mm (w_shared w))) \<and>
         block window (METADATA_SIZE + 8 * WINDOW_SIZE) \<inter> block p msg_bytes = {}))"

lemma window_holds_push:
  assumes holds: "window_holds window n w"
    and mem: "\<And>x. x \<notin> block a msg_bytes \<Longrightarrow> x \<noteq> window_cell window n \<Longrightarrow> w_memory w' x = w_memory w x"
    and new: "is_message (w_memory w') a (word_of_nat (n mod 256))" "unat (w_memory w' (window_cell window n)) = a"
    and used: "used_addrs (mm_page_table (ss_mm (w_shared w'))) = used_addrs (mm_page_table (ss_mm (w_shared w))) \<union> block a msg_bytes"
      "used_addrs (mm_page_table (ss_mm (w_shared w))) \<inter> block a msg_bytes = {}"
    and win: "block window (METADATA_SIZE + 8 * WINDOW_SIZE) \<subseteq> used_addrs (mm_page_table (ss_mm (w_shared w)))"
  shows "window_holds window (Suc n) w'"
  unfolding window_holds_def Let_def
proof (intro allI impI)
  fix id0 assume id0: "id0 < Suc n" "Suc n \<le> id0 + WINDOW_SIZE"
  let ?p = "unat (w_memory w' (window_cell window id0))"
  let ?block = "block window (METADATA_SIZE + 8 * WINDOW_SIZE)"
  show "is_message (w_memory w') ?p (word_of_nat (id0 mod 256)) \<and>
      block ?p msg_bytes \<subseteq> used_addrs (mm_page_table (ss_mm (w_shared w'))) \<and> ?block \<inter> block ?p msg_bytes = {}"
  proof (cases "id0 = n")
    case True
    have "block a msg_bytes \<subseteq> used_addrs (mm_page_table (ss_mm (w_shared w')))" "?block \<inter> block a msg_bytes = {}"
      using used win by blast+
    with True new show ?thesis by simp
  next
    case False
    let ?q = "unat (w_memory w (window_cell window id0))"
    from False id0 holds have q: "is_message (w_memory w) ?q (word_of_nat (id0 mod 256))"
      "block ?q msg_bytes \<subseteq> used_addrs (mm_page_table (ss_mm (w_shared w)))" "?block \<inter> block ?q msg_bytes = {}"
      unfolding window_holds_def Let_def by auto
    have "\<not> WINDOW_SIZE dvd n - id0" using False id0 dvd_imp_le[of WINDOW_SIZE "n - id0"] by auto
    then have "id0 mod WINDOW_SIZE \<noteq> n mod WINDOW_SIZE" using id0(1) mod_eq_dvd_iff_nat[of id0 n WINDOW_SIZE] by auto
    then have ne: "window_cell window id0 \<noteq> window_cell window n" by (simp add: window_cell_eq)
    have "window_cell window id0 \<notin> block a msg_bytes" using win window_cell_in[of window id0] used(2) by blast
    with ne have p: "?p = ?q" by (simp add: mem)
    have "w_memory w' x = w_memory w x" if "x \<in> block ?q msg_bytes" for x
      using that q(2,3) used(2) window_cell_in[of window n] by (intro mem) blast+
    from is_message_cong[OF q(1) this] q(2,3) used(1) show ?thesis unfolding p by blast
  qed
qed

lemma push_messages_window:
  assumes wf: "context_wf (cs_mm_context cs, mm_page_table (ss_mm (w_shared w)))"
    and cs: "map_of (ss_contexts (w_shared w)) thread = Some cs"
    and roots: "roots \<noteq> []" "roots ! 0 = Some window"
    and win: "block window (METADATA_SIZE + 8 * WINDOW_SIZE) \<subseteq> used_addrs (mm_page_table (ss_mm (w_shared w)))"
    and room: "k + n * alloc_need msg_bytes \<le> ctx_room (cs_mm_context cs, mm_page_table (ss_mm (w_shared w)))"
    and pause: "\<forall>id0 < n. \<forall>s. pause id0 s = Inr s"
  shows "\<exists>w' cs'. push_messages checks ops cycle pause thread [0..<n] (w, roots) = Inr (w', roots) \<and> window_holds window n w' \<and>
    context_wf (cs_mm_context cs', mm_page_table (ss_mm (w_shared w'))) \<and>
    map_of (ss_contexts (w_shared w')) thread = Some cs' \<and>
    used_addrs (mm_page_table (ss_mm (w_shared w))) \<subseteq> used_addrs (mm_page_table (ss_mm (w_shared w'))) \<and>
    k \<le> ctx_room (cs_mm_context cs', mm_page_table (ss_mm (w_shared w')))"
  using room pause
proof (induction n arbitrary: k)
  case 0
  with wf cs show ?case by (auto simp: window_holds_def)
next
  case (Suc n)
  from Suc.prems(1) have "k + alloc_need msg_bytes + n * alloc_need msg_bytes \<le>
      ctx_room (cs_mm_context cs, mm_page_table (ss_mm (w_shared w)))" by simp
  moreover have "\<forall>id0 < n. \<forall>s. pause id0 s = Inr s" using Suc.prems(2) by simp
  ultimately obtain w1 cs1 where 1:
    "push_messages checks ops cycle pause thread [0..<n] (w, roots) = Inr (w1, roots)" "window_holds window n w1"
    "context_wf (cs_mm_context cs1, mm_page_table (ss_mm (w_shared w1)))" "map_of (ss_contexts (w_shared w1)) thread = Some cs1"
    "used_addrs (mm_page_table (ss_mm (w_shared w))) \<subseteq> used_addrs (mm_page_table (ss_mm (w_shared w1)))"
    "k + alloc_need msg_bytes \<le> ctx_room (cs_mm_context cs1, mm_page_table (ss_mm (w_shared w1)))" using Suc.IH by blast
  have win1: "block window (METADATA_SIZE + 8 * WINDOW_SIZE) \<subseteq> used_addrs (mm_page_table (ss_mm (w_shared w1)))"
    using win 1(5) by blast
  from push_message_room[OF 1(3,4) roots win1 1(6), of checks ops cycle n] obtain w' a cs' where
    2: "push_message checks ops cycle thread n (w1, roots) = Inr (w', roots)"
    "\<And>x. x \<notin> block a msg_bytes \<Longrightarrow> x \<noteq> window_cell window n \<Longrightarrow> w_memory w' x = w_memory w1 x"
    "is_message (w_memory w') a (word_of_nat (n mod 256))" "unat (w_memory w' (window_cell window n)) = a"
    "context_wf (cs_mm_context cs', mm_page_table (ss_mm (w_shared w')))"
    "map_of (ss_contexts (w_shared w')) thread = Some cs'"
    "used_addrs (mm_page_table (ss_mm (w_shared w'))) = used_addrs (mm_page_table (ss_mm (w_shared w1))) \<union> block a msg_bytes"
    "used_addrs (mm_page_table (ss_mm (w_shared w1))) \<inter> block a msg_bytes = {}"
    "k \<le> ctx_room (cs_mm_context cs', mm_page_table (ss_mm (w_shared w')))" by metis
  have "push_messages checks ops cycle pause thread [0..<Suc n] (w, roots) = Inr (w', roots)"
    using 1(1) 2(1) Suc.prems(2) by (simp add: push_messages_append)
  moreover have "window_holds window (Suc n) w'"
    by (rule window_holds_push[OF 1(2) 2(2-4) 2(7,8) win1])
  moreover have "used_addrs (mm_page_table (ss_mm (w_shared w))) \<subseteq> used_addrs (mm_page_table (ss_mm (w_shared w')))"
    using 1(5) 2(7) by blast
  ultimately show ?case using 2(5,6,9) by blast
qed

text \<open>The first \<open>n\<close> iterations on any heap with room for the window and \<open>n\<close> messages.\<close>

lemma latency_prefix:
  assumes "page_table_wf (mm_page_table (ss_mm (w_shared w)))"
    and "n * alloc_need msg_bytes + alloc_need (8 * WINDOW_SIZE + METADATA_SIZE) \<le>
      ctx_room (mm_context_new, mm_page_table (ss_mm (w_shared w)))"
    and "\<forall>id0 < n. \<forall>s. pause id0 s = Inr s"
  obtains w' roots window where
    "bind_res (latency_start checks thread w) (push_messages checks latency_ops cycle pause thread [0..<n]) = Inr (w', roots)"
    "roots ! 0 = Some window" "window_holds window n w'"
proof -
  let ?w = "add_context thread (dumb_iter_pointers (dumb_new 10)) w"
  let ?cs = "\<lparr>cs_mm_context = mm_context_new, cs_root_set = dumb_iter_pointers (dumb_new 10)\<rparr>"
  have mm: "ss_mm (w_shared ?w) = ss_mm (w_shared w)" by (simp add: add_context_def new_context_def)
  have cs: "map_of (ss_contexts (w_shared ?w)) thread = Some ?cs"
    by (simp add: add_context_def new_context_def update_conv')
  have wf: "context_wf (cs_mm_context ?cs, mm_page_table (ss_mm (w_shared ?w)))"
    using assms(1) by (simp add: context_wf_def mm)
  have size: "get_size_of_alloc True latency_ops (ss_type_manager (w_shared ?w)) (Typed WINDOW_TYPE_ID) = Inr (8 * WINDOW_SIZE + METADATA_SIZE)"
    by (simp add: latency_ops_def latency_static_size_def WINDOW_SIZE_def METADATA_SIZE_def)
  have al: "8 dvd 8 * WINDOW_SIZE + METADATA_SIZE + 0" "8 * WINDOW_SIZE + METADATA_SIZE + 0 < 2 ^ 64"
    by (simp_all add: METADATA_SIZE_def WINDOW_SIZE_def)
  from wf cs size al show thesis
  proof (cases rule: alloc_fast_split[where checks = checks])
    case full
    with assms(2) show ?thesis by (simp add: ctx_room_def alloc_need_def mm)
  next
    case (some ctx pt window)
    let ?v = "allocated_world thread ?cs ctx pt window (Typed WINDOW_TYPE_ID) ?w"
    let ?roots = "Some window # replicate 9 None"
    have "block window (METADATA_SIZE + 8 * WINDOW_SIZE) \<subseteq> used_addrs (mm_page_table (ss_mm (w_shared ?v)))"
      using some(3) by (simp add: fresh_block_def add.commute del: in_block)
    moreover have "n * alloc_need msg_bytes \<le> ctx_room (cs_mm_context (?cs\<lparr>cs_mm_context := ctx\<rparr>), mm_page_table (ss_mm (w_shared ?v)))"
      using assms(2) some(5) by (simp add: ctx_room_def alloc_need_def mm)
    ultimately obtain w' where w': "push_messages checks latency_ops cycle pause thread [0..<n] (?v, ?roots) = Inr (w', ?roots)"
        "window_holds window n w'"
      using push_messages_window[of "?cs\<lparr>cs_mm_context := ctx\<rparr>" ?v thread ?roots window 0 n pause checks latency_ops cycle]
        some(2) assms(3) by (auto simp: update_conv')
    have "index_set (dumb_new 10) 0 (Some window) = Inr ?roots"
      by (simp add: dumb_new_def eval_nat_numeral)
    then have "latency_start checks thread w = Inr (?v, ?roots)"
      using some(1) by (simp add: latency_start_def Let_def)
    then show ?thesis using w' by (intro that[of w' ?roots window]) simp_all
  qed
qed

text \<open>The heap of \<open>main\<close> has 256 base pages: enough for the window and 250000 messages.\<close>

lemma main_instance_room:
  assumes maps: "maps_apart os_map0 os_map1"
    and mapped: "os_map0 (512 * 1024 * 1024) (Some 0x60ff00000000) = Inr q" "os_map1 (512 * 1024 * 1024) (Some 0x60ef00000000) = Inr p"
    and n: "n \<le> 250000" and sync: "sync_new = Inr sync"
  obtains w where "main_instance os_map0 os_map1 sync_new m = Inr w"
    "page_table_wf (mm_page_table (ss_mm (w_shared w)))"
    "n * alloc_need msg_bytes + alloc_need (8 * WINDOW_SIZE + METADATA_SIZE) \<le>
      ctx_room (mm_context_new, mm_page_table (ss_mm (w_shared w)))"
proof -
  have pages: "div_ceil (512 * 1024 * 1024) BASE_PAGE_SIZE = 256" "256 * BASE_PAGE_SIZE = 512 * 1024 * 1024"
    by (simp_all add: div_ceil_def BASE_PAGE_SIZE_def)
  obtain second first where new: "mm_new os_map0 (512 * 1024 * 1024) (Some 0x60ff00000000) = Inr second"
    "mm_new os_map1 (512 * 1024 * 1024) (Some 0x60ef00000000) = Inr first"
    "first = \<lparr>mm_mapping = \<lparr>map_ptr = p, map_len = 512 * 1024 * 1024\<rparr>, mm_page_table = page_table_new p 256\<rparr>"
    unfolding mm_new_def Let_def pages using mapped by simp
  have "page_table_wf (mm_page_table first)"
    using mm_new_ok(2)[OF new(2)] maps_apartD(2)[OF maps] by blast
  moreover have "n * alloc_need msg_bytes + alloc_need (8 * WINDOW_SIZE + METADATA_SIZE) \<le>
      ctx_room (mm_context_new, mm_page_table first)"
    using n by (simp add: new(3) ctx_room_fresh page_table_new_def fresh_room_def alloc_need_def MSG_SIZE_def METADATA_SIZE_def
        WINDOW_SIZE_def BASE_PAGE_SIZE_def)
  ultimately show thesis
    using that new(1,2) by (simp add: sync main_instance_def shared_state_new_def)
qed

section \<open>Properties\<close>

text \<open>
  C24: The test program keeps the latest messages, up to its first collection. On the instance that
  \<open>main\<close> creates, when the kernel maps both spaces, the first \<open>n \<le> 250000\<close> of the \<open>MSG_COUNT\<close> iterations return
  without a panic and without a collection, whatever a collection would do: after them the cell
  \<open>i mod WINDOW_SIZE\<close> of the window, for each of the last \<open>WINDOW_SIZE\<close> ids \<open>i\<close> below \<open>n\<close>, points to an object of
  \<open>MSG_SIZE\<close> bytes, all of which are \<open>i mod 256\<close>, and the program goes on from there with the ids from \<open>n\<close> on.
  The safepoints of these iterations do nothing, as they do while no collection has been started;
  only the thread itself starts one, in \<open>alloc_slow\<close>. The heap is full soon after.
\<close>

theorem latency_run_window:
  assumes "maps_apart os_map0 os_map1"
    and "os_map0 (512 * 1024 * 1024) (Some 0x60ff00000000) = Inr q" "os_map1 (512 * 1024 * 1024) (Some 0x60ef00000000) = Inr p"
    and "sync_new = Inr sync" "n \<le> 250000" "\<forall>id0 < n. \<forall>s. pause id0 s = Inr s"
  shows "\<exists>w w' roots window. main_instance os_map0 os_map1 sync_new m = Inr w \<and>
    bind_res (latency_start checks thread w) (push_messages checks latency_ops cycle pause thread [0..<n]) = Inr (w', roots) \<and>
    test_main checks os_map0 os_map1 sync_new cycle pause thread m =
      push_messages checks latency_ops cycle pause thread [n..<MSG_COUNT] (w', roots) \<and>
    roots ! 0 = Some window \<and>
    (\<forall>i < n. n \<le> i + WINDOW_SIZE \<longrightarrow>
      is_message (w_memory w') (unat (w_memory w' (object_data window + 8 * (i mod WINDOW_SIZE)))) (word_of_nat (i mod 256)))"
proof -
  from main_instance_room[OF assms(1-3,5,4), of m] obtain w where
    w: "main_instance os_map0 os_map1 sync_new m = Inr w" "page_table_wf (mm_page_table (ss_mm (w_shared w)))"
      "n * alloc_need msg_bytes + alloc_need (8 * WINDOW_SIZE + METADATA_SIZE) \<le>
        ctx_room (mm_context_new, mm_page_table (ss_mm (w_shared w)))" .
  from latency_prefix[OF w(2,3) assms(6)] obtain w' roots window where
    run: "bind_res (latency_start checks thread w) (push_messages checks latency_ops cycle pause thread [0..<n]) = Inr (w', roots)"
    and held: "roots ! 0 = Some window" "window_holds window n w'" .
  from run obtain s where s: "latency_start checks thread w = Inr s"
    "push_messages checks latency_ops cycle pause thread [0..<n] s = Inr (w', roots)" by (auto simp: res_eq_simps)
  have "n \<le> MSG_COUNT" using assms(5) by (simp add: MSG_COUNT_def)
  then have "[0..<MSG_COUNT] = [0..<n] @ [n..<MSG_COUNT]" using upt_add_eq_append[of 0 n "MSG_COUNT - n"] by simp
  moreover have "w\<lparr>w_shared := fst (set_type_manager () (w_shared w))\<rparr> = w"
    by (cases w; cases "w_shared w") (simp add: set_type_manager_def)
  ultimately have "test_main checks os_map0 os_map1 sync_new cycle pause thread m =
      push_messages checks latency_ops cycle pause thread [n..<MSG_COUNT] (w', roots)"
    using w(1) s by (simp add: test_main_def latency_run_def push_messages_append)
  then show ?thesis using w(1) run held by (auto simp: window_holds_def Let_def window_cell_def)
qed

section \<open>The other program\<close>

text \<open>
  \<open>gclatencyexperiment.rs\<close> keeps its messages in a \<open>Vec\<close> of pointers (0 is null). The context is that of
  the thread, in which the handle of \<open>store\<close> is the first. Each allocation is given by what the fast
  and the slow path return; \<open>gc\<close> is what a collection does to the root set.
\<close>

type_synonym alloc_answer = "object_ptr option \<times> object_ptr option"

definition EXPERIMENT_WINDOW_SIZE :: nat where "EXPERIMENT_WINDOW_SIZE = 200000"

definition experiment_create_message ::
    "nat list \<Rightarrow> (inner \<Rightarrow> inner res) \<Rightarrow> alloc_answer \<Rightarrow> plus_context \<Rightarrow> plus_context res" where
  "experiment_create_message hs gc answer c =
     bind_res (plus_alloc hs gc (fst answer) (snd answer) c) (\<lambda>(c, found).
       if found then Inr c else Inl Unwrap_None)"

definition experiment_push_message ::
    "(inner \<Rightarrow> inner res) \<Rightarrow> alloc_answer \<Rightarrow> nat \<Rightarrow> 64 word gc_vec \<times> plus_context \<Rightarrow> (64 word gc_vec \<times> plus_context) res" where
  "experiment_push_message gc answer id0 = (\<lambda>(store, c).
     bind_res (experiment_create_message [0] gc answer c) (\<lambda>c.
     bind_res (vec_deref_mut store) (\<lambda>slots.
     bind_res (index slots (id0 mod EXPERIMENT_WINDOW_SIZE)) (\<lambda>_.
     bind_res (root_ref_into_ptr (length (pc_refs c) - 1) c) (\<lambda>(ptr, c).
     bind_res (vec_index_set (id0 mod EXPERIMENT_WINDOW_SIZE) ptr store) (\<lambda>store. Inr (store, c)))))))"

fun experiment_loop ::
    "(inner \<Rightarrow> inner res) \<Rightarrow> alloc_answer list \<Rightarrow> nat \<Rightarrow> 64 word gc_vec \<times> plus_context \<Rightarrow> (64 word gc_vec \<times> plus_context) res" where
  "experiment_loop gc [] i s = Inr s"
| "experiment_loop gc (answer # answers) i s =
     bind_res (experiment_push_message gc answer i s) (experiment_loop gc answers (i + 1))"

definition experiment_run ::
    "(inner \<Rightarrow> inner res) \<Rightarrow> alloc_answer \<Rightarrow> alloc_answer \<Rightarrow> alloc_answer \<Rightarrow> alloc_answer list \<Rightarrow> (64 word gc_vec \<times> plus_context) res" where
  "experiment_run gc answer0 answer1 answer2 answers =
     bind_res (plus_alloc [] gc (fst answer0) (snd answer0) plus_context_new) (\<lambda>(c, found).
     if \<not> found then Inl Unwrap_None
     else
       bind_res (vec_resize_with [] gc answer1 answer2 (replicate EXPERIMENT_WINDOW_SIZE gc_box_option_none) vec_new c)
         (\<lambda>(store, c, success).
       if \<not> success then Inl Unwrap_None else experiment_loop gc answers 0 (store, c)))"

text \<open>\<open>resize_with\<close> on an empty vector, from a context with one loaded handle that is not listed.\<close>

lemma resize_empty_panics:
  assumes "ctx_inv c" "0 < length (pc_refs c)" "rf_ptr (pc_refs c ! 0) \<noteq> None" "1 < length xs"
  shows "vec_resize_with [] gc answer1 answer2 xs vec_new c =
    Inl (if fst answer1 = None then Assert_Failed else Out_Of_Bounds)"
proof (cases "fst answer1")
  case None
  have "plus_alloc [] gc None (snd answer1) c = Inl Assert_Failed"
    using forgotten_root[OF assms(1), of "[]" 0 gc "snd answer1"] assms(2,3) by simp
  with None show ?thesis
    by (simp add: vec_resize_with_def ensure_capacity_def vec_new_def is_power_of_two_def pow_from.simps alloc_zeroed_def)
next
  case (Some p)
  let ?v = "vec_new\<lparr>v_backing := Some [None]\<rparr> :: 'a gc_vec"
  from fast_alloc_and_store[OF assms(1), of "[]" gc p "snd answer1" 1 "[None]" vec_new] Some obtain c1 c2 where
    "alloc_zeroed [] gc answer1 1 c = Inr (c1, Some [None :: 'a zero_or_init])" "backing_store [None] vec_new c1 = Inr (?v, c2)"
    by (cases answer1) auto
  then have "ensure_capacity [] gc answer1 answer2 (v_len (vec_new :: 'a gc_vec) + 1) vec_new c = Inr (?v, c2, True)"
    by (simp add: ensure_capacity_def is_power_of_two_def pow_from.simps vec_new_def)
  moreover have "push_all xs ?v = Inl Out_Of_Bounds"
    using assms(4) by (intro push_all_full[of _ "[None]"]) (auto simp: vec_ok_def vec_new_def intro: exI[of _ 0])
  ultimately show ?thesis using Some by (simp add: vec_resize_with_def)
qed

text \<open>
  The program \<open>gclatencyexperiment.rs\<close> cannot get past filling its vector, whatever the allocator
  and the collector do: without memory for the vector \<open>expect\<close> panics; with it, \<open>resize_with\<close> panics,
  on the index after its single slot, or, when the fast path finds no memory, on the assertion in
  \<open>alloc_slow\<close>, since the reference to the vector itself is not in the safepoint.
\<close>

theorem experiment_panics:
  "experiment_run (inner_map_pointers visitor) answer0 answer1 answer2 answers =
     Inl (if fst answer0 = None \<and> snd answer0 = None then Unwrap_None
          else if fst answer1 = None then Assert_Failed else Out_Of_Bounds)"
proof -
  let ?gc = "inner_map_pointers visitor"
  have gc: "?gc (pc_inner plus_context_new) = Inr (pc_inner plus_context_new)"
    by (simp add: inner_map_pointers_def plus_context_new_def)
  have none: "plus_alloc [] ?gc None None plus_context_new = Inr (plus_context_new, False)"
    using gc by (simp add: plus_alloc_def before_safepoint_def after_safepoint_def context_alloc_slow_def plus_context_new_def)
  have resize: "experiment_run ?gc answer0 answer1 answer2 answers = Inl (if fst answer1 = None then Assert_Failed else Out_Of_Bounds)"
    if some: "plus_alloc [] ?gc (fst answer0) (snd answer0) plus_context_new = bind_res (ctx_add p plus_context_new) (\<lambda>c. Inr (c, True))" for p
  proof -
    from ctx_add_ok[OF ctx_inv_new, of p] obtain c where c: "ctx_add p plus_context_new = Inr c" "ctx_inv c"
      "length (pc_refs c) = 1" "rf_ptr (pc_refs c ! 0) = Some p" by (auto simp: plus_context_new_def)
    have "1 < length (replicate EXPERIMENT_WINDOW_SIZE gc_box_option_none)" by (simp add: EXPERIMENT_WINDOW_SIZE_def)
    from resize_empty_panics[OF c(2) _ _ this] c some show ?thesis by (simp add: experiment_run_def)
  qed
  show ?thesis
  proof (cases answer0)
    case (Pair fast slow)
    show ?thesis
    proof (cases fast)
      case None
      show ?thesis
      proof (cases slow)
        case None
        with Pair \<open>fast = None\<close> none show ?thesis by (simp add: experiment_run_def)
      next
        case (Some p)
        have "plus_alloc [] ?gc fast slow plus_context_new = bind_res (ctx_add p plus_context_new) (\<lambda>c. Inr (c, True))"
          using gc \<open>fast = None\<close> Some
          by (simp add: plus_alloc_def before_safepoint_def after_safepoint_def context_alloc_slow_def plus_context_new_def
              bind_res_def split: sum.splits)
        from resize[of p] this Pair Some show ?thesis by simp
      qed
    next
      case (Some p)
      with Pair show ?thesis using resize[of p] by (simp add: plus_alloc_def)
    qed
  qed
qed

theorem latency_run_window_witness:
  "\<exists>w' roots window. test_main True (two_maps 0) (two_maps 1) (Inr (gc_sync_new 0) :: unit create_error + gc_sync) Inr (\<lambda>_. Inr) 1 (\<lambda>_. 0) =
      push_messages True latency_ops Inr (\<lambda>_. Inr) 1 [250000..<MSG_COUNT] (w', roots) \<and>
    is_message (w_memory w') (unat (w_memory w' (object_data window))) (word_of_nat (200000 mod 256)) \<and>
    is_message (w_memory w') (unat (w_memory w' (object_data window + 8 * 50000))) (word_of_nat (50000 mod 256))"
proof -
  have "two_maps 0 (512 * 1024 * 1024) (Some 0x60ff00000000) = Inr (2 ^ 50)"
    "two_maps 1 (512 * 1024 * 1024) (Some 0x60ef00000000) = Inr (2 ^ 51)" by (simp_all add: two_maps_def)
  from latency_run_window[OF two_maps_apart this, where sync_new = "Inr (gc_sync_new 0)" and n = 250000 and pause = "\<lambda>_. Inr" and
      m = "\<lambda>_. 0" and checks = True and thread = 1 and cycle = Inr] obtain w' roots window where
    run: "test_main True (two_maps 0) (two_maps 1) (Inr (gc_sync_new 0) :: unit create_error + gc_sync) Inr (\<lambda>_. Inr) 1 (\<lambda>_. 0) =
      push_messages True latency_ops Inr (\<lambda>_. Inr) 1 [250000..<MSG_COUNT] (w', roots)"
    and msg: "\<forall>i < 250000. 250000 \<le> i + WINDOW_SIZE \<longrightarrow>
      is_message (w_memory w') (unat (w_memory w' (object_data window + 8 * (i mod WINDOW_SIZE)))) (word_of_nat (i mod 256))"
    by fastforce
  from msg[rule_format, of 200000] msg[rule_format, of 50000] run show ?thesis by (auto simp: WINDOW_SIZE_def)
qed

end
