(* ===== verification/Spec2Isabelle.thy ===== *)
theory Spec2Isabelle
  imports Hazards GC_Controller Profiler Has_Descriptor Safepoints Latency_Test
begin

text \<open>
  UwUGC is a compacting collector for a heap of two equal spaces, written in Rust. The crate \<open>uwugc\<close>
  holds the collector; \<open>uwugc-plus\<close> adds types, root references and safepoints for ordinary Rust
  code; \<open>uwugc-plus-derive\<close> and \<open>uwugc-plus-alloc\<close> add the derive macro and a growable vector.

  How the parts interact. Mutator threads allocate from the page table of the current space through a
  context with a buffer page. The looper of the controller runs collections: it takes the heap
  exclusively by stopping all threads at safepoints, saves the root sets, lets the marker walk the
  live objects and build a registry that says where each object will be, stops the threads again,
  exchanges the spaces and forwards the roots, and relocates the objects page by page, on demand when
  a thread touches a page and eagerly otherwise. Finally the old space is cleared.

  Which theory models what (source files under \<open>src/\<close>):

  \<^item> \<open>Prelude\<close>: panics as a sum type (\<open>'a res\<close>), checked arithmetic and indexing, address blocks.
  \<^item> \<open>Flex_Page\<close>, \<open>Page_Table\<close>, \<open>MM_Context\<close>, \<open>Memory_Map\<close>: \<open>uwugc/src/mm/\<close> and \<open>mmap.rs\<close>, the bump
    allocator. \<open>Allocator_Interface\<close> is what callers may rely on, interpreted for the page table and
    for the context.
  \<^item> \<open>Object_Metadata\<close>, \<open>Type_Manager\<close>, \<open>Object_Heap\<close>: \<open>object/\<close> and \<open>type_manager.rs\<close>; headers, the
    trait through which the collector learns layouts, and well-formed heaps. The locale
    \<open>field_layout\<close> is the contract of a type manager.
  \<^item> \<open>Relocation_Map\<close>, \<open>Marker\<close>, \<open>Bitmap\<close>, \<open>Quirks\<close>, \<open>Copier\<close>, \<open>GC_Cycle\<close>: \<open>gc/\<close>, \<open>gc.rs\<close>, \<open>bitmap.rs\<close>
    and \<open>quirks/\<close>; the five steps of a cycle.
  \<^item> \<open>GC_Controller\<close>, \<open>GC_Sync\<close>, \<open>Pipe\<close>: \<open>gc_controller.rs\<close>, \<open>gc_sync.rs\<close>, \<open>pipe.rs\<close>; transition systems
    whose steps are the atomic actions of the threads.
  \<^item> \<open>Shared_State\<close>, \<open>Profiler\<close>: \<open>state.rs\<close>, \<open>state/context.rs\<close>, \<open>root_set.rs\<close>; \<open>profiler.rs\<close>.
  \<^item> \<open>Descriptor\<close>, \<open>Types\<close>, \<open>Has_Descriptor\<close>: \<open>uwugc-plus/src/\<close> \<open>descriptor.rs\<close>, \<open>types.rs\<close>, \<open>types/\<close>,
    \<open>has_descriptor.rs\<close>, and the derive macro. \<open>Types\<close> is the type manager of the model: it interprets
    \<open>field_layout\<close>.
  \<^item> \<open>Root_Refs\<close>, \<open>Typed_Memory\<close>, \<open>Gc_Vec\<close>: \<open>uwugc-plus/src/\<close> \<open>context.rs\<close>, \<open>safepoint.rs\<close>, \<open>lib.rs\<close>,
    \<open>typed_root_ref.rs\<close>, \<open>gcbox.rs\<close>, \<open>array.rs\<close>; \<open>uwugc-plus-alloc/src/\<close>.
  \<^item> \<open>Plus_Alloc\<close> and \<open>Safepoints\<close> put these on a heap with the collector below: \<open>alloc\<close> and \<open>alloc_array\<close>
    of \<open>lib.rs\<close> over the allocator and over collections, safepoint values, and the start of a thread.
    \<open>Instance\<close> is \<open>UwUGC\<close> in \<open>state.rs\<close>, its creation, contexts and end. \<open>Latency_Test\<close> holds the programs
    \<open>uwugc-test/src/\<close> \<open>gclatencytest.rs\<close>, \<open>gclatencyexperiment.rs\<close> and \<open>dumbrootset.rs\<close>.
  \<^item> \<open>Collection\<close> composes marker, registry, copier and cycle; \<open>Mutator\<close> lets mutators allocate, write
    and change their roots and has the invariant of the whole; \<open>Concurrent_Marking\<close> interleaves them with the
    iterations of the marker, and \<open>Concurrent_Cycle\<close> runs them in every concurrent phase of a cycle;
    \<open>Sample_World\<close> is a concrete heap for the witnesses; \<open>Hazards\<close> states what goes wrong when
    mutators do in these phases what the code does not provide for.

  State. Memory is a function from addresses to 64-bit words, of which only the multiples of 8 that
  the code touches matter; object pointers are addresses of headers. Sizes and indices are natural
  numbers; where the code adds or multiplies them in \<open>usize\<close> or \<open>u32\<close> without a check and can leave the
  range, the result goes through \<open>usize_in\<close> or \<open>u32_in\<close>, which wrap, or panic when the flag \<open>checks\<close>
  (overflow checks of the build) is set. A mutex-protected structure is a
  record and its critical section one function on it. Concurrency is in the order of steps: the
  controller and the stop-the-world lock are transition systems over any number of threads; the
  copier's jobs and page faults run in any order that a schedule gives; the
  marker's iterations are steps of a relation in which mutators take turns; between the steps of a cycle
  a function may change the world. An iteration of the marker is one step, and so are steps 3 and 4.
  The request to shut down sets the flag of the controller and notifies in one step.

  What the lemmas show. For each component, its invariant and that the operations keep it, and what
  each operation returns: allocations are aligned and disjoint and served while there is room; the
  marker ends and marks exactly the reachable objects; the registry is a function that agrees with a
  linear search; a cycle moves every live object, forwards pointers and roots and leaves a world
  ready for the next cycle, also when mutators run while it marks, as long as they take no pointer out
  of the heap then and do not allocate (each iteration of the marker in between returns, and their number
  has a bound), and when they run and allocate before its last step; what
  mutators do between cycles keeps the heap ready for one, and an
  allocation that waits for a cycle finds room if the live objects leave any; the writer excludes the readers and gets the heap once they are parked, unless a command
  was lost in the pipe, and it is shown when one is; the test program keeps the latest messages in its
  window up to its first collection;
  root references keep what the collector made of their pointers; a safepoint goes through exactly
  when each of them is covered once; \<open>alloc\<close> and \<open>alloc_array\<close> return initialised values and leave heap and
  references fit for the next operation, as they are when a thread of a fresh instance starts; descriptors list the pointers of a
  type. Where the code does not do what it means to, a theorem gives the condition under which it
  fails.

  Termination and fuel. There is no fuel: loops are structural recursion or functions with a measure,
  except \<open>mark_loop\<close> and \<open>pipe_drain\<close>, which are \<open>partial_function (option)\<close>. For the first the
  theorems show that it returns; the second returns unless values have size 0. \<open>writer_run\<close> is
  iterated a number of times that \<open>writer_cost\<close> bounds.

  The platform. \<open>pipe2\<close> with \<open>O_DIRECT\<close>, \<open>userfaultfd\<close>, \<open>mmap\<close>, \<open>mincore\<close> and the locks and condition
  variables of \<open>parking_lot\<close> are not under \<open>src/\<close>. The kernel calls of the copier and of \<open>mmap.rs\<close>
  are parameters with named assumptions (\<open>kernel_ok\<close>): what a call of \<open>UFFDIO_MOVE\<close> moves is in the
  kernel's answer beside what it reports (\<open>move_answer\<close>), \<open>mincore\<close> tells the residency that results, and the
  fix-up of the code is shown to recover the one from the other (\<open>mincore_ok\<close>, \<open>answers_ok\<close>); in \<open>Pipe\<close> and \<open>GC_Sync\<close> the documented behaviour
  of pipe, mutex and page fault queue is part of the transition system, as are mutex and condition
  variables in \<open>GC_Controller\<close>. \<open>IndexMap\<close> and \<open>BitVec\<close> are lists.

  Not modelled: how floating point numbers are printed in \<open>Profiler::report\<close>, which is a parameter, as is
  its writer, which may fail;
  printing in the marker and in \<open>gc_thread\<close>; memory orderings of atomics beyond the panics of
  \<open>AtomicUsize::update\<close>; mutators between the reads of one iteration of the marker, and while the
  jobs of the copier run, other than as page faults; the worker pools and the poll loop of the copier, which are a schedule; file descriptors;
  references as such (they are addresses); closures that allocate while they initialise a value; the
  macro \<open>safe_roots\<close>; the compile error of the derive macro on enums; the module lists \<open>lib.rs\<close> of
  \<open>uwugc\<close> and \<open>uwugc-plus-alloc\<close>; of \<open>uwugc-test\<close>, timing and printing and the unused program
  \<open>uwugc_plus/mod.rs\<close>.
\<close>

section \<open>Properties of the collector\<close>

text \<open>
  C1: A collection cycle is correct. In a world that is ready for it, with nobody interfering, the
  five steps of \<open>do_cycle\<close> return without a panic. There is an injection \<open>f\<close> of the live objects
  into the other space such that every live object has been moved: its copy has the same kind, size
  and data, and points to the copies of what it pointed to; the roots of every context point to the
  copies; the spaces have been exchanged and the old one reads as zeros; and the world is ready for
  the next cycle, with exactly the copies as its heap. The jobs of the copier may run in any order
  and any number of page faults may come between them.
\<close>

theorem collection_correct:
  assumes "gc_ready statics objs gc w" "kernel_ok os" "schedules_ok schedule"
  shows "\<exists>f gc' w'. do_cycle (types_ops statics) checks os schedule quiet gc w = Some (Inr (gc', w')) \<and>
    inj_on f (live_objects statics w) \<and>
    (\<forall>obj \<in> live_objects statics w. relocated statics (w_memory w) (w_memory w') f obj) \<and>
    roots_of w' = map (map f) (roots_of w) \<and>
    gc_ready statics (f ` live_objects statics w) (Some gc') w' \<and>
    ss_second_mm (w_shared w') = [ss_mm (w_shared w)] \<and>
    (\<forall>a \<in> mm_area (ss_mm (w_shared w)). w_memory w' a = 0)"
  using assms by (rule quiet_cycle_step)

theorem collection_correct_witness:
  "\<exists>(f :: nat \<Rightarrow> nat) gc' w'. do_cycle (types_ops sample_statics) True sample_kernel eager_schedule quiet None sample_world =
      Some (Inr (gc', w')) \<and>
    roots_of w' = [[f 2097152]] \<and> pointers_of sample_statics (w_memory w') (f 2097152) = [f 2097184]"
proof -
  have "2097152 \<in> live_objects sample_statics sample_world"
    unfolding live_objects_def by (intro CollectI reaches.root) (simp add: roots_of_def sample_world_def)
  moreover have "roots_of sample_world = [[2097152]]" "w_memory sample_world = sample_memory"
    by (simp_all add: roots_of_def sample_world_def)
  moreover obtain f gc' w' where
    "do_cycle (types_ops sample_statics) True sample_kernel eager_schedule quiet None sample_world = Some (Inr (gc', w'))"
    "\<forall>obj \<in> live_objects sample_statics sample_world.
       relocated sample_statics (w_memory sample_world) (w_memory w') f obj"
    "roots_of w' = map (map f) (roots_of sample_world)"
    using collection_correct[OF sample_world_ready sample_kernel_ok eager_schedule_ok, of True] by blast
  ultimately have "roots_of w' = [[f 2097152]] \<and> pointers_of sample_statics (w_memory w') (f 2097152) = [f 2097184]"
    using sample_pointers(1) unfolding relocated_def by simp
  then show ?thesis
    using \<open>do_cycle (types_ops sample_statics) True sample_kernel eager_schedule quiet None sample_world = Some (Inr (gc', w'))\<close>
    by blast
qed

text \<open>Any number of cycles in a row, each with the state the one before left.\<close>

fun run_cycles ::
    "'tm type_manager_ops \<Rightarrow> bool \<Rightarrow> os_kernel \<Rightarrow> (copier_active \<Rightarrow> nat list) \<Rightarrow> nat
     \<Rightarrow> persistent_state option \<Rightarrow> 'tm world \<Rightarrow> (persistent_state option \<times> 'tm world) res option" where
  "run_cycles ops checks os schedule 0 gc w = Some (Inr (gc, w))"
| "run_cycles ops checks os schedule (Suc n) gc w =
     (case gc_thread_cycle ops checks os schedule quiet gc w of
        None \<Rightarrow> None
      | Some (Inl e) \<Rightarrow> Some (Inl e)
      | Some (Inr (gc, w)) \<Rightarrow> run_cycles ops checks os schedule n (Some gc) w)"

text \<open>
  The collector never gets stuck. From a world that is ready, every number of cycles of
  \<open>gc_thread\<close>'s closure, with the cached registry, marker and copier handed on from each to the next,
  runs to its end without a panic, and leaves the same roots in number and a heap no larger.
\<close>

theorem collections_never_fail:
  assumes "gc_ready statics objs gc w" "kernel_ok os" "schedules_ok schedule"
  shows "\<exists>objs' gc' w'. run_cycles (types_ops statics) checks os schedule n gc w = Some (Inr (gc', w')) \<and>
    gc_ready statics objs' gc' w' \<and> card objs' \<le> card objs \<and>
    map length (roots_of w') = map length (roots_of w)"
  using assms(1)
proof (induction n arbitrary: gc w objs)
  case 0
  then show ?case by auto
next
  case (Suc n)
  let ?w = "w\<lparr>w_shared := flush_contexts (w_shared w)\<rparr>"
  note flush = flush_ready[OF Suc.prems]
  from quiet_cycle_step[OF flush(1) assms(2,3)] obtain f gc1 w1 where
    1: "do_cycle (types_ops statics) checks os schedule quiet gc ?w = Some (Inr (gc1, w1))"
      "gc_ready statics (f ` live_objects statics ?w) (Some gc1) w1" "roots_of w1 = map (map f) (roots_of ?w)"
    by blast
  have "finite objs" using gc_readyD(3)[OF Suc.prems] by (simp add: heap_wf_def)
  with gc_ready_live(1)[OF flush(1)] have "card (f ` live_objects statics ?w) \<le> card objs"
    by (meson card_image_le card_mono finite_subset le_trans)
  moreover have "map length (roots_of w1) = map length (roots_of w)" using 1(3) flush(2) by (simp add: o_def)
  moreover have "gc_thread_cycle (types_ops statics) checks os schedule quiet gc w = Some (Inr (gc1, w1))"
    using 1(1) by (simp add: gc_thread_cycle_def quiet_def)
  ultimately show ?case using Suc.IH[OF 1(2)] by fastforce
qed

theorem collections_never_fail_witness:
  "\<exists>gc' w'. run_cycles (types_ops sample_statics) False sample_kernel eager_schedule 3 None sample_world =
     Some (Inr (gc', w'))"
  using collections_never_fail[OF sample_world_ready sample_kernel_ok eager_schedule_ok, of False 3] by blast

text \<open>
  C8: Marking is exact and terminates. On a well-formed heap whose objects are unmarked and whose
  live part takes at most half of the other space (less five pages), \<open>Marker::start\<close> returns without a panic; exactly the objects reachable from the saved
  roots carry the cycle's mark, garbage does not, the live count is their number, and the memory
  differs from before in mark bits only.
\<close>

theorem marker_marks_live:
  assumes "mark_ready statics ts m objs roots pt hi t"
  shows "\<exists>st. marker_start (types_ops statics) ts m marker_new roots pt builder_new hi t = Some (Inr st) \<and>
    (\<forall>obj \<in> objs. obj_marked t (ms_memory st) obj \<longleftrightarrow> live statics ts m roots obj) \<and>
    ms_live st = card {obj. live statics ts m roots obj} \<and> marked_variant objs m (ms_memory st)"
proof -
  from assms obtain order st where
    st: "marker_start (types_ops statics) ts m marker_new roots pt builder_new hi t = Some (Inr st)"
      "mark_inv (types_ops statics) ts m objs hi t builder_new (concat roots) order st"
      "fst ` set order = {obj. live statics ts m roots obj}" by (rule mark_ready_total)
  note inv = mark_invD[OF st(2)]
  have "card {obj. live statics ts m roots obj} = length order"
    using distinct_card[OF inv(3)] st(3) by simp
  with st(1,3) inv(1,2,8) show ?thesis by auto
qed

theorem marker_marks_live_witness:
  "\<exists>st. marker_start (types_ops sample_statics) types_new sample_memory marker_new [[2097152]]
      (page_table_new 16777216 6) builder_new sample_hi Bit1 = Some (Inr st) \<and>
    obj_marked Bit1 (ms_memory st) 2097184"
proof -
  have "live sample_statics types_new sample_memory [[2097152]] 2097184"
    using reaches.step[OF reaches.root, of 2097152 "concat [[2097152]]" 2097184 "types_ops sample_statics"
        types_new sample_memory] by (simp add: sample_pointers)
  then show ?thesis using marker_marks_live[OF sample_ready] by auto
qed

text \<open>
  C9: Marking prepares an injective relocation. After the marker, freezing its registry gives every
  live object \<open>obj\<close> a forwarding address \<open>f obj\<close>: aligned, non-null, inside the blocks allocated in
  the other space and disjoint from those of the other live objects; the registry maps every
  address inside a live object to the corresponding address of its new place, and knows nothing of
  any other address of the heap.
\<close>

theorem marker_forwards_live:
  assumes "mark_ready statics ts m objs roots pt hi t"
    and "marker_start (types_ops statics) ts m marker_new roots pt builder_new hi t = Some (Inr st)"
  shows "\<exists>f. (\<forall>obj. live statics ts m roots obj \<longrightarrow>
      8 dvd f obj \<and> f obj \<noteq> 0 \<and> hi_to_space hi \<le> f obj \<and>
      block (f obj) (obj_size (types_ops statics) ts m obj) \<subseteq> used_addrs (snd (ms_alloc st)) \<and>
      (\<forall>i < obj_size (types_ops statics) ts m obj.
         map_src_to_dest (builder_freeze (ms_registry st)) (obj + i - hi_start hi) =
           Inr (Some (f obj - hi_to_space hi + i)))) \<and>
    (\<forall>x y. live statics ts m roots x \<longrightarrow> live statics ts m roots y \<longrightarrow> x \<noteq> y \<longrightarrow>
      block (f x) (obj_size (types_ops statics) ts m x) \<inter> block (f y) (obj_size (types_ops statics) ts m y) = {}) \<and>
    (\<forall>p. (\<forall>obj. live statics ts m roots obj \<longrightarrow>
        hi_start hi + p \<notin> block obj (obj_size (types_ops statics) ts m obj)) \<longrightarrow>
      map_src_to_dest (builder_freeze (ms_registry st)) p = Inr None)"
proof -
  from assms obtain order where
    inv: "mark_inv (types_ops statics) ts m objs hi t builder_new (concat roots) order st"
      and live: "\<And>obj. live statics ts m roots obj \<longleftrightarrow> obj \<in> fst ` set order"
    using mark_ready_total[OF assms(1)] by (metis Inr_inject mem_Collect_eq option.inject)
  have wf: "heap_wf (types_ops statics) ts (sane_type statics ts) m objs"
    and above: "\<forall>x \<in> objs. hi_start hi \<le> x" using assms(1) by (auto simp: mark_ready_def)
  have used: "ctx_used (ms_alloc st) = used_addrs (snd (ms_alloc st))"
    by (cases "ms_alloc st") (simp add: ctx_simps)
  note fw = types.marker_forwards[OF wf above inv]
  show ?thesis
    unfolding live by (rule exI[of _ "\<lambda>obj. the (map_of order obj)"]) (use fw used in \<open>auto simp del: in_block\<close>)
qed

theorem marker_forwards_live_witness:
  "\<exists>st d. marker_start (types_ops sample_statics) types_new sample_memory marker_new [[2097152]]
      (page_table_new 16777216 6) builder_new sample_hi Bit1 = Some (Inr st) \<and>
    map_src_to_dest (builder_freeze (ms_registry st)) 8 = Inr (Some d)"
proof -
  from sample_ready obtain order st where
    st: "marker_start (types_ops sample_statics) types_new sample_memory marker_new [[2097152]]
      (page_table_new 16777216 6) builder_new sample_hi Bit1 = Some (Inr st)" by (rule mark_ready_total)
  have "live sample_statics types_new sample_memory [[2097152]] 2097152"
    by (rule reaches.root) simp
  moreover have "(8 :: nat) < obj_size (types_ops sample_statics) types_new sample_memory 2097152"
    "(2097152 :: nat) + 8 - hi_start sample_hi = 8"
    by (simp_all add: sample_sizes sample_hi_def)
  ultimately show ?thesis using marker_forwards_live[OF sample_ready st] st by metis
qed

end
